(* ===== verification/Aios_Prelude.thy ===== *)
theory Aios_Prelude
  imports Main "HOL-Library.Word"
begin

text \<open>
  Shared material of the development: the names of the machine types, Rust's \<open>Result\<close> as a
  sum, checked arithmetic on words, the \<^emph>\<open>slot table\<close> idiom of the kernel (a fixed array of
  \<open>Option\<close> slots searched for its first free or first matching entry), and the window of a
  circular buffer. The kernel uses slot tables for capabilities, processes, threads, channels,
  notifications, shared regions and services, so the lemmas about them are stated once here.
\<close>

named_theorems slot_simps \<open>rewrite rules for slot tables\<close>
named_theorems inv_intros \<open>introduction rules for component invariants\<close>

section \<open>Machine types and results\<close>

type_synonym u8 = "8 word"
type_synonym u32 = "32 word"
type_synonym u64 = "64 word"

text \<open>Rust's \<open>Result<T, E>\<close>: \<open>Err e\<close> is the left summand.\<close>

type_synonym ('a, 'e) result = "'e + 'a"

abbreviation Ok :: "'a \<Rightarrow> ('a, 'e) result" where
  "Ok \<equiv> Inr"

abbreviation Err :: "'e \<Rightarrow> ('a, 'e) result" where
  "Err \<equiv> Inl"

text \<open>The Rust idiom \<open>if f(..) { .. } else { .. }\<close> for an \<open>f\<close> that also changes state.\<close>

lemma case_bool_pair:
  "(case p of (True, a) \<Rightarrow> f a | (False, b) \<Rightarrow> g b) = (if fst p then f (snd p) else g (snd p))"
  by (cases p) (simp split: bool.split)

definition u64_MAX :: u64 where
  "u64_MAX = - 1"

definition usize_MAX :: nat where
  "usize_MAX = 2 ^ 64 - 1"

text \<open>\<open>u64::checked_add\<close>: no result when the sum does not fit.\<close>

definition checked_add :: "'a::len word \<Rightarrow> 'a word \<Rightarrow> 'a word option" where
  "checked_add a b = (if unat a + unat b < 2 ^ LENGTH('a) then Some (a + b) else None)"

lemma checked_add_Some_iff:
  "checked_add a b = Some (c :: 'a::len word) \<longleftrightarrow> unat c = unat a + unat b"
proof
  assume "checked_add a b = Some c"
  then show "unat c = unat a + unat b"
    by (auto simp: checked_add_def unat_word_ariths split: if_splits)
next
  assume c: "unat c = unat a + unat b"
  then have "unat a + unat b < 2 ^ LENGTH('a)"
    by (metis unsigned_less)
  moreover from this have "unat (a + b) = unat c"
    by (simp add: c unat_word_ariths)
  then have "a + b = c" by (rule unsigned_word_eqI)
  ultimately show "checked_add a b = Some c"
    by (simp add: checked_add_def)
qed

lemma checked_add_None_iff:
  "checked_add a (b :: 'a::len word) = None \<longleftrightarrow> 2 ^ LENGTH('a) \<le> unat a + unat b"
  by (simp add: checked_add_def)

lemma unat_u64_MAX [simp]: "unat u64_MAX = 2 ^ 64 - 1"
  by (simp add: u64_MAX_def unsigned_minus_1_eq_mask mask_eq_exp_minus_1)

lemma unat_ucast_eq:
  "unat (ucast (w :: 'a::len word) :: 'b::len word) = unat w mod 2 ^ LENGTH('b)"
  by (simp add: unsigned_ucast_eq take_bit_eq_mod)

section \<open>Slot tables\<close>

text \<open>\<open>table.iter().position(|s| s.is_none())\<close>, the slot every table allocates from.\<close>

fun first_free :: "'a option list \<Rightarrow> nat option" where
  "first_free [] = None"
| "first_free (None # xs) = Some 0"
| "first_free (Some x # xs) = map_option Suc (first_free xs)"

lemma first_free_SomeD:
  "first_free xs = Some i \<Longrightarrow>
     i < length xs \<and> xs ! i = None \<and> (\<forall>j < i. xs ! j \<noteq> None)"
proof (induction xs arbitrary: i rule: first_free.induct)
  case (3 x xs)
  then obtain j where j: "first_free xs = Some j" "i = Suc j" by auto
  with "3.IH" have IH: "j < length xs" "xs ! j = None" "\<forall>k < j. xs ! k \<noteq> None" by auto
  then show ?case using j by (auto simp: nth_Cons split: nat.splits)
qed auto

lemma first_free_None_iff: "first_free xs = None \<longleftrightarrow> None \<notin> set xs"
  by (induction xs rule: first_free.induct) auto

lemma first_free_length: "first_free xs = Some i \<Longrightarrow> i < length xs"
  by (simp add: first_free_SomeD)

lemma first_free_empty: "first_free xs = Some i \<Longrightarrow> xs ! i = None"
  by (simp add: first_free_SomeD)

text \<open>The occupied slots of a table, in table order (\<open>iter().flatten()\<close>).\<close>

fun occupied :: "'a option list \<Rightarrow> 'a list" where
  "occupied [] = []"
| "occupied (None # xs) = occupied xs"
| "occupied (Some x # xs) = x # occupied xs"

lemma set_occupied [slot_simps]: "set (occupied xs) = {x. Some x \<in> set xs}"
  by (induction xs rule: occupied.induct) auto

lemma occupied_append [simp]: "occupied (xs @ ys) = occupied xs @ occupied ys"
  by (induction xs rule: occupied.induct) auto

lemma occupied_replicate_None [simp]: "occupied (replicate n None) = []"
  by (induction n) auto

lemma length_occupied_le: "length (occupied xs) \<le> length xs"
  by (induction xs rule: occupied.induct) auto

lemma occupied_map_map_option:
  "occupied (map (map_option f) xs) = map f (occupied xs)"
  by (induction xs rule: occupied.induct) auto

lemma Some_in_map_option:
  "Some y \<in> set (map (map_option f) xs) \<longleftrightarrow> (\<exists>x. Some x \<in> set xs \<and> y = f x)"
proof (induction xs)
  case (Cons a xs)
  then show ?case by (cases a) auto
qed simp

lemma occupied_update_free:
  assumes "i < length xs" "xs ! i = None"
  shows "\<exists>as bs. occupied xs = as @ bs \<and> occupied (xs[i := Some x]) = as @ x # bs"
proof -
  have "xs = take i xs @ None # drop (Suc i) xs"
    using assms by (metis id_take_nth_drop)
  then have "occupied xs = occupied (take i xs) @ occupied (drop (Suc i) xs)"
    by (metis occupied.simps(2) occupied_append)
  moreover have "occupied (xs[i := Some x]) = occupied (take i xs) @ x # occupied (drop (Suc i) xs)"
    using assms by (simp add: upd_conv_take_nth_drop)
  ultimately show ?thesis by blast
qed

lemma Some_in_update_free:
  assumes "i < length xs" "xs ! i = None"
  shows "Some y \<in> set (xs[i := Some x]) \<longleftrightarrow> y = x \<or> Some y \<in> set xs"
proof -
  have "set xs = insert None (set (take i xs) \<union> set (drop (Suc i) xs))"
    using assms by (metis id_take_nth_drop list.simps(15) set_append Un_insert_right)
  moreover have "set (xs[i := Some x]) = insert (Some x) (set (take i xs) \<union> set (drop (Suc i) xs))"
    using assms by (simp add: upd_conv_take_nth_drop)
  ultimately show ?thesis by auto
qed

section \<open>Windows of a circular buffer\<close>

text \<open>The \<open>n\<close> elements of a buffer from position \<open>h\<close>, wrapping at its end.\<close>

definition window :: "'a list \<Rightarrow> nat \<Rightarrow> nat \<Rightarrow> 'a list" where
  "window xs h n = map (\<lambda>i. xs ! ((h + i) mod length xs)) [0..<n]"

lemma length_window [simp]: "length (window xs h n) = n"
  by (simp add: window_def)

lemma window_0 [simp]: "window xs h 0 = []"
  by (simp add: window_def)

lemma mod_offset_inject:
  fixes N :: nat
  assumes "i < N" "j < N" "(h + i) mod N = (h + j) mod N"
  shows "i = j"
proof (rule ccontr)
  assume "i \<noteq> j"
  then consider "i < j" | "j < i" by linarith
  then show False
  proof cases
    case 1
    then have "N dvd (j - i)"
      using assms(3) mod_eq_dvd_iff_nat[of "h + i" "h + j" N] by simp
    then show False using 1 assms(2) by (auto dest: dvd_imp_le)
  next
    case 2
    then have "N dvd (i - j)"
      using assms(3) mod_eq_dvd_iff_nat[of "h + j" "h + i" N] by simp
    then show False using 2 assms(1) by (auto dest: dvd_imp_le)
  qed
qed

lemma window_push:
  assumes "n < length xs"
  shows "window (xs[(h + n) mod length xs := v]) h (Suc n) = window xs h n @ [v]"
proof -
  have "(h + n) mod length xs < length xs" using assms by (intro mod_less_divisor) linarith
  moreover have "i < n \<Longrightarrow> (h + n) mod length xs \<noteq> (h + i) mod length xs" for i
    using mod_offset_inject[of i "length xs" n h] assms by auto
  ultimately show ?thesis by (simp add: window_def)
qed

lemma window_pop:
  assumes "0 < n" "h < length xs"
  shows "window xs h n = xs ! h # window xs ((h + 1) mod length xs) (n - 1)"
proof -
  have "[0..<n] = 0 # map Suc [0..<n - 1]"
    using assms(1) by (simp add: map_Suc_upt upt_conv_Cons)
  then show ?thesis
    using assms(2) by (simp add: window_def mod_add_left_eq)
qed

lemma mod_head_step:
  fixes N :: nat
  assumes "0 < n"
  shows "(h + n) mod N = ((h + 1) mod N + (n - 1)) mod N"
proof -
  have "((h + 1) mod N + (n - 1)) mod N = (h + 1 + (n - 1)) mod N"
    by (rule mod_add_left_eq)
  also have "h + 1 + (n - 1) = h + n" using assms by simp
  finally show ?thesis by simp
qed

lemma window_update_outside:
  assumes "\<forall>i < n. (h + i) mod length xs \<noteq> k"
  shows "window (xs[k := v]) h n = window xs h n"
  using assms by (auto simp: window_def)

lemma window_clear_head:
  assumes "0 < n" "n \<le> length xs" "h < length xs"
  shows "window (xs[h := d]) ((h + 1) mod length xs) (n - 1) =
           window xs ((h + 1) mod length xs) (n - 1)"
proof (rule window_update_outside, intro allI impI)
  fix i
  assume i: "i < n - 1"
  then have "(h + (i + 1)) mod length xs \<noteq> (h + 0) mod length xs"
    using mod_offset_inject[of "i + 1" "length xs" 0 h] assms by fastforce
  moreover have "((h + 1) mod length xs + i) mod length xs = (h + (i + 1)) mod length xs"
    using mod_add_left_eq[of "h + 1" "length xs" i] by simp
  ultimately show "((h + 1) mod length xs + i) mod length xs \<noteq> h"
    using assms by simp
qed

end
