(* ===== verification/Collections.thy ===== *)
theory Collections
  imports Aios_Prelude
begin

text \<open>
  The circular buffers of the kernel: \<open>FixedQueue\<close> and \<open>RingBuffer\<close> of
  \<open>shared/src/collections.rs\<close> (scheduler run queues and generic rings). Each buffer has a
  window abstraction to the list of its queued elements. The interface \<open>bounded_fifo\<close> states
  what a client relies on; a client program is a list of pushes and pops, and the locale proves
  once that such a program observes exactly a bounded first-in-first-out list. The IPC
  \<open>MessageRing\<close> (theory \<open>Kernel_State\<close>) interprets the same interface.
\<close>

section \<open>The interface\<close>

datatype 'a fifo_op = Push 'a | Pop

datatype 'a fifo_res = Pushed bool | Popped "'a option"

text \<open>Running a client program against any pair of push and pop operations.\<close>

fun fifo_exec ::
  "('a \<Rightarrow> 'q \<Rightarrow> bool \<times> 'q) \<Rightarrow> ('q \<Rightarrow> 'a option \<times> 'q) \<Rightarrow> 'q \<Rightarrow> 'a fifo_op list \<Rightarrow>
     'a fifo_res list \<times> 'q" where
  "fifo_exec pu po q [] = ([], q)"
| "fifo_exec pu po q (Push x # ops) =
     (let (b, q1) = pu x q; (rs, q2) = fifo_exec pu po q1 ops in (Pushed b # rs, q2))"
| "fifo_exec pu po q (Pop # ops) =
     (let (r, q1) = po q; (rs, q2) = fifo_exec pu po q1 ops in (Popped r # rs, q2))"

text \<open>The specification: a list of at most \<open>n\<close> elements, pushed at the end, popped at the front.\<close>

definition spec_push :: "nat \<Rightarrow> 'a \<Rightarrow> 'a list \<Rightarrow> bool \<times> 'a list" where
  "spec_push n x xs = (if length xs < n then (True, xs @ [x]) else (False, xs))"

definition spec_pop :: "'a list \<Rightarrow> 'a option \<times> 'a list" where
  "spec_pop xs = (case xs of [] \<Rightarrow> (None, []) | y # ys \<Rightarrow> (Some y, ys))"

locale bounded_fifo =
  fixes capacity :: nat
    and invar :: "'q \<Rightarrow> bool"
    and queued :: "'q \<Rightarrow> 'a list"
    and empty_q :: "'q"
    and push_q :: "'a \<Rightarrow> 'q \<Rightarrow> bool \<times> 'q"
    and pop_q :: "'q \<Rightarrow> 'a option \<times> 'q"
  assumes invar_empty: "invar empty_q"
    and queued_empty: "queued empty_q = []"
    and invar_push: "invar q \<Longrightarrow> invar (snd (push_q x q))"
    and invar_pop: "invar q \<Longrightarrow> invar (snd (pop_q q))"
    and push_spec: "invar q \<Longrightarrow>
          map_prod id queued (push_q x q) = spec_push capacity x (queued q)"
    and pop_spec: "invar q \<Longrightarrow> map_prod id queued (pop_q q) = spec_pop (queued q)"
begin

lemma exec_refines:
  assumes "invar q"
  shows "map_prod id queued (fifo_exec push_q pop_q q ops) =
           fifo_exec (spec_push capacity) spec_pop (queued q) ops"
    and "invar (snd (fifo_exec push_q pop_q q ops))"
  using assms
proof (induction ops arbitrary: q)
  case (Cons p ops)
  {
    case 1
    show ?case
    proof (cases p)
      case (Push x)
      then show ?thesis
        using Cons.IH(1)[OF invar_push[OF 1, of x]] push_spec[OF 1, of x]
        by (cases "push_q x q") (auto simp: Let_def split: prod.splits)
    next
      case Pop
      then show ?thesis
        using Cons.IH(1)[OF invar_pop[OF 1]] pop_spec[OF 1]
        by (cases "pop_q q") (auto simp: Let_def split: prod.splits)
    qed
  next
    case 2
    show ?case
    proof (cases p)
      case (Push x)
      then show ?thesis
        using Cons.IH(2)[OF invar_push[OF 2, of x]] by (auto simp: Let_def split: prod.splits)
    next
      case Pop
      then show ?thesis
        using Cons.IH(2)[OF invar_pop[OF 2]] by (auto simp: Let_def split: prod.splits)
    qed
  }
qed auto

lemma exec_results:
  "fst (fifo_exec push_q pop_q empty_q ops) = fst (fifo_exec (spec_push capacity) spec_pop [] ops)"
  using exec_refines(1)[OF invar_empty, of ops] queued_empty
  by (metis fst_map_prod id_apply)

lemma push_True_iff: "invar q \<Longrightarrow> fst (push_q x q) \<longleftrightarrow> length (queued q) < capacity"
  using push_spec[of q x] by (cases "push_q x q") (auto simp: spec_push_def split: if_splits)

lemma queued_push:
  "invar q \<Longrightarrow> queued (snd (push_q x q)) =
     (if length (queued q) < capacity then queued q @ [x] else queued q)"
  using push_spec[of q x] by (cases "push_q x q") (auto simp: spec_push_def split: if_splits)

lemma pop_fst: "invar q \<Longrightarrow> fst (pop_q q) = (case queued q of [] \<Rightarrow> None | y # _ \<Rightarrow> Some y)"
  using pop_spec[of q] by (cases "pop_q q") (auto simp: spec_pop_def split: list.splits)

lemma queued_pop: "invar q \<Longrightarrow> queued (snd (pop_q q)) = tl (queued q)"
  using pop_spec[of q] by (cases "pop_q q") (auto simp: spec_pop_def split: list.splits)

end

section \<open>FixedQueue\<close>

text \<open>
  \<open>FixedQueue<T, N>\<close>: the const generic \<open>N\<close> is the length of the buffer. \<open>push_back\<close> and
  \<open>pop_front\<close> return their result together with the updated queue.
\<close>

record 'a FixedQueue =
  fq_buf :: "'a option list"
  fq_head :: nat
  fq_tail :: nat
  fq_len :: nat

definition fq_new :: "nat \<Rightarrow> 'a FixedQueue" where
  "fq_new N = \<lparr>fq_buf = replicate N None, fq_head = 0, fq_tail = 0, fq_len = 0\<rparr>"

definition push_back :: "'a \<Rightarrow> 'a FixedQueue \<Rightarrow> bool \<times> 'a FixedQueue" where
  "push_back val q =
     (let N = length (fq_buf q) in
      if fq_len q \<ge> N then (False, q)
      else (True, q\<lparr>fq_buf := (fq_buf q)[fq_tail q := Some val],
                    fq_tail := (fq_tail q + 1) mod N,
                    fq_len := fq_len q + 1\<rparr>))"

definition pop_front :: "'a FixedQueue \<Rightarrow> 'a option \<times> 'a FixedQueue" where
  "pop_front q =
     (let N = length (fq_buf q) in
      if fq_len q = 0 then (None, q)
      else (fq_buf q ! fq_head q,
            q\<lparr>fq_buf := (fq_buf q)[fq_head q := None],
              fq_head := (fq_head q + 1) mod N,
              fq_len := fq_len q - 1\<rparr>))"

definition fq_is_empty :: "'a FixedQueue \<Rightarrow> bool" where
  "fq_is_empty q = (fq_len q = 0)"

text \<open>
  The front-to-back iterator: \<open>next\<close> advances \<open>pos\<close> over the live range and skips a slot
  that holds no value; \<open>fq_iter_from q pos\<close> is what the iterator still yields.
\<close>

function fq_iter_from :: "'a FixedQueue \<Rightarrow> nat \<Rightarrow> 'a list" where
  "fq_iter_from q pos =
     (if pos < fq_len q then
        (let N = length (fq_buf q);
             raw = fq_head q + pos;
             slot = (if raw \<ge> N then raw - N else raw)
         in case (if slot < N then fq_buf q ! slot else None) of
              Some v \<Rightarrow> v # fq_iter_from q (pos + 1)
            | None \<Rightarrow> fq_iter_from q (pos + 1))
      else [])"
  by pat_completeness auto
termination
  by (relation "measure (\<lambda>(q, pos). fq_len q - pos)") auto

declare fq_iter_from.simps [simp del]

definition fq_iter :: "'a FixedQueue \<Rightarrow> 'a list" where
  "fq_iter q = fq_iter_from q 0"

definition fq_contains :: "'a FixedQueue \<Rightarrow> 'a \<Rightarrow> bool" where
  "fq_contains q val = list_ex (\<lambda>queued. queued = val) (fq_iter q)"

text \<open>The queue's contents and its representation invariant.\<close>

definition fq_list :: "'a FixedQueue \<Rightarrow> 'a list" where
  "fq_list q = map the (window (fq_buf q) (fq_head q) (fq_len q))"

definition fq_inv :: "nat \<Rightarrow> 'a FixedQueue \<Rightarrow> bool" where
  "fq_inv N q \<longleftrightarrow>
     0 < N \<and> length (fq_buf q) = N \<and> fq_head q < N \<and> fq_len q \<le> N \<and>
     fq_tail q = (fq_head q + fq_len q) mod N \<and>
     (\<forall>x \<in> set (window (fq_buf q) (fq_head q) (fq_len q)). x \<noteq> None)"

lemma fq_inv_new: "0 < N \<Longrightarrow> fq_inv N (fq_new N)"
  by (simp add: fq_inv_def fq_new_def)

lemma fq_list_new [simp]: "fq_list (fq_new N) = []"
  by (simp add: fq_list_def fq_new_def)

lemma length_fq_list [simp]: "length (fq_list q) = fq_len q"
  by (simp add: fq_list_def)

lemma fq_push_window:
  assumes "fq_inv N q" "fq_len q < N"
  shows "window ((fq_buf q)[fq_tail q := Some x]) (fq_head q) (Suc (fq_len q)) =
           window (fq_buf q) (fq_head q) (fq_len q) @ [Some x]"
  using assms window_push[of "fq_len q" "fq_buf q" "fq_head q" "Some x"]
  by (simp add: fq_inv_def)

lemma fq_inv_push:
  assumes "fq_inv N q"
  shows "fq_inv N (snd (push_back x q))"
proof (cases "fq_len q < N")
  case True
  then show ?thesis
    using assms fq_push_window[OF assms True, of x]
    by (auto simp: fq_inv_def push_back_def Let_def mod_Suc_eq)
next
  case False
  then show ?thesis using assms by (auto simp: fq_inv_def push_back_def)
qed

lemma fq_push_spec:
  assumes "fq_inv N q"
  shows "map_prod id fq_list (push_back x q) = spec_push N x (fq_list q)"
  using assms fq_push_window[OF assms, of x]
  by (auto simp: fq_inv_def push_back_def spec_push_def fq_list_def Let_def)

lemma fq_pop_window:
  assumes "fq_inv N q" "0 < fq_len q"
  shows "window ((fq_buf q)[fq_head q := None]) ((fq_head q + 1) mod N) (fq_len q - 1) =
           window (fq_buf q) ((fq_head q + 1) mod N) (fq_len q - 1)"
  using assms window_clear_head[of "fq_len q" "fq_buf q" "fq_head q" None] by (simp add: fq_inv_def)

lemma fq_window_pop:
  assumes "fq_inv N q" "0 < fq_len q"
  shows "window (fq_buf q) (fq_head q) (fq_len q) =
           fq_buf q ! fq_head q # window (fq_buf q) ((fq_head q + 1) mod N) (fq_len q - 1)"
  using assms window_pop[of "fq_len q" "fq_head q" "fq_buf q"] by (simp add: fq_inv_def)

lemma fq_inv_pop:
  assumes "fq_inv N q"
  shows "fq_inv N (snd (pop_front q))"
proof (cases "fq_len q = 0")
  case True
  then show ?thesis using assms by (simp add: pop_front_def)
next
  case False
  then show ?thesis
    using assms mod_head_step[of "fq_len q" "fq_head q" N] fq_pop_window[OF assms] fq_window_pop[OF assms]
    by (auto simp: fq_inv_def pop_front_def Let_def)
qed

lemma fq_pop_spec:
  assumes "fq_inv N q"
  shows "map_prod id fq_list (pop_front q) = spec_pop (fq_list q)"
proof (cases "fq_len q = 0")
  case True
  then show ?thesis by (simp add: pop_front_def spec_pop_def fq_list_def)
next
  case False
  then have "fq_buf q ! fq_head q \<noteq> None"
    using assms fq_window_pop[OF assms] by (auto simp: fq_inv_def)
  then show ?thesis
    using assms False fq_pop_window[OF assms] fq_window_pop[OF assms]
    by (auto simp: fq_inv_def pop_front_def spec_pop_def fq_list_def Let_def)
qed

text \<open>The scheduler's queues hold \<open>MAX_THREADS\<close> = 64 threads.\<close>

abbreviation SCHED_QUEUE_CAP :: nat where
  "SCHED_QUEUE_CAP \<equiv> 64"

interpretation fq: bounded_fifo SCHED_QUEUE_CAP "fq_inv SCHED_QUEUE_CAP" fq_list
    "fq_new SCHED_QUEUE_CAP" push_back pop_front
  by unfold_locales (auto intro: fq_inv_new fq_inv_push fq_inv_pop fq_push_spec fq_pop_spec)

text \<open>The iterator yields the queue's contents in pop order and skips nothing.\<close>

lemma fq_iter_from_window:
  assumes "fq_inv N q" "pos \<le> fq_len q"
  shows "fq_iter_from q pos = drop pos (fq_list q)"
  using assms
proof (induction "fq_len q - pos" arbitrary: pos)
  case 0
  then show ?case by (subst fq_iter_from.simps) simp
next
  case (Suc k)
  define slot where "slot = (fq_head q + pos) mod N"
  have N: "length (fq_buf q) = N" "fq_head q < N" "fq_len q \<le> N" and pos: "pos < fq_len q"
    using Suc by (auto simp: fq_inv_def)
  have raw: "(if fq_head q + pos \<ge> N then fq_head q + pos - N else fq_head q + pos) = slot"
    using N pos by (auto simp: slot_def mod_if)
  have elem: "fq_buf q ! slot \<in> set (window (fq_buf q) (fq_head q) (fq_len q))"
    using pos N by (auto simp: window_def slot_def)
  then obtain v where v: "fq_buf q ! slot = Some v"
    using Suc.prems(1) by (auto simp: fq_inv_def)
  have "fq_list q ! pos = v"
    using pos N v by (simp add: fq_list_def window_def slot_def)
  moreover have "fq_iter_from q (pos + 1) = drop (pos + 1) (fq_list q)"
    using Suc pos by auto
  moreover have "slot < N" using N by (auto simp: slot_def)
  ultimately show ?case
    using pos raw v N Cons_nth_drop_Suc[of pos "fq_list q"]
    by (subst fq_iter_from.simps) (simp add: Let_def)
qed

lemma fq_iter_list: "fq_inv N q \<Longrightarrow> fq_iter q = fq_list q"
  by (simp add: fq_iter_def fq_iter_from_window)

lemma fq_contains_iff: "fq_inv N q \<Longrightarrow> fq_contains q v \<longleftrightarrow> v \<in> set (fq_list q)"
  by (auto simp: fq_contains_def fq_iter_list list_ex_iff)

section \<open>RingBuffer\<close>

text \<open>
  \<open>RingBuffer<T, N>\<close> stores its elements directly; \<open>pop\<close> leaves \<open>T::default()\<close>, the
  parameter \<open>dflt\<close>, in the slot it empties.
\<close>

record 'a RingBuffer =
  rb_buf :: "'a list"
  rb_head :: nat
  rb_tail :: nat
  rb_len :: nat

definition rb_new :: "nat \<Rightarrow> 'a \<Rightarrow> 'a RingBuffer" where
  "rb_new N dflt = \<lparr>rb_buf = replicate N dflt, rb_head = 0, rb_tail = 0, rb_len = 0\<rparr>"

definition rb_push :: "'a \<Rightarrow> 'a RingBuffer \<Rightarrow> bool \<times> 'a RingBuffer" where
  "rb_push val q =
     (let N = length (rb_buf q) in
      if rb_len q \<ge> N then (False, q)
      else (True, q\<lparr>rb_buf := (rb_buf q)[rb_tail q := val],
                    rb_tail := (rb_tail q + 1) mod N,
                    rb_len := rb_len q + 1\<rparr>))"

definition rb_pop :: "'a \<Rightarrow> 'a RingBuffer \<Rightarrow> 'a option \<times> 'a RingBuffer" where
  "rb_pop dflt q =
     (let N = length (rb_buf q) in
      if rb_len q = 0 then (None, q)
      else (Some (rb_buf q ! rb_head q),
            q\<lparr>rb_buf := (rb_buf q)[rb_head q := dflt],
              rb_head := (rb_head q + 1) mod N,
              rb_len := rb_len q - 1\<rparr>))"

definition rb_is_full :: "'a RingBuffer \<Rightarrow> bool" where
  "rb_is_full q = (rb_len q \<ge> length (rb_buf q))"

definition rb_is_empty :: "'a RingBuffer \<Rightarrow> bool" where
  "rb_is_empty q = (rb_len q = 0)"

definition rb_list :: "'a RingBuffer \<Rightarrow> 'a list" where
  "rb_list q = window (rb_buf q) (rb_head q) (rb_len q)"

definition rb_inv :: "nat \<Rightarrow> 'a RingBuffer \<Rightarrow> bool" where
  "rb_inv N q \<longleftrightarrow>
     0 < N \<and> length (rb_buf q) = N \<and> rb_head q < N \<and> rb_len q \<le> N \<and>
     rb_tail q = (rb_head q + rb_len q) mod N"

lemma rb_inv_new: "0 < N \<Longrightarrow> rb_inv N (rb_new N d)"
  by (simp add: rb_inv_def rb_new_def)

lemma rb_list_new: "rb_list (rb_new N d) = []"
  by (simp add: rb_list_def rb_new_def)

lemma rb_inv_push: "rb_inv N q \<Longrightarrow> rb_inv N (snd (rb_push x q))"
  by (auto simp: rb_inv_def rb_push_def Let_def mod_Suc_eq)

lemma rb_push_spec:
  assumes "rb_inv N q"
  shows "map_prod id rb_list (rb_push x q) = spec_push N x (rb_list q)"
  using assms window_push[of "rb_len q" "rb_buf q" "rb_head q" x]
  by (auto simp: rb_inv_def rb_push_def spec_push_def rb_list_def Let_def)

lemma rb_inv_pop:
  assumes "rb_inv N q"
  shows "rb_inv N (snd (rb_pop d q))"
proof (cases "rb_len q = 0")
  case False
  then show ?thesis
    using assms mod_head_step[of "rb_len q" "rb_head q" N] by (auto simp: rb_inv_def rb_pop_def Let_def)
qed (use assms in \<open>simp add: rb_pop_def\<close>)

lemma rb_pop_spec:
  assumes "rb_inv N q"
  shows "map_prod id rb_list (rb_pop d q) = spec_pop (rb_list q)"
proof (cases "rb_len q = 0")
  case True
  then show ?thesis by (simp add: rb_pop_def spec_pop_def rb_list_def)
next
  case False
  have N: "length (rb_buf q) = N" "rb_head q < N" "rb_len q \<le> N"
    using assms by (auto simp: rb_inv_def)
  have "window ((rb_buf q)[rb_head q := d]) ((rb_head q + 1) mod N) (rb_len q - 1) =
               window (rb_buf q) ((rb_head q + 1) mod N) (rb_len q - 1)"
    using window_clear_head[of "rb_len q" "rb_buf q" "rb_head q" d] False N by simp
  moreover have "window (rb_buf q) (rb_head q) (rb_len q) =
      rb_buf q ! rb_head q # window (rb_buf q) ((rb_head q + 1) mod N) (rb_len q - 1)"
    using window_pop[of "rb_len q" "rb_head q" "rb_buf q"] False N by simp
  ultimately show ?thesis
    using False N by (simp add: rb_pop_def spec_pop_def rb_list_def Let_def)
qed

lemma rb_fifo: "0 < N \<Longrightarrow> bounded_fifo N (rb_inv N) rb_list (rb_new N d) rb_push (rb_pop d)"
  by unfold_locales
    (simp_all add: rb_inv_new rb_list_new rb_inv_push rb_inv_pop rb_push_spec rb_pop_spec)

section \<open>Properties\<close>

text \<open>
  C31. \<open>FixedQueue\<close> as the run queues use it: whatever sequence of \<open>push_back\<close> and \<open>pop_front\<close> a
  client runs on a new queue, it sees exactly the results of a first-in-first-out list that
  refuses a push when it holds 64 elements, and the iterator then yields that list.
\<close>

theorem fixed_queue_is_fifo:
  "map_prod id fq_iter (fifo_exec push_back pop_front (fq_new SCHED_QUEUE_CAP) ops) =
     fifo_exec (spec_push SCHED_QUEUE_CAP) spec_pop [] ops"
proof -
  let ?r = "fifo_exec push_back pop_front (fq_new SCHED_QUEUE_CAP) ops"
  have "fq_iter (snd ?r) = fq_list (snd ?r)"
    using fq.exec_refines(2)[OF fq.invar_empty] by (rule fq_iter_list)
  then show ?thesis using fq.exec_refines(1)[OF fq.invar_empty, of ops] by (cases ?r) simp
qed

text \<open>
  C37. \<open>RingBuffer\<close> of any positive capacity: every client program of pushes and pops sees a
  bounded first-in-first-out list; the default value left in emptied slots is never returned.
\<close>

theorem ring_buffer_is_fifo:
  assumes "0 < N"
  shows "map_prod id rb_list (fifo_exec rb_push (rb_pop d) (rb_new N d) ops) =
           fifo_exec (spec_push N) spec_pop [] ops"
  using bounded_fifo.exec_refines(1)[OF rb_fifo[OF assms] bounded_fifo.invar_empty[OF rb_fifo[OF assms]], of d d ops]
  by (simp add: rb_list_new)

theorem ring_buffer_is_fifo_witness:
  "fst (fifo_exec rb_push (rb_pop 0) (rb_new 1 0) [Push (7 :: nat), Push 8, Pop, Pop]) =
     [Pushed True, Pushed False, Popped (Some 7), Popped None]"
proof -
  have "map_prod id rb_list (fifo_exec rb_push (rb_pop 0) (rb_new 1 0) [Push (7 :: nat), Push 8, Pop, Pop]) =
      fifo_exec (spec_push 1) spec_pop [] [Push 7, Push 8, Pop, Pop]"
    by (rule ring_buffer_is_fifo) simp
  also have "\<dots> = ([Pushed True, Pushed False, Popped (Some 7), Popped None], [])"
    by (simp add: spec_push_def spec_pop_def)
  finally show ?thesis by (metis fst_conv fst_map_prod id_apply)
qed

end
