(* ===== verification/Abi.thy ===== *)
theory Abi
  imports Aios_Prelude
begin

unbundle bit_operations_syntax

text \<open>
  The values shared by the kernel and user space: error codes and the decoding of syscall
  argument registers (\<open>shared/src/syscall.rs\<close>), identifiers, timeouts, select entries and their
  wire format, service names and the user address check (\<open>shared/src/ipc.rs\<close>), and the
  scheduler's plain types (\<open>shared/src/sched.rs\<close>). Identifiers are \<open>u32\<close> words, ticks and
  registers \<open>u64\<close> words; an \<open>i64\<close> return code is an \<open>int\<close>.
\<close>

section \<open>Error codes\<close>

datatype IpcError =
    Etimedout | Epipe | Eagain | Ecanceled | Eacces | Eperm | Enospc | Eproto | Enotsup
  | EcapDormant | Eexist | Einval | Enomem

text \<open>\<open>e as i64\<close>.\<close>

fun errno :: "IpcError \<Rightarrow> int" where
  "errno Etimedout = - 1"
| "errno Epipe = - 2"
| "errno Eagain = - 3"
| "errno Ecanceled = - 4"
| "errno Eacces = - 5"
| "errno Eperm = - 6"
| "errno Enospc = - 7"
| "errno Eproto = - 8"
| "errno Enotsup = - 9"
| "errno EcapDormant = - 10"
| "errno Eexist = - 11"
| "errno Einval = - 12"
| "errno Enomem = - 13"

definition IpcError_ALL :: "IpcError list" where
  "IpcError_ALL = [Etimedout, Epipe, Eagain, Ecanceled, Eacces, Eperm, Enospc, Eproto, Enotsup,
     EcapDormant, Eexist, Einval, Enomem]"

definition IpcError_try_from :: "int \<Rightarrow> (IpcError, int) result" where
  "IpcError_try_from code =
     (case List.find (\<lambda>e. errno e = code) IpcError_ALL of
        Some e \<Rightarrow> Ok e
      | None \<Rightarrow> Err code)"

lemma errno_neg [simp]: "errno e < 0"
  by (cases e) auto

lemma errno_nonzero [simp]: "errno e \<noteq> 0" "0 \<noteq> errno e"
  by (cases e; simp)+

lemma errno_inject [simp]: "errno d = errno e \<longleftrightarrow> d = e"
  by (cases d; cases e) auto

lemma set_IpcError_ALL: "e \<in> set IpcError_ALL"
  by (cases e) (auto simp: IpcError_ALL_def)

lemma IpcError_try_from_Ok: "IpcError_try_from code = Ok e \<longleftrightarrow> errno e = code"
proof
  assume "IpcError_try_from code = Ok e"
  then show "errno e = code"
    by (auto simp: IpcError_try_from_def find_Some_iff split: option.splits)
next
  assume "errno e = code"
  then have "List.find (\<lambda>d. errno d = code) IpcError_ALL = Some e"
    by (cases e) (auto simp: IpcError_ALL_def)
  then show "IpcError_try_from code = Ok e" by (simp add: IpcError_try_from_def)
qed

section \<open>Decoding argument registers\<close>

definition MAX_CAPS_PER_PROCESS :: nat where
  "MAX_CAPS_PER_PROCESS = 256"

definition id_arg :: "u64 \<Rightarrow> (u32, int) result" where
  "id_arg reg = (if reg \<le> 0xFFFFFFFF then Ok (ucast reg) else Err (errno Einval))"

definition cap_handle_arg :: "u64 \<Rightarrow> (u32, int) result" where
  "cap_handle_arg reg =
     (if reg < of_nat MAX_CAPS_PER_PROCESS then Ok (ucast reg) else Err (errno Einval))"

definition MEMORY_FLAGS_MASK :: u64 where
  "MEMORY_FLAGS_MASK = 7"

definition flags_arg :: "u64 \<Rightarrow> (u32, int) result" where
  "flags_arg reg =
     (if reg AND NOT MEMORY_FLAGS_MASK = 0 then Ok (ucast reg) else Err (errno Einval))"

lemma id_arg_Ok: "id_arg reg = Ok i \<longleftrightarrow> unat reg = unat i"
proof
  assume ok: "id_arg reg = Ok i"
  then have "unat reg \<le> 2 ^ 32 - 1" and i: "i = ucast reg"
    by (auto simp: id_arg_def word_le_nat_alt split: if_splits)
  then show "unat reg = unat i"
    by (simp add: unat_ucast_eq)
next
  assume e: "unat reg = unat i"
  have "unat i < 2 ^ 32" using unsigned_less[of i] by simp
  then have "unat reg \<le> 4294967295" using e by simp
  moreover have "ucast reg = i"
    using e \<open>unat i < 2 ^ 32\<close> by (simp add: word_unat_eq_iff unat_ucast_eq)
  ultimately show "id_arg reg = Ok i" by (simp add: id_arg_def word_le_nat_alt)
qed

lemma cap_handle_arg_Ok:
  "cap_handle_arg reg = Ok h \<longleftrightarrow> unat reg = unat h \<and> unat h < MAX_CAPS_PER_PROCESS"
proof -
  have b: "reg < of_nat MAX_CAPS_PER_PROCESS \<longleftrightarrow> unat reg < 256"
    by (simp add: MAX_CAPS_PER_PROCESS_def word_less_nat_alt)
  show ?thesis
  proof
    assume "cap_handle_arg reg = Ok h"
    then show "unat reg = unat h \<and> unat h < MAX_CAPS_PER_PROCESS"
      using b by (auto simp: cap_handle_arg_def unat_ucast_eq MAX_CAPS_PER_PROCESS_def split: if_splits)
  next
    assume h: "unat reg = unat h \<and> unat h < MAX_CAPS_PER_PROCESS"
    then have "ucast reg = h"
      by (simp add: word_unat_eq_iff unat_ucast_eq MAX_CAPS_PER_PROCESS_def)
    then show "cap_handle_arg reg = Ok h"
      using h b by (simp add: cap_handle_arg_def MAX_CAPS_PER_PROCESS_def)
  qed
qed

section \<open>Identifiers and deadlines\<close>

type_synonym ThreadId = u32
type_synonym ProcessId = u32
type_synonym ChannelId = u32
type_synonym NotificationId = u32
type_synonym SharedMemoryId = u32

definition MAX_CHANNELS :: nat where "MAX_CHANNELS = 128"
definition RING_CAPACITY :: nat where "RING_CAPACITY = 16"
definition MAX_MESSAGE_SIZE :: nat where "MAX_MESSAGE_SIZE = 256"
definition MAX_INHERITANCE_DEPTH :: u8 where "MAX_INHERITANCE_DEPTH = 8"
definition MAX_NOTIFICATIONS :: nat where "MAX_NOTIFICATIONS = 64"
definition MAX_WAITERS_PER_NOTIFICATION :: nat where "MAX_WAITERS_PER_NOTIFICATION = 8"
definition MAX_SHARED_REGIONS :: nat where "MAX_SHARED_REGIONS = 64"
definition MAX_SHARED_MAPPINGS :: nat where "MAX_SHARED_MAPPINGS = 8"
definition MAX_SELECT_ENTRIES :: nat where "MAX_SELECT_ENTRIES = 8"
definition MAX_PROCESSES :: nat where "MAX_PROCESSES = 32"
definition MAX_THREADS :: nat where "MAX_THREADS = 64"

text \<open>\<open>ChannelId::index\<close> and \<open>ProcessId::index\<close>: the slot of an identifier, if it has one.\<close>

definition channel_index :: "ChannelId \<Rightarrow> nat option" where
  "channel_index c = (let idx = unat c in if idx < MAX_CHANNELS then Some idx else None)"

definition process_index :: "ProcessId \<Rightarrow> nat option" where
  "process_index p = (let idx = unat p in if idx < MAX_PROCESSES then Some idx else None)"

lemma channel_index_SomeD: "channel_index c = Some i \<Longrightarrow> i = unat c \<and> i < MAX_CHANNELS"
  by (auto simp: channel_index_def Let_def split: if_splits)

lemma process_index_SomeD: "process_index p = Some i \<Longrightarrow> i = unat p \<and> i < MAX_PROCESSES"
  by (auto simp: process_index_def Let_def split: if_splits)

definition deadline_after :: "u64 \<Rightarrow> u64 \<Rightarrow> u64 option" where
  "deadline_after now timeout_ticks =
     (if timeout_ticks = u64_MAX then None
      else case checked_add now timeout_ticks of
             Some deadline \<Rightarrow> if deadline \<noteq> u64_MAX then Some deadline else None
           | None \<Rightarrow> None)"

section \<open>Select entries and their wire format\<close>

datatype SelectKind = SelChannel ChannelId | SelNotification NotificationId u64

record RawSelectEntry =
  rse_kind :: u32
  rse_id :: u32
  rse_mask :: u64

definition SELECT_KIND_CHANNEL :: u32 where "SELECT_KIND_CHANNEL = 0"
definition SELECT_KIND_NOTIFICATION :: u32 where "SELECT_KIND_NOTIFICATION = 1"

text \<open>\<open>From<SelectEntry> for RawSelectEntry\<close> and \<open>TryFrom<RawSelectEntry> for SelectEntry\<close>.\<close>

fun raw_of_select :: "SelectKind \<Rightarrow> RawSelectEntry" where
  "raw_of_select (SelChannel ch) =
     \<lparr>rse_kind = SELECT_KIND_CHANNEL, rse_id = ch, rse_mask = 0\<rparr>"
| "raw_of_select (SelNotification n m) =
     \<lparr>rse_kind = SELECT_KIND_NOTIFICATION, rse_id = n, rse_mask = m\<rparr>"

definition select_try_from :: "RawSelectEntry \<Rightarrow> (SelectKind, int) result" where
  "select_try_from raw =
     (if rse_kind raw = SELECT_KIND_CHANNEL then Ok (SelChannel (rse_id raw))
      else if rse_kind raw = SELECT_KIND_NOTIFICATION
      then Ok (SelNotification (rse_id raw) (rse_mask raw))
      else Err (errno Einval))"

text \<open>
  Little-endian integers (the native order on AArch64): the value of a byte list and the
  \<open>n\<close> low bytes of a number.
\<close>

fun from_le :: "u8 list \<Rightarrow> nat" where
  "from_le [] = 0"
| "from_le (b # bs) = unat b + 256 * from_le bs"

fun to_le :: "nat \<Rightarrow> nat \<Rightarrow> u8 list" where
  "to_le 0 x = []"
| "to_le (Suc n) x = word_of_nat (x mod 256) # to_le n (x div 256)"

lemma length_to_le [simp]: "length (to_le n x) = n"
  by (induction n arbitrary: x) auto

lemma from_le_to_le: "from_le (to_le n x) = x mod 256 ^ n"
proof (induction n arbitrary: x)
  case (Suc n)
  have "unat (word_of_nat (x mod 256) :: u8) = x mod 256"
    by (simp add: unat_of_nat)
  then show ?case
    using mod_mult2_eq[of x 256 "256 ^ n"] by (simp add: Suc)
qed simp

lemma from_le_bound: "from_le bs < 256 ^ length bs"
proof (induction bs)
  case (Cons b bs)
  have "unat b < 256" using unsigned_less[of b] by simp
  with Cons show ?case by simp
qed simp

lemma to_le_from_le: "to_le (length bs) (from_le bs) = bs"
proof (induction bs)
  case (Cons b bs)
  have "unat b < 256" using unsigned_less[of b] by simp
  then have "(unat b + 256 * from_le bs) mod 256 = unat b"
    "(unat b + 256 * from_le bs) div 256 = from_le bs" by simp_all
  then show ?case using Cons by simp
qed simp

text \<open>
  \<open>RawSelectEntry::from_bytes\<close> reads the 16 bytes of the \<open>repr(C)\<close> layout: \<open>kind\<close> at 0,
  \<open>id\<close> at 4, \<open>mask\<close> at 8. \<open>raw_to_bytes\<close> is that layout.
\<close>

definition raw_from_bytes :: "u8 list \<Rightarrow> RawSelectEntry" where
  "raw_from_bytes b =
     \<lparr>rse_kind = word_of_nat (from_le (take 4 b)),
      rse_id = word_of_nat (from_le (take 4 (drop 4 b))),
      rse_mask = word_of_nat (from_le (take 8 (drop 8 b)))\<rparr>"

definition raw_to_bytes :: "RawSelectEntry \<Rightarrow> u8 list" where
  "raw_to_bytes r = to_le 4 (unat (rse_kind r)) @ to_le 4 (unat (rse_id r)) @ to_le 8 (unat (rse_mask r))"

lemma word_of_nat_le_bytes:
  "256 ^ n = (2 :: nat) ^ LENGTH('a) \<Longrightarrow>
     word_of_nat (from_le (to_le n (unat (w :: 'a::len word)))) = w"
  by (simp add: from_le_to_le)

lemma raw_from_to_bytes: "raw_from_bytes (raw_to_bytes r) = r"
proof -
  have "(256 :: nat) ^ 4 = 2 ^ 32" "(256 :: nat) ^ 8 = 2 ^ 64" by simp_all
  then show ?thesis
    by (cases r) (simp add: raw_from_bytes_def raw_to_bytes_def word_of_nat_le_bytes)
qed

lemma raw_to_from_bytes:
  assumes "length b = 16"
  shows "raw_to_bytes (raw_from_bytes b) = b"
proof -
  have w4: "unat (word_of_nat (from_le bs) :: u32) = from_le bs" if "length bs = 4" for bs
    using from_le_bound[of bs] that by (simp add: unat_of_nat)
  have w8: "unat (word_of_nat (from_le bs) :: u64) = from_le bs" if "length bs = 8" for bs
    using from_le_bound[of bs] that by (simp add: unat_of_nat)
  have t: "to_le n (from_le bs) = bs" if "length bs = n" for n bs
    using to_le_from_le[of bs] that by simp
  have "take 4 b @ take 4 (drop 4 b) @ take 8 (drop 8 b) = b"
    using assms by (metis (no_types, opaque_lifting) append_take_drop_id drop_drop
        length_drop take_all numeral_Bit0 diff_add_inverse order_refl)
  then show ?thesis
    using assms by (simp add: raw_from_bytes_def raw_to_bytes_def w4 w8 t)
qed

section \<open>Service names\<close>

definition MAX_SERVICE_NAME_LEN :: nat where "MAX_SERVICE_NAME_LEN = 32"

record ServiceName =
  sn_bytes :: "u8 list"
  sn_len :: nat

definition sn_from_bytes :: "u8 list \<Rightarrow> ServiceName" where
  "sn_from_bytes name =
     (let len = min (length name) MAX_SERVICE_NAME_LEN in
      \<lparr>sn_bytes = take len name @ replicate (MAX_SERVICE_NAME_LEN - len) 0, sn_len = len\<rparr>)"

definition sn_as_bytes :: "ServiceName \<Rightarrow> u8 list" where
  "sn_as_bytes s = take (sn_len s) (sn_bytes s)"

definition sn_matches :: "ServiceName \<Rightarrow> u8 list \<Rightarrow> bool" where
  "sn_matches s other =
     (let other_len = min (length other) MAX_SERVICE_NAME_LEN in
      sn_len s = other_len \<and> take (sn_len s) (sn_bytes s) = take other_len other)"

definition sn_eq :: "ServiceName \<Rightarrow> ServiceName \<Rightarrow> bool" where
  "sn_eq a b =
     (sn_len a = sn_len b \<and> take (sn_len a) (sn_bytes a) = take (sn_len b) (sn_bytes b))"

lemma sn_as_from_bytes: "sn_as_bytes (sn_from_bytes name) = take MAX_SERVICE_NAME_LEN name"
  by (simp add: sn_as_bytes_def sn_from_bytes_def Let_def min_def)

lemma sn_matches_from_bytes:
  "sn_matches (sn_from_bytes a) b \<longleftrightarrow> take MAX_SERVICE_NAME_LEN a = take MAX_SERVICE_NAME_LEN b"
  by (auto simp: sn_matches_def sn_from_bytes_def Let_def min_def dest: arg_cong[where f = length])

section \<open>User addresses\<close>

definition USER_VA_LIMIT :: u64 where "USER_VA_LIMIT = 0x0000800000000000"
definition USER_VA_MIN :: u64 where "USER_VA_MIN = 0x1000"

definition validate_user_va :: "u64 \<Rightarrow> u64 \<Rightarrow> bool" where
  "validate_user_va ptr len =
     (case checked_add ptr len of
        None \<Rightarrow> False
      | Some e \<Rightarrow> (USER_VA_MIN \<le> ptr \<and> ptr < USER_VA_LIMIT) \<and> e \<le> USER_VA_LIMIT)"

section \<open>Scheduler types\<close>

datatype SchedulerClass = Idle | Normal | Interactive | RealTime

text \<open>The discriminants of \<open>repr(u8)\<close>; \<open>Ord\<close> is derived from them.\<close>

fun class_rank :: "SchedulerClass \<Rightarrow> nat" where
  "class_rank Idle = 0"
| "class_rank Normal = 1"
| "class_rank Interactive = 2"
| "class_rank RealTime = 3"

lemma class_rank_inject: "class_rank a = class_rank b \<longleftrightarrow> a = b"
  by (cases a; cases b) auto

instantiation SchedulerClass :: linorder
begin

definition less_eq_SchedulerClass :: "SchedulerClass \<Rightarrow> SchedulerClass \<Rightarrow> bool" where
  "less_eq_SchedulerClass a b \<longleftrightarrow> class_rank a \<le> class_rank b"

definition less_SchedulerClass :: "SchedulerClass \<Rightarrow> SchedulerClass \<Rightarrow> bool" where
  "less_SchedulerClass a b \<longleftrightarrow> class_rank a < class_rank b"

instance
  by standard
    (auto simp: less_eq_SchedulerClass_def less_SchedulerClass_def class_rank_inject [symmetric])

end

fun default_slice :: "SchedulerClass \<Rightarrow> u64" where
  "default_slice RealTime = 4000000"
| "default_slice Interactive = 10000000"
| "default_slice Normal = 50000000"
| "default_slice Idle = 50000000"

datatype ThreadState =
    Runnable
  | Running
  | BlockedIpc u64
  | BlockedTimer u64
  | BlockedIo
  | BlockedNotification u32
  | BlockedSelect
  | BlockedProcessWait u32
  | Suspended
  | Dead

text \<open>The affinity bitmask \<open>CpuSet\<close>.\<close>

type_synonym CpuSet = u64

definition cpuset_all :: CpuSet where
  "cpuset_all = NOT 0"

definition cpuset_single :: "nat \<Rightarrow> CpuSet option" where
  "cpuset_single cpu = (if cpu < 64 then Some (push_bit cpu 1) else None)"

definition cpuset_contains :: "CpuSet \<Rightarrow> nat \<Rightarrow> bool" where
  "cpuset_contains s cpu = (if cpu \<ge> 64 then False else s AND push_bit cpu 1 \<noteq> 0)"

definition cpuset_count :: "CpuSet \<Rightarrow> nat" where
  "cpuset_count s = length (filter (\<lambda>i. bit s i) [0..<64])"

lemma cpuset_contains_bit: "cpuset_contains s cpu \<longleftrightarrow> cpu < 64 \<and> bit s cpu"
  by (auto simp: cpuset_contains_def bit_iff_and_push_bit_not_eq_0 [of s cpu])

record KernelResourceLimits =
  max_channels :: u32
  max_shared_regions :: u32
  max_pending_messages :: u32
  max_notification_subscriptions :: u32
  max_child_processes :: u32

definition limits_system :: KernelResourceLimits where
  "limits_system = \<lparr>max_channels = 256, max_shared_regions = 128, max_pending_messages = 1024,
     max_notification_subscriptions = 64, max_child_processes = 32\<rparr>"

definition limits_native :: KernelResourceLimits where
  "limits_native = \<lparr>max_channels = 128, max_shared_regions = 64, max_pending_messages = 512,
     max_notification_subscriptions = 32, max_child_processes = 16\<rparr>"

definition limits_third_party :: KernelResourceLimits where
  "limits_third_party = \<lparr>max_channels = 64, max_shared_regions = 32, max_pending_messages = 256,
     max_notification_subscriptions = 16, max_child_processes = 8\<rparr>"

definition limits_web :: KernelResourceLimits where
  "limits_web = \<lparr>max_channels = 16, max_shared_regions = 8, max_pending_messages = 64,
     max_notification_subscriptions = 4, max_child_processes = 0\<rparr>"

definition allows_child :: "KernelResourceLimits \<Rightarrow> KernelResourceLimits \<Rightarrow> bool" where
  "allows_child self child =
     (max_channels child \<le> max_channels self \<and>
      max_shared_regions child \<le> max_shared_regions self \<and>
      max_pending_messages child \<le> max_pending_messages self \<and>
      max_notification_subscriptions child \<le> max_notification_subscriptions self \<and>
      max_child_processes child \<le> max_child_processes self)"

lemma allows_child_trans: "allows_child a b \<Longrightarrow> allows_child b c \<Longrightarrow> allows_child a c"
  by (auto simp: allows_child_def)

section \<open>Properties\<close>

text \<open>
  C38. Error codes: every \<open>IpcError\<close> is a negative \<open>i64\<close>, and the conversion back from an \<open>i64\<close>
  accepts exactly the codes of the errors and returns the error that has the code.
\<close>

theorem ipc_error_roundtrip:
  "errno e < 0 \<and> IpcError_try_from (errno e) = Ok e \<and>
   (case IpcError_try_from code of Ok d \<Rightarrow> errno d = code | Err c \<Rightarrow> c = code \<and> code \<notin> range errno)"
proof -
  have "case IpcError_try_from code of Ok d \<Rightarrow> errno d = code | Err c \<Rightarrow> c = code \<and> code \<notin> range errno"
  proof (cases "IpcError_try_from code")
    case (Inl c)
    have "code \<notin> range errno"
    proof
      assume "code \<in> range errno"
      then obtain d where "errno d = code" by blast
      then have "IpcError_try_from code = Ok d" by (simp add: IpcError_try_from_Ok)
      then show False using Inl by simp
    qed
    then show ?thesis using Inl by (auto simp: IpcError_try_from_def split: option.splits)
  next
    case (Inr d)
    then have "errno d = code" by (simp add: IpcError_try_from_Ok)
    then show ?thesis using Inr by simp
  qed
  then show ?thesis by (simp add: IpcError_try_from_Ok)
qed

lemma and_not_mask_eq_0: "w AND NOT (mask n) = 0 \<longleftrightarrow> unat (w :: 'a::len word) < 2 ^ n"
proof -
  have "w AND NOT (mask n) = 0 \<longleftrightarrow> take_bit n w = w"
  proof
    assume z: "w AND NOT (mask n) = 0"
    show "take_bit n w = w"
    proof (rule bit_word_eqI)
      fix i assume "i < LENGTH('a)"
      moreover have "\<not> bit (w AND NOT (mask n)) i" by (simp only: z bit_0_eq bot_apply) simp
      ultimately have "\<not> (bit w i \<and> \<not> i < n)" by (auto simp: bit_simps)
      then show "bit (take_bit n w) i = bit w i" by (auto simp: bit_simps)
    qed
  next
    assume t: "take_bit n w = w"
    have "take_bit n w AND NOT (mask n) = 0" by (rule bit_word_eqI) (auto simp: bit_simps)
    then show "w AND NOT (mask n) = 0" by (simp only: t)
  qed
  also have "\<dots> \<longleftrightarrow> unat w < 2 ^ n"
    by (simp add: word_unat_eq_iff unsigned_take_bit_eq take_bit_nat_eq_self_iff)
  finally show ?thesis .
qed

lemma flags_arg_Ok: "flags_arg reg = Ok f \<longleftrightarrow> unat reg = unat f \<and> unat reg \<le> 7"
proof -
  have "MEMORY_FLAGS_MASK = mask 3" by (simp add: MEMORY_FLAGS_MASK_def mask_eq_exp_minus_1)
  then have "flags_arg reg = Ok f \<longleftrightarrow> unat reg < 8 \<and> ucast reg = f"
    using and_not_mask_eq_0[of reg 3] by (simp add: flags_arg_def)
  moreover have "ucast reg = f \<longleftrightarrow> unat reg = unat f" if "unat reg < 8"
    using that by (auto simp: word_unat_eq_iff unat_ucast_eq)
  ultimately show ?thesis by auto
qed

text \<open>
  Argument registers are decoded without truncation: an identifier is accepted exactly when
  the 64-bit register holds its 32-bit value, a capability handle only below the table size, and
  memory flags only when no bit outside the mask is set.
\<close>

theorem register_decoding_exact:
  "(id_arg reg = Ok i \<longleftrightarrow> unat reg = unat i) \<and>
   (cap_handle_arg reg = Ok h \<longleftrightarrow> unat reg = unat h \<and> unat h < MAX_CAPS_PER_PROCESS) \<and>
   (flags_arg reg = Ok f \<longleftrightarrow> unat reg = unat f \<and> unat f \<le> 7)"
  using id_arg_Ok cap_handle_arg_Ok flags_arg_Ok by auto

text \<open>
  C34. A deadline is exact or absent: \<open>deadline_after\<close> returns the sum of the two tick counts when
  it is representable and below the "never" value, and no deadline otherwise; it never wraps.
\<close>

theorem deadline_exact:
  "deadline_after now t = Some d \<longleftrightarrow> unat d = unat now + unat t \<and> unat d < 2 ^ 64 - 1"
proof -
  have max_iff: "w = u64_MAX \<longleftrightarrow> unat w = 2 ^ 64 - 1" for w :: u64
    by (simp only: word_unat_eq_iff unat_u64_MAX)
  have "unat d < 2 ^ LENGTH(64)" by (rule unsigned_less)
  then have bound: "unat d \<le> 2 ^ 64 - 1" by simp
  show ?thesis
  proof (cases "checked_add now t")
    case None
    then have "unat d \<noteq> unat now + unat t" by (metis checked_add_Some_iff option.distinct(1))
    then show ?thesis using None by (simp only: deadline_after_def option.case if_cancel) simp
  next
    case (Some c)
    then have c: "unat c = unat now + unat t" by (simp only: checked_add_Some_iff)
    have "deadline_after now t = Some d \<longleftrightarrow> t \<noteq> u64_MAX \<and> c \<noteq> u64_MAX \<and> c = d"
      using Some by (simp only: deadline_after_def option.case) simp
    also have "\<dots> \<longleftrightarrow> unat d = unat now + unat t \<and> unat d < 2 ^ 64 - 1"
      unfolding max_iff word_unat_eq_iff[of c d] c using bound by (auto simp only: le_eq_less_or_eq)
    finally show ?thesis .
  qed
qed

text \<open>
  C39. Select entries survive the trip through their 16-byte wire format: decoding the encoded
  entry returns it.
\<close>

theorem select_wire_roundtrip:
  "select_try_from (raw_from_bytes (raw_to_bytes (raw_of_select e))) = Ok e"
  by (cases e) (simp_all add: raw_from_to_bytes select_try_from_def SELECT_KIND_CHANNEL_def SELECT_KIND_NOTIFICATION_def)

text \<open>
  C37. A user buffer passes validation exactly when all of it lies between the first mappable page
  and the end of the user half of the address space; ranges that wrap are refused.
\<close>

theorem user_range_valid:
  "validate_user_va ptr len \<longleftrightarrow> 2 ^ 12 \<le> unat ptr \<and> unat ptr < 2 ^ 47 \<and> unat ptr + unat len \<le> 2 ^ 47"
proof (cases "checked_add ptr len")
  case None
  then have "\<not> unat ptr + unat len \<le> 2 ^ 47" by (simp add: checked_add_None_iff)
  then show ?thesis using None by (simp add: validate_user_va_def)
next
  case (Some e)
  then have "unat e = unat ptr + unat len" by (simp add: checked_add_Some_iff)
  then show ?thesis
    using Some by (auto simp: validate_user_va_def USER_VA_MIN_def USER_VA_LIMIT_def word_le_nat_alt word_less_nat_alt)
qed

end
