(* ===== verification/Capability.thy ===== *)
theory Capability
  imports Abi
begin

text \<open>
  The per-process capability table of \<open>shared/src/cap.rs\<close>: what a capability permits, how it may
  be narrowed, and the operations of \<open>CapabilityTable\<close>. \<open>revoke\<close> is translated with its loop:
  one pass marks the primary token, then passes over the slots repeat until none of them revokes
  a token. The main result about it, \<open>revoke_tokens\<close>, says that the loop computes the least set
  of descendants, \<open>derived\<close>.
\<close>

section \<open>Capabilities\<close>

type_synonym CapabilityTokenId = u64
type_synonym CapabilityHandle = u32

datatype Capability =
    ChannelCreate
  | ChannelAccess ChannelId
  | SharedMemoryCreate
  | SharedMemoryAccess u32
  | SpawnAgent
  | DebugPrint
  | GpuMmioAccess
  | GpuBufferCreate
  | GpuBufferAccess u32
  | DisplayControl
  | CompositorCreateSurface
  | CompositorFullscreen
  | CompositorOverlay
  | CompositorInputAccess

definition permits :: "Capability \<Rightarrow> Capability \<Rightarrow> bool" where
  "permits self action =
     (case (self, action) of
        (ChannelCreate, ChannelCreate) \<Rightarrow> True
      | (ChannelAccess held, ChannelAccess needed) \<Rightarrow> held = needed
      | (SharedMemoryCreate, SharedMemoryCreate) \<Rightarrow> True
      | (SharedMemoryAccess held, SharedMemoryAccess needed) \<Rightarrow> held = needed
      | (SpawnAgent, SpawnAgent) \<Rightarrow> True
      | (DebugPrint, DebugPrint) \<Rightarrow> True
      | (GpuMmioAccess, GpuMmioAccess) \<Rightarrow> True
      | (GpuBufferCreate, GpuBufferCreate) \<Rightarrow> True
      | (GpuBufferAccess held, GpuBufferAccess needed) \<Rightarrow> held = needed
      | (DisplayControl, DisplayControl) \<Rightarrow> True
      | (CompositorCreateSurface, CompositorCreateSurface) \<Rightarrow> True
      | (CompositorFullscreen, CompositorFullscreen) \<Rightarrow> True
      | (CompositorOverlay, CompositorOverlay) \<Rightarrow> True
      | (CompositorInputAccess, CompositorInputAccess) \<Rightarrow> True
      | _ \<Rightarrow> False)"

definition can_attenuate_to :: "Capability \<Rightarrow> Capability \<Rightarrow> bool" where
  "can_attenuate_to self other =
     (case (self, other) of
        (ChannelCreate, ChannelAccess _) \<Rightarrow> True
      | (SharedMemoryCreate, SharedMemoryAccess _) \<Rightarrow> True
      | (GpuBufferCreate, GpuBufferAccess _) \<Rightarrow> True
      | _ \<Rightarrow> permits self other)"

lemma permits_iff_eq: "permits a b \<longleftrightarrow> a = b"
  by (cases a; cases b) (simp_all add: permits_def)

lemma can_attenuate_to_iff:
  "can_attenuate_to a b \<longleftrightarrow>
     a = b \<or> (\<exists>c. a = ChannelCreate \<and> b = ChannelAccess c) \<or>
     (\<exists>r. a = SharedMemoryCreate \<and> b = SharedMemoryAccess r) \<or>
     (\<exists>r. a = GpuBufferCreate \<and> b = GpuBufferAccess r)"
  by (cases a; cases b) (simp_all add: can_attenuate_to_def permits_iff_eq)

lemma can_attenuate_to_refl [simp]: "can_attenuate_to a a"
  by (auto simp: can_attenuate_to_iff)


lemma can_attenuate_to_antisym:
  "can_attenuate_to a b \<Longrightarrow> can_attenuate_to b a \<Longrightarrow> a = b"
  by (auto simp: can_attenuate_to_iff)

section \<open>Tokens and the table\<close>

record CapabilityToken =
  tok_id :: CapabilityTokenId
  capability :: Capability
  holder :: ProcessId
  delegatable :: bool
  revoked :: bool
  parent_token :: "CapabilityTokenId option"
  usage_count :: u64
  created_at_tick :: u64
  expires_at_tick :: "u64 option"

record CapabilityTable =
  tokens :: "CapabilityToken option list"
  ct_count :: nat

definition cap_table_new :: CapabilityTable where
  "cap_table_new = \<lparr>tokens = replicate MAX_CAPS_PER_PROCESS None, ct_count = 0\<rparr>"

definition grant ::
  "CapabilityToken \<Rightarrow> CapabilityTable \<Rightarrow> (CapabilityHandle, int) result \<times> CapabilityTable" where
  "grant token t =
     (case first_free (tokens t) of
        Some i \<Rightarrow> (Ok (word_of_nat i),
                   t\<lparr>tokens := (tokens t)[i := Some token], ct_count := ct_count t + 1\<rparr>)
      | None \<Rightarrow> (Err (errno Enospc), t))"

definition cap_get :: "CapabilityHandle \<Rightarrow> CapabilityTable \<Rightarrow> CapabilityToken option" where
  "cap_get handle t =
     (let idx = unat handle in
      if idx \<ge> MAX_CAPS_PER_PROCESS then None
      else case tokens t ! idx of
             None \<Rightarrow> None
           | Some tok \<Rightarrow> if revoked tok then None else Some tok)"

text \<open>Whether the token's expiry, if any, has passed at \<open>now\<close>.\<close>

definition expired :: "u64 \<Rightarrow> CapabilityToken \<Rightarrow> bool" where
  "expired now tok = (case expires_at_tick tok of Some ex \<Rightarrow> now \<ge> ex | None \<Rightarrow> False)"

fun find_authorizing :: "CapabilityToken list \<Rightarrow> Capability \<Rightarrow> u64 \<Rightarrow> CapabilityTokenId option" where
  "find_authorizing [] cap now = None"
| "find_authorizing (tok # toks) cap now =
     (if revoked tok then find_authorizing toks cap now
      else if expired now tok then find_authorizing toks cap now
      else if permits (capability tok) cap then Some (tok_id tok)
      else find_authorizing toks cap now)"

definition find_authorizing_token ::
  "CapabilityTable \<Rightarrow> Capability \<Rightarrow> u64 \<Rightarrow> CapabilityTokenId option" where
  "find_authorizing_token t cap now = find_authorizing (occupied (tokens t)) cap now"

definition has_capability :: "CapabilityTable \<Rightarrow> Capability \<Rightarrow> u64 \<Rightarrow> bool" where
  "has_capability t cap now = (find_authorizing_token t cap now \<noteq> None)"

subsection \<open>Revocation\<close>

text \<open>
  The first pass of \<open>revoke\<close>: mark every live token with the given id. The accumulators are
  \<open>to_revoke[..count]\<close> and the table's token count (\<open>saturating_sub\<close>).
\<close>

fun mark_primary ::
  "CapabilityTokenId \<Rightarrow> CapabilityToken option list \<Rightarrow> CapabilityTokenId list \<Rightarrow> nat \<Rightarrow>
     CapabilityToken option list \<times> CapabilityTokenId list \<times> nat" where
  "mark_primary tid [] ids n = ([], ids, n)"
| "mark_primary tid (None # ss) ids n =
     (let (ss', ids', n') = mark_primary tid ss ids n in (None # ss', ids', n'))"
| "mark_primary tid (Some tok # ss) ids n =
     (if tok_id tok = tid \<and> \<not> revoked tok then
        (let (ss', ids', n') = mark_primary tid ss (ids @ [tid]) (n - 1)
         in (Some (tok\<lparr>revoked := True\<rparr>) # ss', ids', n'))
      else
        (let (ss', ids', n') = mark_primary tid ss ids n in (Some tok # ss', ids', n')))"

text \<open>One pass of the \<open>while changed\<close> loop.\<close>

fun cascade_pass ::
  "CapabilityToken option list \<Rightarrow> CapabilityTokenId list \<Rightarrow> nat \<Rightarrow> bool \<Rightarrow>
     CapabilityToken option list \<times> CapabilityTokenId list \<times> nat \<times> bool" where
  "cascade_pass [] ids n changed = ([], ids, n, changed)"
| "cascade_pass (None # ss) ids n changed =
     (let (ss', r) = cascade_pass ss ids n changed in (None # ss', r))"
| "cascade_pass (Some tok # ss) ids n changed =
     (if \<not> revoked tok \<and> (\<exists>p \<in> set ids. parent_token tok = Some p) then
        (let ids1 = (if length ids < MAX_CAPS_PER_PROCESS then ids @ [tok_id tok] else ids);
             (ss', r) = cascade_pass ss ids1 (n - 1) True
         in (Some (tok\<lparr>revoked := True\<rparr>) # ss', r))
      else
        (let (ss', r) = cascade_pass ss ids n changed in (Some tok # ss', r)))"

text \<open>The number of live (not revoked) tokens: what \<open>count\<close> counts and what every pass lowers.\<close>

definition live_tokens :: "CapabilityToken option list \<Rightarrow> CapabilityToken list" where
  "live_tokens ss = filter (\<lambda>tok. \<not> revoked tok) (occupied ss)"

lemma live_tokens_simps [simp]:
  "live_tokens [] = []"
  "live_tokens (None # ss) = live_tokens ss"
  "live_tokens (Some tok # ss) = (if revoked tok then live_tokens ss else tok # live_tokens ss)"
  "live_tokens (as @ bs) = live_tokens as @ live_tokens bs"
  by (simp_all add: live_tokens_def)

lemma set_live_tokens: "tok \<in> set (live_tokens ss) \<longleftrightarrow> Some tok \<in> set ss \<and> \<not> revoked tok"
  by (auto simp: live_tokens_def slot_simps)

lemma cascade_pass_live:
  "cascade_pass ss ids n changed = (ss', ids', n', changed') \<Longrightarrow>
     length (live_tokens ss') \<le> length (live_tokens ss) \<and>
     (changed' \<and> \<not> changed \<longrightarrow> length (live_tokens ss') < length (live_tokens ss))"
  by (induction ss ids n changed arbitrary: ss' ids' n' changed' rule: cascade_pass.induct)
    (fastforce split: if_splits prod.splits simp: Let_def)+

function cascade ::
  "CapabilityToken option list \<Rightarrow> CapabilityTokenId list \<Rightarrow> nat \<Rightarrow>
     CapabilityToken option list \<times> nat" where
  "cascade ss ids n =
     (case cascade_pass ss ids n False of
        (ss', ids', n', changed) \<Rightarrow> if changed then cascade ss' ids' n' else (ss', n'))"
  by pat_completeness auto
termination
  by (relation "measure (\<lambda>(ss, ids, n). length (live_tokens ss))")
    (auto dest: cascade_pass_live [OF sym])

declare cascade.simps [simp del]

definition revoke :: "CapabilityTokenId \<Rightarrow> CapabilityTable \<Rightarrow> CapabilityTable" where
  "revoke tid t =
     (case mark_primary tid (tokens t) [] (ct_count t) of
        (ss1, ids, n1) \<Rightarrow>
          (case cascade ss1 ids n1 of
             (ss2, n2) \<Rightarrow> t\<lparr>tokens := ss2, ct_count := n2\<rparr>))"

subsection \<open>Attenuation and listing\<close>

definition attenuate ::
  "CapabilityHandle \<Rightarrow> Capability \<Rightarrow> u64 option \<Rightarrow> ProcessId \<Rightarrow> CapabilityTokenId \<Rightarrow>
     CapabilityTable \<Rightarrow> (CapabilityHandle, int) result \<times> CapabilityTable" where
  "attenuate handle new_cap new_expiry pid new_id t =
     (case cap_get handle t of
        None \<Rightarrow> (Err (errno Eperm), t)
      | Some parent \<Rightarrow>
          if \<not> can_attenuate_to (capability parent) new_cap then (Err (errno Eperm), t)
          else grant \<lparr>tok_id = new_id, capability = new_cap, holder = pid, delegatable = False,
                 revoked = False, parent_token = Some (tok_id parent), usage_count = 0,
                 created_at_tick = created_at_tick parent, expires_at_tick = new_expiry\<rparr> t)"

text \<open>
  \<open>list\<close> writes the ids of the live tokens, in slot order, into \<open>out\<close> until \<open>max\<close> or the
  length of \<open>out\<close> is reached; the result is the number written and the buffer.
\<close>

fun cap_list_loop ::
  "CapabilityToken option list \<Rightarrow> CapabilityTokenId list \<Rightarrow> nat \<Rightarrow> nat \<Rightarrow>
     nat \<times> CapabilityTokenId list" where
  "cap_list_loop [] out mx written = (written, out)"
| "cap_list_loop (slot # ss) out mx written =
     (if written \<ge> mx \<or> written \<ge> length out then (written, out)
      else case slot of
             Some tok \<Rightarrow> if \<not> revoked tok
                          then cap_list_loop ss (out[written := tok_id tok]) mx (written + 1)
                          else cap_list_loop ss out mx written
           | None \<Rightarrow> cap_list_loop ss out mx written)"

definition cap_list ::
  "CapabilityTable \<Rightarrow> CapabilityTokenId list \<Rightarrow> nat \<Rightarrow> nat \<times> CapabilityTokenId list" where
  "cap_list t out mx = cap_list_loop (tokens t) out mx 0"

section \<open>What revocation computes\<close>

text \<open>
  The descendants of a token: the ids of live tokens reachable from \<open>root\<close> along
  \<open>parent_token\<close> links, \<open>root\<close> included if a live token has it. A token is doomed by the
  revocation of \<open>root\<close> when it is the root or its parent is a descendant.
\<close>

inductive derived ::
  "CapabilityToken option list \<Rightarrow> CapabilityTokenId \<Rightarrow> CapabilityTokenId \<Rightarrow> bool"
  for ss root where
  derived_root: "Some tok \<in> set ss \<Longrightarrow> \<not> revoked tok \<Longrightarrow> tok_id tok = root \<Longrightarrow> derived ss root root"
| derived_child: "derived ss root p \<Longrightarrow> Some tok \<in> set ss \<Longrightarrow> \<not> revoked tok \<Longrightarrow>
     parent_token tok = Some p \<Longrightarrow> derived ss root (tok_id tok)"

definition doomed ::
  "CapabilityToken option list \<Rightarrow> CapabilityTokenId \<Rightarrow> CapabilityToken \<Rightarrow> bool" where
  "doomed ss root tok \<longleftrightarrow>
     tok_id tok = root \<or> (\<exists>p. parent_token tok = Some p \<and> derived ss root p)"

lemma doomed_derived:
  "Some tok \<in> set ss \<Longrightarrow> \<not> revoked tok \<Longrightarrow> doomed ss root tok \<Longrightarrow> derived ss root (tok_id tok)"
  by (auto simp: doomed_def intro: derived_root derived_child)

text \<open>How a slot may differ from its original during revocation, \<open>I\<close> being the ids collected.\<close>

definition slot_rel ::
  "(CapabilityToken \<Rightarrow> bool) \<Rightarrow> CapabilityTokenId set \<Rightarrow>
     CapabilityToken option \<Rightarrow> CapabilityToken option \<Rightarrow> bool" where
  "slot_rel D I a b \<longleftrightarrow>
     b = a \<or> (\<exists>tok. a = Some tok \<and> \<not> revoked tok \<and> D tok \<and> tok_id tok \<in> I \<and>
               b = Some (tok\<lparr>revoked := True\<rparr>))"

lemma slot_rel_refl [simp]: "slot_rel D I a a"
  by (simp add: slot_rel_def)

lemma slot_rel_None [simp]: "slot_rel D I a None \<longleftrightarrow> a = None"
  by (auto simp: slot_rel_def)

lemma slot_rel_mono: "slot_rel D I a b \<Longrightarrow> I \<subseteq> J \<Longrightarrow> slot_rel D J a b"
  by (auto simp: slot_rel_def)

lemma slots_rel_mono:
  "list_all2 (slot_rel D I) xs ys \<Longrightarrow> I \<subseteq> J \<Longrightarrow> list_all2 (slot_rel D J) xs ys"
  by (auto intro: list_all2_mono slot_rel_mono)

lemma slot_rel_kill [intro]:
  "\<not> revoked tok \<Longrightarrow> D tok \<Longrightarrow> tok_id tok \<in> I \<Longrightarrow> slot_rel D I (Some tok) (Some (tok\<lparr>revoked := True\<rparr>))"
  by (simp add: slot_rel_def)

lemma slot_rel_live:
  "slot_rel D I a (Some tok) \<Longrightarrow> \<not> revoked tok \<Longrightarrow> a = Some tok"
  by (auto simp: slot_rel_def)

lemma mark_primary_rel:
  assumes "mark_primary root ss ids n = (ss', ids', n')" and "set ids \<subseteq> {root}"
    and "\<And>tok. tok_id tok = root \<Longrightarrow> D tok"
  shows "list_all2 (slot_rel D (set ids')) ss ss' \<and> set ids \<subseteq> set ids' \<and> set ids' \<subseteq> {root} \<and>
    (\<forall>tok \<in> set (live_tokens ss'). tok_id tok \<noteq> root) \<and>
    (set ids' \<noteq> {} \<longrightarrow> set ids \<noteq> {} \<or> (\<exists>tok \<in> set (live_tokens ss). tok_id tok = root)) \<and>
    (root \<in> set ids' \<or> (\<forall>tok \<in> set (live_tokens ss). tok_id tok \<noteq> root)) \<and>
    length ids' + length (live_tokens ss') = length ids + length (live_tokens ss) \<and>
    n' = n - (length ids' - length ids) \<and> length ids \<le> length ids'"
  using assms
proof (induction root ss ids n arbitrary: ss' ids' n' rule: mark_primary.induct)
  case (2 root ss ids n)
  from 2(2) obtain r where r: "mark_primary root ss ids n = (r, ids', n')" and ss': "ss' = None # r"
    by (auto simp: Let_def split: prod.splits)
  show ?case using "2.IH"[OF r 2(3,4)] ss' by simp
next
  case (3 root tok ss ids n)
  show ?case
  proof (cases "tok_id tok = root \<and> \<not> revoked tok")
    case True
    from 3(3) True obtain r where r: "mark_primary root ss (ids @ [root]) (n - 1) = (r, ids', n')"
      and ss': "ss' = Some (tok\<lparr>revoked := True\<rparr>) # r"
      by (auto simp: Let_def split: prod.splits)
    have sub: "set (ids @ [root]) \<subseteq> {root}" using 3(4) by auto
    show ?thesis
      using "3.IH"(1)[OF True r sub 3(5)] True 3(5)[of tok] ss' by (auto simp: slot_rel_def)
  next
    case False
    from 3(3) False obtain r where r: "mark_primary root ss ids n = (r, ids', n')"
      and ss': "ss' = Some tok # r"
      by (auto simp: Let_def split: prod.splits)
    show ?thesis using "3.IH"(2)[OF False r 3(4,5)] False ss' by auto
  qed
qed simp

lemma cascade_pass_rel:
  assumes "cascade_pass ss ids n changed = (ss', ids', n', changed')"
    and "list_all2 (slot_rel (doomed ss0 root) (set ids)) s0 ss"
    and "set s0 \<subseteq> set ss0" and "\<forall>x \<in> set ids. derived ss0 root x"
    and "length ids + length (live_tokens ss) \<le> MAX_CAPS_PER_PROCESS"
  shows "list_all2 (slot_rel (doomed ss0 root) (set ids')) s0 ss' \<and> set ids \<subseteq> set ids' \<and>
    (\<forall>x \<in> set ids'. derived ss0 root x) \<and>
    length ids' + length (live_tokens ss') = length ids + length (live_tokens ss) \<and>
    n' = n - (length ids' - length ids) \<and> length ids \<le> length ids' \<and>
    (\<not> changed' \<longrightarrow> \<not> changed \<and> ids' = ids \<and> ss' = ss \<and>
       (\<forall>tok \<in> set (live_tokens ss). \<forall>p \<in> set ids. parent_token tok \<noteq> Some p))"
  using assms
proof (induction ss ids n changed arbitrary: s0 ss' ids' n' changed' rule: cascade_pass.induct)
  case (2 ss ids n changed)
  from 2(3) obtain s1 where s0: "s0 = None # s1"
    and s1: "list_all2 (slot_rel (doomed ss0 root) (set ids)) s1 ss"
    by (auto simp: list_all2_Cons2)
  from 2(2) obtain r where r: "cascade_pass ss ids n changed = (r, ids', n', changed')"
    and ss': "ss' = None # r"
    by (auto simp: Let_def split: prod.splits)
  have "set s1 \<subseteq> set ss0" using 2(4) s0 by simp
  then show ?case using "2.IH"[OF r s1 _ 2(5)] 2(6) s0 ss' by simp
next
  case (3 tok ss ids n changed)
  from 3(4) obtain a s1 where s0: "s0 = a # s1" and a: "slot_rel (doomed ss0 root) (set ids) a (Some tok)"
    and s1: "list_all2 (slot_rel (doomed ss0 root) (set ids)) s1 ss"
    by (auto simp: list_all2_Cons2)
  show ?case
  proof (cases "\<not> revoked tok \<and> (\<exists>p \<in> set ids. parent_token tok = Some p)")
    case True
    then have atok: "a = Some tok" using a slot_rel_live by blast
    have D: "doomed ss0 root tok" using True 3(6) by (auto simp: doomed_def)
    have der: "derived ss0 root (tok_id tok)"
      using doomed_derived D True atok s0 3(5) by auto
    have lt: "length ids < MAX_CAPS_PER_PROCESS" using 3(7) True by simp
    from 3(3) True lt obtain r where
      r: "cascade_pass ss (ids @ [tok_id tok]) (n - 1) True = (r, ids', n', changed')"
      and ss': "ss' = Some (tok\<lparr>revoked := True\<rparr>) # r"
      by (auto simp: Let_def split: prod.splits)
    have s1': "list_all2 (slot_rel (doomed ss0 root) (set (ids @ [tok_id tok]))) s1 ss"
      by (rule slots_rel_mono[OF s1]) auto
    have IH: "list_all2 (slot_rel (doomed ss0 root) (set ids')) s1 r \<and>
      set (ids @ [tok_id tok]) \<subseteq> set ids' \<and> (\<forall>x \<in> set ids'. derived ss0 root x) \<and>
      length ids' + length (live_tokens r) = length (ids @ [tok_id tok]) + length (live_tokens ss) \<and>
      n' = n - 1 - (length ids' - length (ids @ [tok_id tok])) \<and>
      length (ids @ [tok_id tok]) \<le> length ids' \<and> changed'"
      using "3.IH"(1)[OF True refl, of r ids' n' changed' s1] r lt der 3(5,6,7) s0 s1' True
      by simp
    then show ?thesis
      using ss' s0 atok True D by (simp add: slot_rel_kill)
  next
    case False
    from 3(3) False obtain r where r: "cascade_pass ss ids n changed = (r, ids', n', changed')"
      and ss': "ss' = Some tok # r"
      by (auto simp: Let_def split: prod.splits)
    have "length ids + length (live_tokens ss) \<le> MAX_CAPS_PER_PROCESS"
      using 3(7) by (simp split: if_splits)
    then show ?thesis
      using "3.IH"(2)[OF False r s1] 3(5,6) s0 ss' a False slot_rel_mono[OF a, of "set ids'"] by auto
  qed
qed auto

lemma cascade_pass_live_subset:
  "set (live_tokens (fst (cascade_pass ss ids n changed))) \<subseteq> set (live_tokens ss)"
  by (induction ss ids n changed rule: cascade_pass.induct)
    (auto simp: Let_def split: prod.splits if_splits)

lemma cascade_live_subset: "set (live_tokens (fst (cascade ss ids n))) \<subseteq> set (live_tokens ss)"
proof (induction ss ids n rule: cascade.induct)
  case (1 ss ids n)
  obtain s1 ids1 n1 c where p: "cascade_pass ss ids n False = (s1, ids1, n1, c)"
    by (cases "cascade_pass ss ids n False")
  then show ?case
    using "1.IH"[OF p [symmetric] refl refl] cascade_pass_live_subset[of ss ids n False]
    by (auto simp: cascade.simps[of ss ids n])
qed

lemma cascade_rel:
  assumes "cascade ss ids n = (ss', n')"
    and "list_all2 (slot_rel (doomed ss0 root) (set ids)) ss0 ss"
    and "\<forall>x \<in> set ids. derived ss0 root x"
    and "length ids + length (live_tokens ss) \<le> MAX_CAPS_PER_PROCESS"
  shows "\<exists>ids'. list_all2 (slot_rel (doomed ss0 root) (set ids')) ss0 ss' \<and> set ids \<subseteq> set ids' \<and>
    length ids' + length (live_tokens ss') = length ids + length (live_tokens ss) \<and>
    n' = n - (length ids' - length ids) \<and> length ids \<le> length ids' \<and>
    (\<forall>tok \<in> set (live_tokens ss'). \<forall>p \<in> set ids'. parent_token tok \<noteq> Some p)"
  using assms
proof (induction ss ids n rule: cascade.induct)
  case (1 ss ids n)
  obtain s1 ids1 n1 c where p: "cascade_pass ss ids n False = (s1, ids1, n1, c)"
    by (cases "cascade_pass ss ids n False")
  note P = cascade_pass_rel[OF p 1(3) subset_refl 1(4,5)]
  show ?case
  proof (cases c)
    case True
    then have "cascade s1 ids1 n1 = (ss', n')"
      using 1(2) p by (simp add: cascade.simps[of ss ids n])
    then obtain ids' where
      "list_all2 (slot_rel (doomed ss0 root) (set ids')) ss0 ss' \<and> set ids1 \<subseteq> set ids' \<and>
       length ids' + length (live_tokens ss') = length ids1 + length (live_tokens s1) \<and>
       n' = n1 - (length ids' - length ids1) \<and> length ids1 \<le> length ids' \<and>
       (\<forall>tok \<in> set (live_tokens ss'). \<forall>p \<in> set ids'. parent_token tok \<noteq> Some p)"
      using "1.IH"[OF p [symmetric] refl refl True] P 1(5) by fastforce
    then show ?thesis using P by (intro exI[of _ ids']) auto
  next
    case False
    then have "ss' = s1" "n' = n1"
      using 1(2) p by (simp_all add: cascade.simps[of ss ids n])
    then show ?thesis using P False by (intro exI[of _ ids1]) auto
  qed
qed

text \<open>The two phases together, in terms of the table before the call.\<close>

definition revoke_slots ::
  "CapabilityTokenId \<Rightarrow> CapabilityToken option list \<Rightarrow> CapabilityToken option list" where
  "revoke_slots root ss =
     map (map_option (\<lambda>tok. if \<not> revoked tok \<and> doomed ss root tok then tok\<lparr>revoked := True\<rparr> else tok)) ss"

lemma revoke_loop:
  assumes "length (tokens t) \<le> MAX_CAPS_PER_PROCESS"
  obtains ids where
    "list_all2 (slot_rel (doomed (tokens t) root) (set ids)) (tokens t) (tokens (revoke root t))"
    "\<forall>tok \<in> set (live_tokens (tokens (revoke root t))). \<forall>p \<in> set ids. parent_token tok \<noteq> Some p"
    "\<forall>tok \<in> set (live_tokens (tokens (revoke root t))). tok_id tok \<noteq> root"
    "root \<in> set ids \<or> (\<forall>tok \<in> set (live_tokens (tokens t)). tok_id tok \<noteq> root)"
    "length ids + length (live_tokens (tokens (revoke root t))) = length (live_tokens (tokens t))"
    "ct_count (revoke root t) = ct_count t - length ids"
proof -
  obtain ss1 ids1 n1 where m: "mark_primary root (tokens t) [] (ct_count t) = (ss1, ids1, n1)"
    by (cases "mark_primary root (tokens t) [] (ct_count t)")
  obtain ss2 n2 where c: "cascade ss1 ids1 n1 = (ss2, n2)"
    by (cases "cascade ss1 ids1 n1")
  have rv: "tokens (revoke root t) = ss2" "ct_count (revoke root t) = n2"
    using m c by (simp_all add: revoke_def)
  have M: "list_all2 (slot_rel (doomed (tokens t) root) (set ids1)) (tokens t) ss1"
      "set ids1 \<subseteq> {root}" "\<forall>tok \<in> set (live_tokens ss1). tok_id tok \<noteq> root"
      "set ids1 \<noteq> {} \<longrightarrow> (\<exists>tok \<in> set (live_tokens (tokens t)). tok_id tok = root)"
      "root \<in> set ids1 \<or> (\<forall>tok \<in> set (live_tokens (tokens t)). tok_id tok \<noteq> root)"
      "length ids1 + length (live_tokens ss1) = length (live_tokens (tokens t))"
      "n1 = ct_count t - length ids1"
    using mark_primary_rel[OF m, of "doomed (tokens t) root"] by (simp_all add: doomed_def)
  have der: "\<forall>x \<in> set ids1. derived (tokens t) root x"
  proof
    fix x
    assume "x \<in> set ids1"
    then have "x = root" and "set ids1 \<noteq> {}" using M(2) by auto
    then show "derived (tokens t) root x"
      using M(4) by (auto simp: set_live_tokens intro: derived_root)
  qed
  have "length (live_tokens (tokens t)) \<le> MAX_CAPS_PER_PROCESS"
    using assms length_occupied_le[of "tokens t"] unfolding live_tokens_def
    by (meson le_trans length_filter_le)
  then have bound: "length ids1 + length (live_tokens ss1) \<le> MAX_CAPS_PER_PROCESS"
    using M(6) by simp
  obtain ids where ids: "list_all2 (slot_rel (doomed (tokens t) root) (set ids)) (tokens t) ss2"
    "set ids1 \<subseteq> set ids"
    "length ids + length (live_tokens ss2) = length ids1 + length (live_tokens ss1)"
    "n2 = n1 - (length ids - length ids1)" "length ids1 \<le> length ids"
    "\<forall>tok \<in> set (live_tokens ss2). \<forall>p \<in> set ids. parent_token tok \<noteq> Some p"
    using cascade_rel[OF c M(1) der bound] by blast
  show thesis
  proof (rule that[of ids])
    show "\<forall>tok \<in> set (live_tokens (tokens (revoke root t))). tok_id tok \<noteq> root"
      using cascade_live_subset[of ss1 ids1 n1] c rv M(3) by auto
  qed (use rv ids M in auto)
qed

theorem revoke_tokens:
  assumes "length (tokens t) \<le> MAX_CAPS_PER_PROCESS"
  shows "tokens (revoke root t) = revoke_slots root (tokens t)"
proof -
  let ?ss = "tokens t" and ?ss' = "tokens (revoke root t)"
  obtain ids where ids: "list_all2 (slot_rel (doomed ?ss root) (set ids)) ?ss ?ss'"
    and no_par: "\<forall>tok \<in> set (live_tokens ?ss'). \<forall>p \<in> set ids. parent_token tok \<noteq> Some p"
    and no_root: "\<forall>tok \<in> set (live_tokens ?ss'). tok_id tok \<noteq> root"
    and root: "root \<in> set ids \<or> (\<forall>tok \<in> set (live_tokens ?ss). tok_id tok \<noteq> root)"
    by (rule revoke_loop[OF assms])
  have in_ids: "x \<in> set ids" if "derived ?ss root x" for x
    using that
  proof (induction rule: derived.induct)
    case (derived_root tok)
    then show ?case using root by (auto simp: set_live_tokens)
  next
    case (derived_child p tok)
    then obtain i where i: "i < length ?ss" "?ss ! i = Some tok" by (auto simp: in_set_conv_nth)
    then have "slot_rel (doomed ?ss root) (set ids) (Some tok) (?ss' ! i)" and "?ss' ! i \<in> set ?ss'"
      using list_all2_nthD[OF ids i(1)] list_all2_lengthD[OF ids] by auto
    moreover have "?ss' ! i \<noteq> Some tok"
      using no_par derived_child \<open>?ss' ! i \<in> set ?ss'\<close> by (auto simp: set_live_tokens)
    ultimately show ?case by (auto simp: slot_rel_def)
  qed
  have "b = map_option (\<lambda>tok. if \<not> revoked tok \<and> doomed ?ss root tok then tok\<lparr>revoked := True\<rparr> else tok) a"
    if "slot_rel (doomed ?ss root) (set ids) a b" and "b \<in> set ?ss'" for a b
  proof (cases a)
    case (Some tok)
    have "b \<noteq> Some tok" if "\<not> revoked tok" "doomed ?ss root tok"
      using no_root no_par in_ids that \<open>b \<in> set ?ss'\<close> by (auto simp: set_live_tokens doomed_def)
    then show ?thesis using that(1) Some by (auto simp: slot_rel_def)
  qed (use that in \<open>auto simp: slot_rel_def\<close>)
  then show ?thesis
    using list_all2_lengthD[OF ids] list_all2_nthD[OF ids]
    by (auto simp: revoke_slots_def intro!: nth_equalityI)
qed

section \<open>The table invariant\<close>

text \<open>
  A token's parent, where it has one, is in the same table, has a smaller id, may be narrowed
  to the token's capability, and is revoked only if the token is. \<open>cap_inv n\<close> adds what the
  table keeps: its size, the count of live tokens, unique ids, all below \<open>n\<close>.
\<close>

definition parent_ok :: "CapabilityToken option list \<Rightarrow> CapabilityToken \<Rightarrow> bool" where
  "parent_ok ss tok \<longleftrightarrow>
     (\<forall>p. parent_token tok = Some p \<longrightarrow>
        (\<exists>par. Some par \<in> set ss \<and> tok_id par = p \<and> unat p < unat (tok_id tok) \<and>
               can_attenuate_to (capability par) (capability tok) \<and> (revoked par \<longrightarrow> revoked tok)))"

definition cap_inv :: "nat \<Rightarrow> CapabilityTable \<Rightarrow> bool" where
  "cap_inv n t \<longleftrightarrow>
     length (tokens t) = MAX_CAPS_PER_PROCESS \<and>
     ct_count t = length (live_tokens (tokens t)) \<and>
     distinct (map tok_id (occupied (tokens t))) \<and>
     (\<forall>tok. Some tok \<in> set (tokens t) \<longrightarrow> unat (tok_id tok) < n \<and> parent_ok (tokens t) tok)"

lemma cap_inv_mono: "cap_inv n t \<Longrightarrow> n \<le> m \<Longrightarrow> cap_inv m t"
  by (force simp: cap_inv_def)

lemma cap_inv_length: "cap_inv n t \<Longrightarrow> length (tokens t) = MAX_CAPS_PER_PROCESS"
  by (simp add: cap_inv_def)

lemma cap_inv_new: "cap_inv n cap_table_new"
  by (auto simp: cap_inv_def cap_table_new_def live_tokens_def)

lemma cap_inv_parent: "cap_inv n t \<Longrightarrow> Some tok \<in> set (tokens t) \<Longrightarrow> parent_ok (tokens t) tok"
  by (simp add: cap_inv_def)

lemma live_tokens_update_free:
  assumes "i < length ss" "ss ! i = None" "\<not> revoked tok"
  shows "length (live_tokens (ss[i := Some tok])) = Suc (length (live_tokens ss))"
  using occupied_update_free[OF assms(1,2), of tok] assms(3) by (auto simp: live_tokens_def)

lemma distinct_update_free:
  assumes "i < length ss" "ss ! i = None" "distinct (map f (occupied ss))"
    and "\<forall>x. Some x \<in> set ss \<longrightarrow> f x \<noteq> f tok"
  shows "distinct (map f (occupied (ss[i := Some tok])))"
proof -
  obtain as bs where "occupied ss = as @ bs" "occupied (ss[i := Some tok]) = as @ tok # bs"
    using occupied_update_free[OF assms(1,2)] by blast
  moreover have "\<forall>x \<in> set (occupied ss). f x \<noteq> f tok"
    using assms(4) by (simp add: slot_simps)
  ultimately show ?thesis using assms(3) by (auto simp: image_iff)
qed

lemma parent_ok_mono:
  "parent_ok ss tok \<Longrightarrow> (\<And>x. Some x \<in> set ss \<Longrightarrow> Some x \<in> set ss') \<Longrightarrow> parent_ok ss' tok"
  unfolding parent_ok_def by blast

lemma cap_inv_grant [inv_intros]:
  assumes inv: "cap_inv n t" and tok: "n \<le> unat (tok_id tok)" "\<not> revoked tok"
    and par: "parent_ok (tokens t) tok"
  shows "cap_inv (Suc (unat (tok_id tok))) (snd (grant tok t))"
proof (cases "first_free (tokens t)")
  case None
  then show ?thesis using cap_inv_mono[OF inv, of "Suc (unat (tok_id tok))"] tok by (simp add: grant_def)
next
  case (Some i)
  note free = first_free_length[OF Some] first_free_empty[OF Some]
  have fresh: "\<forall>x. Some x \<in> set (tokens t) \<longrightarrow> tok_id x \<noteq> tok_id tok"
    using inv tok(1) by (force simp: cap_inv_def)
  have "parent_ok ((tokens t)[i := Some tok]) x"
    if "x = tok \<or> Some x \<in> set (tokens t)" for x
    using that par cap_inv_parent[OF inv, of x] Some_in_update_free[OF free]
    by (auto elim!: parent_ok_mono)
  moreover have "unat (tok_id x) < Suc (unat (tok_id tok))"
    if "x = tok \<or> Some x \<in> set (tokens t)" for x
    using that inv tok(1) by (force simp: cap_inv_def)
  ultimately show ?thesis
    using inv Some live_tokens_update_free[OF free tok(2)] distinct_update_free[OF free _ fresh]
      Some_in_update_free[OF free]
    by (simp add: cap_inv_def grant_def)
qed

lemma cap_get_SomeD:
  assumes "cap_get h t = Some tok" "length (tokens t) = MAX_CAPS_PER_PROCESS"
  shows "Some tok \<in> set (tokens t) \<and> \<not> revoked tok \<and> unat h < MAX_CAPS_PER_PROCESS"
  using assms by (auto simp: cap_get_def Let_def split: if_splits option.splits)
    (metis linorder_not_le nth_mem)

lemma cap_inv_attenuate [inv_intros]:
  assumes inv: "cap_inv n t" and id: "n \<le> unat new_id"
  shows "cap_inv (Suc (unat new_id)) (snd (attenuate h cap ex pid new_id t))"
proof -
  have keep: "cap_inv (Suc (unat new_id)) t" using cap_inv_mono[OF inv] id by simp
  show ?thesis
  proof (cases "cap_get h t")
    case None
    then show ?thesis using keep by (simp add: attenuate_def)
  next
    case (Some par)
    then have p: "Some par \<in> set (tokens t)" "\<not> revoked par"
      using cap_get_SomeD cap_inv_length[OF inv] by blast+
    then have lt: "unat (tok_id par) < unat new_id" using inv id by (force simp: cap_inv_def)
    show ?thesis
    proof (cases "can_attenuate_to (capability par) cap")
      case True
      let ?tok = "\<lparr>tok_id = new_id, capability = cap, holder = pid, delegatable = False,
        revoked = False, parent_token = Some (tok_id par), usage_count = 0,
        created_at_tick = created_at_tick par, expires_at_tick = ex\<rparr>"
      have "cap_inv (Suc (unat (tok_id ?tok))) (snd (grant ?tok t))"
        by (rule cap_inv_grant[OF inv]) (use True p lt id in \<open>auto simp: parent_ok_def\<close>)
      then show ?thesis using Some True by (simp add: attenuate_def)
    qed (use Some keep in \<open>simp add: attenuate_def\<close>)
  qed
qed

lemma revoke_slots_member:
  "Some tok' \<in> set (revoke_slots root ss) \<longleftrightarrow>
     (\<exists>tok. Some tok \<in> set ss \<and>
        tok' = (if \<not> revoked tok \<and> doomed ss root tok then tok\<lparr>revoked := True\<rparr> else tok))"
  unfolding revoke_slots_def by (rule Some_in_map_option)

lemma tok_ids_revoke_slots:
  "map tok_id (occupied (revoke_slots root ss)) = map tok_id (occupied ss)"
  by (simp add: revoke_slots_def occupied_map_map_option)

lemma length_revoke: "length (tokens t) \<le> MAX_CAPS_PER_PROCESS \<Longrightarrow>
    length (tokens (revoke root t)) = length (tokens t)"
  by (simp add: revoke_tokens revoke_slots_def)

lemma parent_ok_revoke:
  assumes "parent_ok ss tok" "Some tok \<in> set ss"
  shows "parent_ok (revoke_slots root ss)
           (if \<not> revoked tok \<and> doomed ss root tok then tok\<lparr>revoked := True\<rparr> else tok)"
  unfolding parent_ok_def
proof (intro allI impI)
  fix p
  let ?f = "\<lambda>tok. if \<not> revoked tok \<and> doomed ss root tok then tok\<lparr>revoked := True\<rparr> else tok"
  assume "parent_token (?f tok) = Some p"
  then have tp: "parent_token tok = Some p" by (simp split: if_splits)
  then obtain par where par: "Some par \<in> set ss" "tok_id par = p" "unat p < unat (tok_id tok)"
    "can_attenuate_to (capability par) (capability tok)" "revoked par \<longrightarrow> revoked tok"
    using assms(1) by (auto simp: parent_ok_def)
  have "doomed ss root tok" if "\<not> revoked par" "doomed ss root par"
    using doomed_derived[OF par(1) that] tp par(2) by (auto simp: doomed_def)
  then have "revoked (?f par) \<longrightarrow> revoked (?f tok)" using par(5) by auto
  moreover have "Some (?f par) \<in> set (revoke_slots root ss)"
    using par(1) revoke_slots_member by blast
  ultimately show "\<exists>par. Some par \<in> set (revoke_slots root ss) \<and> tok_id par = p \<and>
      unat p < unat (tok_id (?f tok)) \<and>
      can_attenuate_to (capability par) (capability (?f tok)) \<and> (revoked par \<longrightarrow> revoked (?f tok))"
    using par by (intro exI[of _ "?f par"]) auto
qed

lemma cap_inv_revoke [inv_intros]:
  assumes inv: "cap_inv n t"
  shows "cap_inv n (revoke root t)"
proof -
  have len: "length (tokens t) \<le> MAX_CAPS_PER_PROCESS" using cap_inv_length[OF inv] by simp
  have "ct_count (revoke root t) = length (live_tokens (tokens (revoke root t)))"
    by (rule revoke_loop[OF len, of root]) (use inv in \<open>auto simp: cap_inv_def\<close>)
  moreover have "unat (tok_id x) < n \<and> parent_ok (tokens (revoke root t)) x"
    if "Some x \<in> set (tokens (revoke root t))" for x
  proof -
    from that obtain tok where tok: "Some tok \<in> set (tokens t)"
      and x: "x = (if \<not> revoked tok \<and> doomed (tokens t) root tok then tok\<lparr>revoked := True\<rparr> else tok)"
      by (auto simp only: revoke_tokens[OF len] revoke_slots_member)
    have "tok_id x = tok_id tok" by (simp add: x)
    then show ?thesis
      using parent_ok_revoke[OF cap_inv_parent[OF inv tok] tok, of root] inv tok
      by (simp add: x [symmetric] revoke_tokens[OF len] cap_inv_def)
  qed
  ultimately show ?thesis
    using inv len length_revoke[OF len]
    by (simp add: cap_inv_def revoke_tokens tok_ids_revoke_slots)
qed

section \<open>Reachable tables\<close>

text \<open>
  The life of a process's table, with \<open>n\<close> the value of the system-wide id counter
  \<open>NEXT_TOKEN_ID\<close> (which starts at 1 and has not wrapped): grants of fresh parentless
  tokens, attenuations, revocations, and id allocations for other tables.
\<close>

inductive cap_reach :: "nat \<Rightarrow> CapabilityTable \<Rightarrow> bool" where
  reach_new: "cap_reach 1 cap_table_new"
| reach_grant: "cap_reach n t \<Longrightarrow> n < 2 ^ 64 \<Longrightarrow> tok_id tok = word_of_nat n \<Longrightarrow>
     parent_token tok = None \<Longrightarrow> \<not> revoked tok \<Longrightarrow> cap_reach (Suc n) (snd (grant tok t))"
| reach_attenuate: "cap_reach n t \<Longrightarrow> n < 2 ^ 64 \<Longrightarrow>
     cap_reach (Suc n) (snd (attenuate h cap ex pid (word_of_nat n) t))"
| reach_revoke: "cap_reach n t \<Longrightarrow> cap_reach n (revoke root t)"
| reach_other: "cap_reach n t \<Longrightarrow> n < 2 ^ 64 \<Longrightarrow> cap_reach (Suc n) t"

lemma unat_word_of_nat_u64: "n < 2 ^ 64 \<Longrightarrow> unat (word_of_nat n :: u64) = n"
  by (simp add: unat_of_nat)

lemma cap_reach_inv: "cap_reach n t \<Longrightarrow> cap_inv n t"
proof (induction rule: cap_reach.induct)
  case (reach_grant n t tok)
  then have "unat (tok_id tok) = n" by (simp add: unat_word_of_nat_u64)
  then show ?case
    using cap_inv_grant[of n t tok] reach_grant by (simp add: parent_ok_def)
next
  case (reach_attenuate n t h cap ex pid)
  then show ?case
    using cap_inv_attenuate[of n t "word_of_nat n" h cap ex pid] by (simp add: unat_word_of_nat_u64)
qed (auto intro: cap_inv_new cap_inv_revoke cap_inv_mono)


lemma find_authorizing_SomeD:
  "find_authorizing toks cap now = Some x \<Longrightarrow>
     \<exists>tok \<in> set toks. tok_id tok = x \<and> \<not> revoked tok \<and> \<not> expired now tok \<and> capability tok = cap"
  by (induction toks cap now rule: find_authorizing.induct)
    (auto simp: permits_iff_eq split: if_splits)

lemma find_authorizing_None_iff:
  "find_authorizing toks cap now = None \<longleftrightarrow>
     (\<forall>tok \<in> set toks. revoked tok \<or> expired now tok \<or> capability tok \<noteq> cap)"
  by (induction toks cap now rule: find_authorizing.induct) (auto simp: permits_iff_eq)

lemma has_capability_iff:
  "has_capability t cap now \<longleftrightarrow>
     (\<exists>tok. Some tok \<in> set (tokens t) \<and> \<not> revoked tok \<and> \<not> expired now tok \<and> capability tok = cap)"
  by (auto simp: has_capability_def find_authorizing_token_def find_authorizing_None_iff slot_simps)

lemma find_authorizing_token_SomeD:
  "find_authorizing_token t cap now = Some x \<Longrightarrow>
     \<exists>tok. Some tok \<in> set (tokens t) \<and> tok_id tok = x \<and> \<not> revoked tok \<and> \<not> expired now tok \<and>
           capability tok = cap"
  using find_authorizing_SomeD[of "occupied (tokens t)" cap now x]
  by (auto simp: find_authorizing_token_def slot_simps)

text \<open>\<open>list\<close> writes a prefix of the live ids and leaves the rest of the buffer alone.\<close>

lemma cap_list_loop_spec:
  assumes "written \<le> length out"
  shows "cap_list_loop ss out mx written =
    (let ids = take (min mx (length out) - written) (map tok_id (live_tokens ss))
     in (written + length ids, take written out @ ids @ drop (written + length ids) out))"
  using assms
proof (induction ss out mx written rule: cap_list_loop.induct)
  case (2 slot ss out mx written)
  show ?case
  proof (cases "written \<ge> mx \<or> written \<ge> length out")
    case False
    then obtain k where k: "min mx (length out) - written = Suc k"
      "min mx (length out) - Suc written = k"
      by (metis Suc_diff_Suc linorder_not_le min_less_iff_conj)
    show ?thesis
    proof (cases "\<exists>tok. slot = Some tok \<and> \<not> revoked tok")
      case True
      then obtain tok where slot: "slot = Some tok" "\<not> revoked tok" by blast
      have "take (Suc written) (out[written := tok_id tok]) = take written out @ [tok_id tok]"
        using False by (simp add: take_Suc_conv_app_nth)
      then show ?thesis
        using "2.IH"(2)[OF False slot] slot False k by (simp add: Let_def)
    next
      case nolive: False
      then show ?thesis
        using False "2.IH"(1,3) "2.prems"
        by (cases slot) (auto simp: Let_def)
    qed
  qed (use 2 in \<open>auto simp: Let_def min_def\<close>)
qed (simp add: Let_def)

section \<open>Properties\<close>

lemma live_derived_revoked:
  assumes inv: "cap_inv n t"
  shows "Some tok \<in> set (tokens (revoke root t)) \<and> \<not> revoked tok \<longleftrightarrow>
    Some tok \<in> set (tokens t) \<and> \<not> revoked tok \<and> \<not> derived (tokens t) root (tok_id tok)"
proof -
  have toks: "tokens (revoke root t) = revoke_slots root (tokens t)"
    using inv by (intro revoke_tokens) (simp add: cap_inv_def)
  have same: "tok1 = tok2" if "Some tok1 \<in> set (tokens t)" "Some tok2 \<in> set (tokens t)" "tok_id tok1 = tok_id tok2" for tok1 tok2
  proof -
    have "distinct (map tok_id (occupied (tokens t)))" using inv by (simp add: cap_inv_def)
    then show ?thesis using that by (auto simp: distinct_map set_occupied dest: inj_onD)
  qed
  have "doomed (tokens t) root tk \<longleftrightarrow> derived (tokens t) root (tok_id tk)"
    if tk: "Some tk \<in> set (tokens t)" "\<not> revoked tk" for tk
  proof
    assume "derived (tokens t) root (tok_id tk)"
    then show "doomed (tokens t) root tk"
    proof cases
      case (derived_child p tok')
      then show ?thesis using same[OF tk(1)] by (auto simp: doomed_def)
    qed (simp add: doomed_def)
  qed (use tk in \<open>rule doomed_derived\<close>)
  moreover have "tok\<lparr>revoked := True\<rparr> = tok \<longleftrightarrow> revoked tok" by (cases tok) auto
  ultimately show ?thesis
    unfolding toks revoke_slots_member by (auto split: if_splits)
qed

text \<open>
  C3. Revocation is exact. In every table reachable by grants, attenuations and revocations, the
  fixed-point loop of \<open>revoke\<close> leaves a token usable exactly when it was usable before and is not
  derived from the revoked token: authority drawn from the revoked token or any descendant is
  gone, all other authority stays, and the table's count is the number of live tokens.
\<close>

theorem revoke_exact:
  assumes "cap_reach n t"
  shows "(has_capability (revoke root t) cap now \<longleftrightarrow>
      (\<exists>tok. Some tok \<in> set (tokens t) \<and> \<not> revoked tok \<and> \<not> expired now tok \<and> capability tok = cap \<and>
             \<not> derived (tokens t) root (tok_id tok))) \<and>
    ct_count (revoke root t) = length (live_tokens (tokens (revoke root t)))"
proof -
  note inv = cap_reach_inv[OF assms]
  have "has_capability (revoke root t) cap now \<longleftrightarrow>
      (\<exists>tok. (Some tok \<in> set (tokens (revoke root t)) \<and> \<not> revoked tok) \<and> \<not> expired now tok \<and> capability tok = cap)"
    by (auto simp: has_capability_iff)
  then show ?thesis
    unfolding live_derived_revoked[OF inv] using cap_inv_revoke[OF inv, of root] by (auto simp: cap_inv_def)
qed


text \<open>
  A successful grant is usable at once and touches nothing else: the returned handle names the
  token, every other handle names what it named before, and it fails (ENOSPC, table unchanged)
  only when no slot is empty.
\<close>

theorem grant_then_get:
  assumes "cap_reach n t" "\<not> revoked tok"
  shows "case grant tok t of
      (Ok h, t') \<Rightarrow> cap_get h t' = Some tok \<and> cap_get h t = None \<and> (\<forall>h'. h' \<noteq> h \<longrightarrow> cap_get h' t' = cap_get h' t)
    | (Err e, t') \<Rightarrow> e = errno Enospc \<and> t' = t \<and> None \<notin> set (tokens t)"
proof (cases "first_free (tokens t)")
  case None
  have "None \<notin> set (tokens t)" using None by (simp add: first_free_None_iff[symmetric])
  then show ?thesis using None by (simp add: grant_def)
next
  case (Some i)
  have len: "length (tokens t) = MAX_CAPS_PER_PROCESS" using cap_reach_inv[OF assms(1)] by (rule cap_inv_length)
  have i: "i < 256" "tokens t ! i = None" using first_free_SomeD[OF Some] len by (auto simp: MAX_CAPS_PER_PROCESS_def)
  then have "unat (word_of_nat i :: u32) = i" by (simp add: unat_of_nat)
  then show ?thesis
    using Some i len assms(2) by (auto simp: grant_def cap_get_def MAX_CAPS_PER_PROCESS_def Let_def nth_list_update)
qed

text \<open>
  C28. \<open>list\<close> writes the ids of the live tokens in slot order, as many as fit both the requested
  maximum and the buffer, returns how many it wrote and leaves the rest of the buffer alone.
\<close>

theorem cap_list_exact:
  "cap_list t out mx =
     (let ids = take (min mx (length out)) (map tok_id (live_tokens (tokens t)))
      in (length ids, ids @ drop (length ids) out))"
  by (simp add: cap_list_def cap_list_loop_spec Let_def)

subsection \<open>A concrete table\<close>

definition demo_token :: CapabilityToken where
  "demo_token = \<lparr>tok_id = 1, capability = ChannelCreate, holder = 1, delegatable = True, revoked = False,
     parent_token = None, usage_count = 0, created_at_tick = 0, expires_at_tick = None\<rparr>"

definition demo_table :: CapabilityTable where
  "demo_table = snd (attenuate 0 (ChannelAccess 5) None 1 2 (snd (grant demo_token cap_table_new)))"

lemma demo_table_reach: "cap_reach 3 demo_table"
proof -
  have "cap_reach (Suc 1) (snd (grant demo_token cap_table_new))"
    by (rule reach_grant[OF reach_new]) (simp_all add: demo_token_def)
  from reach_attenuate[OF this, of 0 "ChannelAccess 5" None 1] show ?thesis
    by (simp add: demo_table_def numeral_3_eq_3)
qed

lemma demo_table_has: "has_capability demo_table (ChannelAccess 5) 0"
  by code_simp

theorem revoke_exact_witness:
  "has_capability demo_table (ChannelAccess 5) 0 \<and> \<not> has_capability (revoke 1 demo_table) (ChannelAccess 5) 0"
proof -
  have rev: "\<not> has_capability (revoke 1 demo_table) (ChannelAccess 5) 0" by code_simp
  then have "\<not> (\<exists>tok. Some tok \<in> set (tokens demo_table) \<and> \<not> revoked tok \<and> \<not> expired 0 tok \<and>
      capability tok = ChannelAccess 5 \<and> \<not> derived (tokens demo_table) 1 (tok_id tok))"
    using revoke_exact[OF demo_table_reach, of 1 "ChannelAccess 5" 0] by blast
  then show ?thesis using demo_table_has rev by blast
qed


theorem grant_then_get_witness:
  "\<exists>h t'. grant demo_token demo_table = (Ok h, t') \<and> cap_get h t' = Some demo_token"
proof -
  have "fst (grant demo_token demo_table) = Ok 2" by code_simp
  then show ?thesis
    using grant_then_get[OF demo_table_reach, of demo_token]
    by (cases "grant demo_token demo_table") (auto simp: demo_token_def)
qed

end
