(* ===== verification/Buddy.thy ===== *)
theory Buddy
  imports Aios_Prelude "HOL-Library.Multiset"
begin

unbundle bit_operations_syntax

text \<open>
  The buddy allocator, \<open>kernel/src/mm/buddy.rs\<close>, with \<open>buddy_of\<close> and \<open>order_for_pages\<close> of
  \<open>shared/src/memory.rs\<close>. Addresses, sizes and counts are naturals. The free lists are
  intrusive: the first word of a free block holds the address of the next one, so the
  allocator's state has the 64-bit words of the managed range (\<open>mem\<close>, by address of the word).
  The bitmap occupies the first pages of the range, which no free block covers; its bytes are
  the separate field \<open>bm\<close>. A failed \<open>assert!\<close> is the result \<open>None\<close>.
\<close>

section \<open>State\<close>

definition PAGE_SIZE :: nat where "PAGE_SIZE = 4096"
definition MAX_ORDER :: nat where "MAX_ORDER = 10"
definition POISON_PATTERN :: nat where "POISON_PATTERN = 0xDEADDEAD"

text \<open>A 64-bit word filled with the 32-bit pattern.\<close>

definition poison_word :: nat where "poison_word = POISON_PATTERN * 2 ^ 32 + POISON_PATTERN"

record BuddyAllocator =
  bd_base :: nat
  bd_end :: nat
  bitmap_pages :: nat
  free_heads :: "nat list"
  free_count :: "nat list"
  total_free :: nat
  initialized :: bool
  mem :: "nat \<Rightarrow> nat"
  bm :: "nat \<Rightarrow> u8"

text \<open>A new allocator over RAM with the given contents.\<close>

definition buddy_new :: "(nat \<Rightarrow> nat) \<Rightarrow> (nat \<Rightarrow> u8) \<Rightarrow> BuddyAllocator" where
  "buddy_new ram bmp =
     \<lparr>bd_base = 0, bd_end = 0, bitmap_pages = 0, free_heads = replicate (MAX_ORDER + 1) 0,
      free_count = replicate (MAX_ORDER + 1) 0, total_free = 0, initialized = False, mem = ram, bm = bmp\<rparr>"

definition buddy_of :: "nat \<Rightarrow> nat \<Rightarrow> nat \<Rightarrow> nat" where
  "buddy_of addr bse order = bse + ((addr - bse) XOR (2 ^ (order + 12)))"

fun order_loop :: "nat \<Rightarrow> nat \<Rightarrow> nat \<Rightarrow> nat" where
  "order_loop 0 pages order = order"
| "order_loop (Suc fuel) pages order =
     (if 2 ^ order < pages then order_loop fuel pages (order + 1) else order)"

text \<open>The loop ends after at most \<open>pages\<close> rounds, as \<open>pages < 2 ^ pages\<close>.\<close>

definition order_for_pages :: "nat \<Rightarrow> nat" where
  "order_for_pages pages = (if pages \<le> 1 then 0 else order_loop pages pages 0)"

definition div_ceil :: "nat \<Rightarrow> nat \<Rightarrow> nat" where
  "div_ceil a b = (a + b - 1) div b"

section \<open>Bitmap\<close>

definition bitmap_index :: "BuddyAllocator \<Rightarrow> nat \<Rightarrow> nat \<Rightarrow> nat \<times> nat" where
  "bitmap_index b addr order =
     (let pfn = (addr - bd_base b) div PAGE_SIZE;
          pair_index = pfn div 2 ^ (order + 1);
          total_pages = (bd_end b - bd_base b) div PAGE_SIZE;
          offset = sum_list (map (\<lambda>k. div_ceil total_pages (2 ^ (k + 1))) [0..<order]);
          bit_pos = offset + pair_index
      in (bit_pos div 8, bit_pos mod 8))"

definition bitmap_toggle :: "nat \<Rightarrow> nat \<Rightarrow> BuddyAllocator \<Rightarrow> bool \<times> BuddyAllocator" where
  "bitmap_toggle addr order b =
     (case bitmap_index b addr order of
        (byte_idx, bt) \<Rightarrow>
          let new_val = bm b byte_idx XOR push_bit bt 1
          in (bit new_val bt, b\<lparr>bm := (bm b)(byte_idx := new_val)\<rparr>))"

abbreviation toggle :: "nat \<Rightarrow> nat \<Rightarrow> BuddyAllocator \<Rightarrow> BuddyAllocator" where
  "toggle addr order b \<equiv> snd (bitmap_toggle addr order b)"

section \<open>Free lists\<close>

definition push_block :: "nat \<Rightarrow> nat \<Rightarrow> BuddyAllocator \<Rightarrow> BuddyAllocator" where
  "push_block addr order b =
     b\<lparr>mem := (mem b)(addr := free_heads b ! order),
       free_heads := (free_heads b)[order := addr],
       free_count := (free_count b)[order := free_count b ! order + 1],
       total_free := total_free b + 2 ^ order\<rparr>"

definition pop_block :: "nat \<Rightarrow> BuddyAllocator \<Rightarrow> nat option \<times> BuddyAllocator" where
  "pop_block order b =
     (let head = free_heads b ! order in
      if head = 0 then (None, b)
      else (Some head, b\<lparr>free_heads := (free_heads b)[order := mem b head],
                         free_count := (free_count b)[order := free_count b ! order - 1]\<rparr>))"

text \<open>The list walk; on a cyclic list it would not return (\<open>None\<close>).\<close>

partial_function (option) remove_walk :: "nat \<Rightarrow> nat \<Rightarrow> nat \<Rightarrow> BuddyAllocator \<Rightarrow> (bool \<times> BuddyAllocator) option" where
  "remove_walk target order prev b =
     (if prev = 0 then Some (False, b)
      else if mem b prev = target then
        Some (True, b\<lparr>mem := (mem b)(prev := mem b target),
                      free_count := (free_count b)[order := free_count b ! order - 1]\<rparr>)
      else remove_walk target order (mem b prev) b)"

declare remove_walk.simps [code]

definition remove_from_free_list :: "nat \<Rightarrow> nat \<Rightarrow> BuddyAllocator \<Rightarrow> (bool \<times> BuddyAllocator) option" where
  "remove_from_free_list target order b =
     (if free_heads b ! order = target then Some (True, snd (pop_block order b))
      else remove_walk target order (free_heads b ! order) b)"

section \<open>Allocation\<close>

text \<open>The halves put back when a block of order \<open>higher\<close> is split down to \<open>order\<close>.\<close>

definition split_step :: "nat \<Rightarrow> nat \<Rightarrow> BuddyAllocator \<Rightarrow> BuddyAllocator" where
  "split_step addr so b =
     (let buddy_addr = addr + PAGE_SIZE * 2 ^ so;
          b1 = push_block buddy_addr so b
      in if initialized b1 then toggle buddy_addr so b1 else b1)"

definition sub_free :: "nat \<Rightarrow> BuddyAllocator \<Rightarrow> BuddyAllocator" where
  "sub_free n b = b\<lparr>total_free := total_free b - n\<rparr>"

fun alloc_higher :: "nat \<Rightarrow> nat list \<Rightarrow> BuddyAllocator \<Rightarrow> nat option \<times> BuddyAllocator" where
  "alloc_higher order [] b = (None, b)"
| "alloc_higher order (higher # hs) b =
     (case pop_block higher b of
        (Some addr, b1) \<Rightarrow>
          let b2 = (if initialized b1 then toggle addr higher b1 else b1);
              b3 = fold (split_step addr) (rev [order..<higher]) b2
          in (Some addr, sub_free (2 ^ higher) b3)
      | (None, _) \<Rightarrow> alloc_higher order hs b)"

definition alloc_pages :: "nat \<Rightarrow> BuddyAllocator \<Rightarrow> nat option \<times> BuddyAllocator" where
  "alloc_pages order b =
     (if order > MAX_ORDER then (None, b)
      else case pop_block order b of
        (Some addr, b1) \<Rightarrow>
          let b2 = sub_free (2 ^ order) b1
          in (Some addr, if initialized b2 then toggle addr order b2 else b2)
      | (None, _) \<Rightarrow> alloc_higher order [order + 1..<MAX_ORDER + 1] b)"

section \<open>Freeing\<close>

definition poison_fill :: "nat \<Rightarrow> nat \<Rightarrow> BuddyAllocator \<Rightarrow> BuddyAllocator" where
  "poison_fill addr order b =
     b\<lparr>mem := (\<lambda>a. if addr \<le> a \<and> a < addr + PAGE_SIZE * 2 ^ order then poison_word else mem b a)\<rparr>"

text \<open>The coalescing loop: the block it ends with, or \<open>None\<close> if a list walk does not return.\<close>

function coalesce :: "nat \<Rightarrow> nat \<Rightarrow> BuddyAllocator \<Rightarrow> (nat \<times> nat \<times> BuddyAllocator) option" where
  "coalesce addr order b =
     (if order < MAX_ORDER then
        (case bitmap_toggle addr order b of
           (True, b1) \<Rightarrow> Some (addr, order, b1)
         | (False, b1) \<Rightarrow>
             let buddy_addr = buddy_of addr (bd_base b1) order in
             if buddy_addr < bd_base b1 \<or> buddy_addr + PAGE_SIZE * 2 ^ order > bd_end b1
             then Some (addr, order, toggle addr order b1)
             else (case remove_from_free_list buddy_addr order b1 of
               None \<Rightarrow> None
             | Some (False, b2) \<Rightarrow> Some (addr, order, toggle addr order b2)
             | Some (True, b2) \<Rightarrow>
                 coalesce (min addr buddy_addr) (order + 1) (sub_free (2 ^ order) b2)))
      else Some (addr, order, b))"
  by pat_completeness auto

termination coalesce
  by (relation "measure (\<lambda>(addr, order, b). MAX_ORDER - order)") auto

declare coalesce.simps [simp del]

definition free_pages :: "nat \<Rightarrow> nat \<Rightarrow> BuddyAllocator \<Rightarrow> BuddyAllocator option" where
  "free_pages phys_addr order b =
     (if \<not> initialized b then Some (push_block phys_addr order b)
      else if mem b phys_addr mod 2 ^ 32 = POISON_PATTERN then None
      else case coalesce phys_addr order (poison_fill phys_addr order b) of
        None \<Rightarrow> None
      | Some (addr, current_order, b1) \<Rightarrow>
          Some (push_block addr current_order
                 (if current_order = MAX_ORDER then toggle addr current_order b1 else b1)))"

section \<open>Initialisation\<close>

fun fit_order :: "nat \<Rightarrow> nat \<Rightarrow> nat \<Rightarrow> nat" where
  "fit_order addr en 0 = 0"
| "fit_order addr en (Suc order) =
     (let block_size = PAGE_SIZE * 2 ^ Suc order in
      if addr mod block_size = 0 \<and> addr + block_size \<le> en then Suc order else fit_order addr en order)"

function add_aligned_blocks :: "nat \<Rightarrow> nat \<Rightarrow> BuddyAllocator \<Rightarrow> BuddyAllocator" where
  "add_aligned_blocks addr en b =
     (if addr < en then
        let order = fit_order addr en MAX_ORDER;
            block_size = PAGE_SIZE * 2 ^ order
        in if addr + block_size > en then b
           else add_aligned_blocks (addr + block_size) en (push_block addr order b)
      else b)"
  by pat_completeness auto

termination add_aligned_blocks
  by (relation "measure (\<lambda>(addr, en, b). en - addr)") (auto simp: PAGE_SIZE_def intro!: diff_less_mono2)

declare add_aligned_blocks.simps [simp del]

fun add_skipping :: "nat \<Rightarrow> nat \<Rightarrow> (nat \<times> nat) list \<Rightarrow> BuddyAllocator \<Rightarrow> BuddyAllocator" where
  "add_skipping cursor en [] b = (if cursor < en then add_aligned_blocks cursor en b else b)"
| "add_skipping cursor en ((es, ee) # xs) b =
     (if es = ee then add_skipping cursor en xs b
      else
        let b1 = (if cursor < es \<and> cursor < en then add_aligned_blocks cursor (min es en) b else b)
        in add_skipping (max cursor ee) en xs b1)"

definition add_region_excluding3 ::
  "nat \<Rightarrow> nat \<Rightarrow> nat \<times> nat \<Rightarrow> nat \<times> nat \<Rightarrow> nat \<times> nat \<Rightarrow> BuddyAllocator \<Rightarrow> BuddyAllocator" where
  "add_region_excluding3 start en e1 e2 e3 b = add_skipping start en (sort_key fst [e1, e2, e3]) b"

text \<open>The fields set before any block is added, in both init functions.\<close>

definition bitmap_page_count :: "nat \<Rightarrow> nat \<Rightarrow> nat" where
  "bitmap_page_count bse en =
     (let total_pages = (en - bse) div PAGE_SIZE;
          bitmap_bits = sum_list (map (\<lambda>k. div_ceil total_pages (2 ^ (k + 1))) [0..<MAX_ORDER + 1]);
          bitmap_bytes = div_ceil bitmap_bits 8
      in div_ceil bitmap_bytes PAGE_SIZE)"

definition init_header :: "nat \<Rightarrow> nat \<Rightarrow> BuddyAllocator \<Rightarrow> BuddyAllocator" where
  "init_header bse en b =
     (let bp = bitmap_page_count bse en
      in b\<lparr>bd_base := bse, bd_end := en, bitmap_pages := bp,
           bm := (\<lambda>i. if i < bp * PAGE_SIZE then 0 else bm b i)\<rparr>)"

definition init_with_range :: "nat \<Rightarrow> nat \<Rightarrow> BuddyAllocator \<Rightarrow> BuddyAllocator" where
  "init_with_range bse en b =
     (let b1 = init_header bse en b
      in (add_aligned_blocks (bse + bitmap_pages b1 * PAGE_SIZE) en b1)\<lparr>initialized := True\<rparr>)"

definition init_with_range_excluding ::
  "nat \<Rightarrow> nat \<Rightarrow> nat \<times> nat \<Rightarrow> nat \<times> nat \<Rightarrow> BuddyAllocator \<Rightarrow> BuddyAllocator" where
  "init_with_range_excluding bse en e1 e2 b =
     (let b1 = init_header bse en b
      in (add_region_excluding3 bse en (bse, bse + bitmap_pages b1 * PAGE_SIZE) e1 e2 b1)
           \<lparr>initialized := True\<rparr>)"

section \<open>Linked lists and pages\<close>

text \<open>The free list that starts at address \<open>h\<close>; 0 ends it.\<close>

fun linked :: "(nat \<Rightarrow> nat) \<Rightarrow> nat \<Rightarrow> nat list \<Rightarrow> bool" where
  "linked m h [] \<longleftrightarrow> h = 0"
| "linked m h (x # xs) \<longleftrightarrow> h = x \<and> x \<noteq> 0 \<and> linked m (m x) xs"

lemma linked_frame: "linked m h xs \<Longrightarrow> (\<And>x. x \<in> set xs \<Longrightarrow> m' x = m x) \<Longrightarrow> linked m' h xs"
  by (induction xs arbitrary: h) auto

lemma linked_upd_notin [simp]: "x \<notin> set xs \<Longrightarrow> linked (m(x := v)) h xs \<longleftrightarrow> linked m h xs"
  by (induction xs arbitrary: h) auto

lemma linked_0_notin: "linked m h xs \<Longrightarrow> 0 \<notin> set xs"
  by (induction xs arbitrary: h) auto

text \<open>Unlinking an inner node, as the list walk does.\<close>

lemma linked_unlink:
  assumes "linked m h (ys @ p # t # zs)" "distinct (ys @ p # t # zs)"
  shows "linked (m(p := m t)) h (ys @ p # zs)"
  using assms by (induction ys arbitrary: h) auto

text \<open>The walk returns on every list, and finds the target if it is after the first node.\<close>

lemma remove_walk_spec:
  assumes "linked (mem b) prev (p # xs)" "target \<noteq> 0" "target \<noteq> p"
  shows "if target \<in> set xs then
      (\<exists>ys q zs. p # xs = ys @ q # target # zs \<and>
         remove_walk target order prev b =
           Some (True, b\<lparr>mem := (mem b)(q := mem b target),
                         free_count := (free_count b)[order := free_count b ! order - 1]\<rparr>))
    else remove_walk target order prev b = Some (False, b)"
  using assms
proof (induction xs arbitrary: p prev)
  case Nil
  then have "prev = p" "p \<noteq> 0" "mem b p = 0" by auto
  then show ?case
    using Nil.prems(2) remove_walk.simps[of target order p b] remove_walk.simps[of target order 0 b] by simp
next
  case (Cons x xs)
  have next_x: "mem b p = x" "prev = p" "p \<noteq> 0" using Cons.prems by auto
  show ?case
  proof (cases "x = target")
    case True
    then show ?thesis
      using next_x by (subst (1 2) remove_walk.simps) (auto intro: exI[of _ "[]"])
  next
    case False
    have step: "remove_walk target order prev b = remove_walk target order x b"
      using next_x False by (subst remove_walk.simps) simp
    have "linked (mem b) x (x # xs)" using Cons.prems(1) next_x by simp
    note IH = Cons.IH[OF this Cons.prems(2)]
    show ?thesis
    proof (cases "target \<in> set xs")
      case True
      then obtain ys q zs where "x # xs = ys @ q # target # zs"
          "remove_walk target order x b = Some (True, b\<lparr>mem := (mem b)(q := mem b target),
                         free_count := (free_count b)[order := free_count b ! order - 1]\<rparr>)"
        using IH False by auto
      then have "\<exists>ys q zs. p # x # xs = ys @ q # target # zs \<and>
         remove_walk target order prev b = Some (True, b\<lparr>mem := (mem b)(q := mem b target),
                         free_count := (free_count b)[order := free_count b ! order - 1]\<rparr>)"
        by (metis step append_Cons)
      then show ?thesis
        using True by simp
    next
      case nf: False
      then show ?thesis using IH False step by auto
    qed
  qed
qed

text \<open>The pages of a block, and how a block splits into its halves.\<close>

definition blk_pages :: "nat \<Rightarrow> nat \<Rightarrow> nat multiset" where
  "blk_pages a order = mset (map (\<lambda>i. a + PAGE_SIZE * i) [0..<2 ^ order])"

lemma blk_pages_split:
  "blk_pages a (Suc order) = blk_pages a order + blk_pages (a + PAGE_SIZE * 2 ^ order) order"
proof -
  let ?n = "2 ^ order :: nat"
  have "[0..<2 ^ Suc order] = [0..<?n] @ map (\<lambda>i. i + ?n) [0..<?n]"
    by (simp add: map_add_upt mult_2 upt_add_eq_append[symmetric])
  then show ?thesis
    by (simp add: blk_pages_def comp_def algebra_simps)
qed

lemma size_blk_pages [simp]: "size (blk_pages a order) = 2 ^ order"
  by (simp add: blk_pages_def)

lemma in_blk_pages: "p \<in># blk_pages a order \<longleftrightarrow> (\<exists>i < 2 ^ order. p = a + PAGE_SIZE * i)"
  by (auto simp: blk_pages_def)

lemma self_in_blk_pages [simp]: "a \<in># blk_pages a order"
  by (auto simp: in_blk_pages intro: exI[of _ 0])

text \<open>The free pages: the pages of all blocks of the lists \<open>fl\<close>, one list per order.\<close>

definition list_pages :: "nat \<Rightarrow> nat list \<Rightarrow> nat multiset" where
  "list_pages order xs = (\<Sum>x\<in>#mset xs. blk_pages x order)"

definition free_mset :: "(nat \<Rightarrow> nat list) \<Rightarrow> nat multiset" where
  "free_mset fl = (\<Sum>order\<le>MAX_ORDER. list_pages order (fl order))"

lemma list_pages_simps [simp]:
  "list_pages order [] = {#}"
  "list_pages order (x # xs) = blk_pages x order + list_pages order xs"
  "list_pages order (xs @ ys) = list_pages order xs + list_pages order ys"
  by (simp_all add: list_pages_def)

lemma free_mset_upd:
  assumes "order \<le> MAX_ORDER"
  shows "free_mset (fl(order := xs)) + list_pages order (fl order) = free_mset fl + list_pages order xs"
proof -
  have *: "free_mset g = list_pages order (g order) + (\<Sum>o'\<in>{..MAX_ORDER} - {order}. list_pages o' (g o'))" for g
    unfolding free_mset_def using assms by (subst sum.remove[of _ order]) auto
  have "(\<Sum>o'\<in>{..MAX_ORDER} - {order}. list_pages o' ((fl(order := xs)) o')) =
      (\<Sum>o'\<in>{..MAX_ORDER} - {order}. list_pages o' (fl o'))"
    by (rule sum.cong) auto
  then show ?thesis
    unfolding *[of fl] *[of "fl(order := xs)"] by simp
qed

lemma free_mset_push:
  "order \<le> MAX_ORDER \<Longrightarrow> free_mset (fl(order := x # fl order)) = free_mset fl + blk_pages x order"
  using free_mset_upd[of order fl "x # fl order"] by simp

lemma free_mset_pop:
  "order \<le> MAX_ORDER \<Longrightarrow> fl order = x # xs \<Longrightarrow> free_mset fl = free_mset (fl(order := xs)) + blk_pages x order"
  using free_mset_upd[of order fl xs] by simp

lemma free_mset_remove:
  "order \<le> MAX_ORDER \<Longrightarrow> fl order = ys @ x # zs \<Longrightarrow>
     free_mset fl = free_mset (fl(order := ys @ zs)) + blk_pages x order"
  using free_mset_upd[of order fl "ys @ zs"] by simp

lemma in_free_mset: "order \<le> MAX_ORDER \<Longrightarrow> x \<in> set (fl order) \<Longrightarrow> blk_pages x order \<subseteq># free_mset fl"
  by (metis free_mset_remove in_set_conv_decomp mset_subset_eq_add_right)

text \<open>The buddy of a block is its neighbour on one side.\<close>

lemma xor_exp_nat:
  "n XOR 2 ^ m = n + 2 ^ m \<or> n = (n XOR 2 ^ m) + 2 ^ m" for n m :: nat
proof (cases "bit n m")
  case False
  then show ?thesis
    by (simp add: disjunctive_add_eq_xor and_exp_eq_0_iff_not_bit)
next
  case True
  then have "\<not> bit (n XOR 2 ^ m) m"
    by (simp add: bit_xor_iff bit_exp_iff)
  then have "(n XOR 2 ^ m) + 2 ^ m = (n XOR 2 ^ m) XOR 2 ^ m"
    by (simp add: disjunctive_add_eq_xor and_exp_eq_0_iff_not_bit)
  then show ?thesis
    by (simp add: xor.assoc)
qed

lemma buddy_of_neighbour:
  assumes "bse \<le> addr"
  shows "buddy_of addr bse order = addr + PAGE_SIZE * 2 ^ order \<or>
         addr = buddy_of addr bse order + PAGE_SIZE * 2 ^ order"
proof -
  let ?n = "addr - bse" and ?m = "order + 12"
  have p: "PAGE_SIZE * 2 ^ order = 2 ^ ?m" by (simp add: PAGE_SIZE_def power_add)
  show ?thesis using assms xor_exp_nat[of ?n ?m] unfolding p buddy_of_def by linarith
qed

section \<open>The allocator's invariant\<close>

text \<open>
  \<open>bd b fl R U d\<close>: the free lists of \<open>b\<close> are \<open>fl\<close>, their pages together with the pages \<open>R\<close> are
  exactly the managed pages \<open>U\<close>, each once, and \<open>total_free\<close> exceeds the number of free pages by
  \<open>d\<close> (an operation adjusts it at its end).
\<close>

definition page_set :: "BuddyAllocator \<Rightarrow> nat set \<Rightarrow> bool" where
  "page_set b U \<longleftrightarrow> finite U \<and> 0 < bd_base b \<and>
     (\<forall>p\<in>U. bd_base b \<le> p \<and> p + PAGE_SIZE \<le> bd_end b \<and> p mod PAGE_SIZE = 0)"

definition lists_ok :: "BuddyAllocator \<Rightarrow> (nat \<Rightarrow> nat list) \<Rightarrow> bool" where
  "lists_ok b fl \<longleftrightarrow>
     length (free_heads b) = MAX_ORDER + 1 \<and> length (free_count b) = MAX_ORDER + 1 \<and>
     (\<forall>order\<le>MAX_ORDER. linked (mem b) (free_heads b ! order) (fl order) \<and>
                         free_count b ! order = length (fl order))"

definition bd :: "BuddyAllocator \<Rightarrow> (nat \<Rightarrow> nat list) \<Rightarrow> nat multiset \<Rightarrow> nat set \<Rightarrow> nat \<Rightarrow> bool" where
  "bd b fl R U d \<longleftrightarrow>
     lists_ok b fl \<and> page_set b U \<and> free_mset fl + R = mset_set U \<and>
     total_free b = size (free_mset fl) + d"

definition same_range :: "BuddyAllocator \<Rightarrow> BuddyAllocator \<Rightarrow> bool" where
  "same_range b' b \<longleftrightarrow> initialized b' = initialized b \<and> bd_base b' = bd_base b \<and> bd_end b' = bd_end b"

lemma same_range_refl [simp]: "same_range b b"
  by (simp add: same_range_def)

lemma same_range_trans: "same_range c b \<Longrightarrow> same_range b a \<Longrightarrow> same_range c a"
  by (simp add: same_range_def)

lemma blocks_disjoint:
  assumes "A + B \<subseteq># mset_set U" "x \<in># A" "x \<in># B"
  shows False
proof -
  have "count A x + count B x \<le> count (mset_set U) x"
    using mset_subset_eq_count[OF assms(1), of x] by simp
  moreover have "count (mset_set U) x \<le> 1"
    by (cases "x \<in> U"; cases "finite U") auto
  moreover have "count A x > 0" "count B x > 0"
    using assms(2,3) by auto
  ultimately show False by linarith
qed

text \<open>A page outside the free lists is the start of no free block.\<close>

lemma bd_notin:
  assumes "bd b fl R U d" "x \<in># R" "order \<le> MAX_ORDER"
  shows "x \<notin> set (fl order)"
proof
  assume "x \<in> set (fl order)"
  then have "x \<in># free_mset fl"
    using in_free_mset[OF assms(3)] mset_subset_eqD[of "blk_pages x order" "free_mset fl" x] by auto
  then show False
    using assms(1,2) blocks_disjoint[of "free_mset fl" R U x] by (simp add: bd_def)
qed

lemma bd_in_U: "bd b fl R U d \<Longrightarrow> x \<in># R \<Longrightarrow> x \<in> U"
  by (metis bd_def elem_mset_set page_set_def union_iff)

lemma bd_node_in_U:
  assumes "bd b fl R U d" "order \<le> MAX_ORDER" "x \<in> set (fl order)"
  shows "x \<in> U"
proof -
  have "x \<in># free_mset fl"
    using in_free_mset[of order x fl] assms(2,3) mset_subset_eqD[of "blk_pages x order" "free_mset fl" x] by auto
  then show ?thesis
    using assms(1) by (metis bd_def elem_mset_set page_set_def union_iff)
qed

text \<open>The starts of the free blocks are distinct, within a list and across lists.\<close>

lemma bd_starts_distinct:
  assumes "bd b fl R U d" "order \<le> MAX_ORDER"
  shows "distinct (fl order)"
    "x \<in> set (fl order) \<Longrightarrow> o' \<le> MAX_ORDER \<Longrightarrow> o' \<noteq> order \<Longrightarrow> x \<notin> set (fl o')"
proof -
  have sub: "free_mset fl \<subseteq># mset_set U"
    using assms(1) by (metis bd_def mset_subset_eq_add_left)
  show "distinct (fl order)"
  proof (rule ccontr)
    assume "\<not> distinct (fl order)"
    then obtain ys x zs ws where "fl order = ys @ x # zs @ x # ws"
      using not_distinct_decomp[of "fl order"] by auto
    then have "free_mset fl = free_mset (fl(order := ys @ zs @ x # ws)) + blk_pages x order"
        "x \<in> set ((fl(order := ys @ zs @ x # ws)) order)"
      using free_mset_remove[OF assms(2)] by auto
    then show False
      using in_free_mset[OF assms(2), of x "fl(order := ys @ zs @ x # ws)"] sub
        blocks_disjoint[of "free_mset (fl(order := ys @ zs @ x # ws))" "blk_pages x order" U x]
        mset_subset_eqD[of "blk_pages x order" _ x] by auto
  qed
  assume x: "x \<in> set (fl order)" and o': "o' \<le> MAX_ORDER" "o' \<noteq> order"
  then obtain ys zs where d: "fl order = ys @ x # zs"
    by (meson split_list)
  show "x \<notin> set (fl o')"
  proof
    assume "x \<in> set (fl o')"
    then have "x \<in> set ((fl(order := ys @ zs)) o')" using o' by simp
    then show False
      using in_free_mset[OF o'(1), of x "fl(order := ys @ zs)"] sub free_mset_remove[of order fl ys x zs] assms(2) d
        blocks_disjoint[of "free_mset (fl(order := ys @ zs))" "blk_pages x order" U x]
        mset_subset_eqD[of "blk_pages x o'" _ x] by auto
  qed
qed

lemma bd_push:
  assumes "bd b fl (R + blk_pages x order) U d" "order \<le> MAX_ORDER"
  shows "bd (push_block x order b) (fl(order := x # fl order)) R U d"
proof -
  have nin: "x \<notin> set (fl o')" if "o' \<le> MAX_ORDER" for o'
    using bd_notin[OF assms(1) _ that] by simp
  have "x \<noteq> 0"
    using bd_in_U[OF assms(1), of x] assms(1) by (auto simp: bd_def page_set_def)
  then have "lists_ok (push_block x order b) (fl(order := x # fl order))"
    using assms nin by (auto simp: bd_def lists_ok_def push_block_def nth_list_update)
  then show ?thesis
    using assms by (simp add: bd_def push_block_def page_set_def free_mset_push ac_simps)
qed

lemma bd_pop:
  assumes "bd b fl R U d" "order \<le> MAX_ORDER"
  shows "case fl order of
      [] \<Rightarrow> pop_block order b = (None, b)
    | x # xs \<Rightarrow> \<exists>b'. pop_block order b = (Some x, b') \<and>
        bd b' (fl(order := xs)) (R + blk_pages x order) U (d + 2 ^ order) \<and>
        same_range b' b \<and> mem b' = mem b"
proof (cases "fl order")
  case Nil
  then have "free_heads b ! order = 0"
    using assms by (auto simp: bd_def lists_ok_def)
  then show ?thesis by (simp add: Nil pop_block_def)
next
  case (Cons x xs)
  then have l: "free_heads b ! order = x" "x \<noteq> 0" "linked (mem b) (mem b x) xs"
    using assms by (auto simp: bd_def lists_ok_def)
  let ?b = "b\<lparr>free_heads := (free_heads b)[order := mem b x],
              free_count := (free_count b)[order := free_count b ! order - 1]\<rparr>"
  have "lists_ok ?b (fl(order := xs))"
    using assms l Cons by (auto simp: bd_def lists_ok_def nth_list_update)
  then have "bd ?b (fl(order := xs)) (R + blk_pages x order) U (d + 2 ^ order)"
    using assms free_mset_pop[of order fl x xs] Cons by (simp add: bd_def page_set_def ac_simps)
  then show ?thesis
    using l Cons by (simp add: pop_block_def same_range_def)
qed

lemma bd_remove:
  assumes "bd b fl R U d" "order \<le> MAX_ORDER" "t \<noteq> 0"
  shows "if t \<in> set (fl order) then
      (\<exists>b' ys zs. fl order = ys @ t # zs \<and> remove_from_free_list t order b = Some (True, b') \<and>
         bd b' (fl(order := ys @ zs)) (R + blk_pages t order) U (d + 2 ^ order) \<and>
         same_range b' b)
    else remove_from_free_list t order b = Some (False, b)"
proof (cases "fl order")
  case Nil
  then have "free_heads b ! order = 0"
    using assms by (auto simp: bd_def lists_ok_def)
  then show ?thesis
    using Nil assms(3) by (simp add: remove_from_free_list_def remove_walk.simps)
next
  case (Cons p xs)
  have l: "linked (mem b) (free_heads b ! order) (p # xs)"
    using assms Cons by (auto simp: bd_def lists_ok_def)
  have h: "free_heads b ! order = p" using l by simp
  show ?thesis
  proof (cases "t = p")
    case True
    obtain b' where "pop_block order b = (Some p, b')" "same_range b' b"
        "bd b' (fl(order := xs)) (R + blk_pages p order) U (d + 2 ^ order)"
      using bd_pop[OF assms(1,2)] Cons by auto
    then have "fl order = [] @ t # xs \<and> remove_from_free_list t order b = Some (True, b') \<and>
        bd b' (fl(order := [] @ xs)) (R + blk_pages t order) U (d + 2 ^ order) \<and> same_range b' b"
      using True Cons h by (simp add: remove_from_free_list_def)
    moreover have "t \<in> set (fl order)" using True Cons by simp
    ultimately show ?thesis by (simp only: if_True) blast
  next
    case np: False
    note w = remove_walk_spec[OF l assms(3) np, of order]
    show ?thesis
    proof (cases "t \<in> set xs")
      case False
      then show ?thesis using w np h Cons by (simp add: remove_from_free_list_def)
    next
      case True
      then obtain ys q zs where w: "p # xs = ys @ q # t # zs"
          "remove_walk t order p b = Some (True, b\<lparr>mem := (mem b)(q := mem b t),
             free_count := (free_count b)[order := free_count b ! order - 1]\<rparr>)"
        using w h by auto
      let ?b = "b\<lparr>mem := (mem b)(q := mem b t), free_count := (free_count b)[order := free_count b ! order - 1]\<rparr>"
      have fo: "fl order = (ys @ [q]) @ t # zs" using Cons w(1) by simp
      have q: "q \<in> set (fl order)" by (simp add: fo)
      have dist: "distinct (fl order)"
        by (rule bd_starts_distinct(1)[OF assms(1,2)])
      have qn: "q \<notin> set (fl o')" if "o' \<le> MAX_ORDER" "o' \<noteq> order" for o'
        by (rule bd_starts_distinct(2)[OF assms(1,2) q that])
      have "linked ((mem b)(q := mem b t)) p (ys @ q # zs)"
        using linked_unlink[of "mem b" p ys q t zs] l h w(1) dist Cons by simp
      then have "lists_ok ?b (fl(order := (ys @ [q]) @ zs))"
        using assms(1,2) qn fo h by (auto simp: bd_def lists_ok_def nth_list_update)
      then have "bd ?b (fl(order := (ys @ [q]) @ zs)) (R + blk_pages t order) U (d + 2 ^ order)"
        using assms free_mset_remove[of order fl "ys @ [q]" t zs] fo by (simp add: bd_def page_set_def ac_simps)
      moreover have "remove_from_free_list t order b = Some (True, ?b)" "same_range ?b b"
        using w(2) np h by (simp_all add: remove_from_free_list_def same_range_def)
      moreover have "t \<in> set (fl order)" using fo by simp
      ultimately show ?thesis using fo by (simp only: if_True) blast
    qed
  qed
qed

text \<open>The bytes of the pages \<open>R\<close> are the same in both states.\<close>

definition kept :: "nat multiset \<Rightarrow> BuddyAllocator \<Rightarrow> BuddyAllocator \<Rightarrow> bool" where
  "kept R b b' \<longleftrightarrow> (\<forall>x\<in>#R. \<forall>w. x \<le> w \<and> w < x + PAGE_SIZE \<longrightarrow> mem b' w = mem b w)"

lemma kept_refl [simp]: "kept R b b"
  by (simp add: kept_def)

lemma kept_trans: "kept R a b \<Longrightarrow> kept R b c \<Longrightarrow> kept R a c"
  by (simp add: kept_def)

lemma kept_mono: "kept (R + S) a b \<Longrightarrow> kept R a b"
  by (auto simp: kept_def)

lemma kept_same_mem: "mem b' = mem c \<Longrightarrow> kept R b b' \<longleftrightarrow> kept R b c" "mem b = mem c \<Longrightarrow> kept R b b' \<longleftrightarrow> kept R c b'"
  by (simp_all add: kept_def)

lemma bd_aligned: "bd b fl R U d \<Longrightarrow> x \<in> U \<Longrightarrow> PAGE_SIZE dvd x"
  by (auto simp: bd_def page_set_def mod_eq_0_iff_dvd)

lemma page_unique:
  assumes "PAGE_SIZE dvd x" "PAGE_SIZE dvd y" "x \<le> y" "y < x + PAGE_SIZE"
  shows "y = x"
proof -
  have "y div PAGE_SIZE = x div PAGE_SIZE" using assms by (auto elim!: dvdE simp: PAGE_SIZE_def)
  then show ?thesis using assms(1,2) by (metis dvd_div_mult_self)
qed

lemma kept_write:
  assumes "bd b fl (R + S) U d" "y \<in> U" "y \<notin># R" "mem b' = (mem b)(y := v)"
  shows "kept R b b'"
proof -
  have "w \<noteq> y" if "x \<in># R" "x \<le> w" "w < x + PAGE_SIZE" for x w
    using page_unique[OF bd_aligned[OF assms(1)] bd_aligned[OF assms(1)], of x y] bd_in_U[OF assms(1), of x] assms(2,3) that
    by (metis union_iff)
  then show ?thesis using assms(4) by (auto simp: kept_def)
qed

lemma bd_apart: "bd b fl (R + S) U d \<Longrightarrow> x \<in># S \<Longrightarrow> x \<in> U \<and> x \<notin># R"
proof (intro conjI notI)
  assume a: "bd b fl (R + S) U d" "x \<in># S"
  show "x \<in> U" using bd_in_U[OF a(1), of x] a(2) by simp
  assume "x \<in># R"
  moreover have "free_mset fl + (R + S) = mset_set U" using a(1) unfolding bd_def by (elim conjE)
  then have "R + S \<subseteq># mset_set U" using mset_subset_eq_add_right[of "R + S" "free_mset fl"] by simp
  ultimately show False using blocks_disjoint[of R S U x] a(2) by blast
qed

lemma start_in_blk: "a \<in># blk_pages a order" "a + PAGE_SIZE * 2 ^ order \<in># blk_pages a (Suc order)"
proof -
  show "a \<in># blk_pages a order" by (auto simp: in_blk_pages)
  have "2 ^ order < (2 ^ Suc order :: nat)" by simp
  then show "a + PAGE_SIZE * 2 ^ order \<in># blk_pages a (Suc order)" unfolding in_blk_pages by blast
qed

lemma kept_remove:
  assumes "bd b fl R U d" "order \<le> MAX_ORDER" "t \<noteq> 0" "remove_from_free_list t order b = Some (r, b')"
  shows "kept R b b'"
proof (cases "fl order")
  case Nil
  then have "free_heads b ! order = 0" using assms by (auto simp: bd_def lists_ok_def)
  then show ?thesis using Nil assms(3,4) by (simp add: remove_from_free_list_def remove_walk.simps)
next
  case (Cons p xs)
  have l: "linked (mem b) (free_heads b ! order) (p # xs)" using assms Cons by (auto simp: bd_def lists_ok_def)
  have h: "free_heads b ! order = p" using l by simp
  show ?thesis
  proof (cases "t = p")
    case True
    then have "mem b' = mem b" using assms(4) h by (auto simp: remove_from_free_list_def pop_block_def Let_def split: if_splits)
    then show ?thesis by (simp add: kept_def)
  next
    case np: False
    note w = remove_walk_spec[OF l assms(3) np, of order]
    have e: "remove_walk t order p b = Some (r, b')" using assms(4) np h by (simp add: remove_from_free_list_def)
    show ?thesis
    proof (cases "t \<in> set xs")
      case False
      then show ?thesis using w h e by simp
    next
      case True
      then obtain ys q zs where q: "p # xs = ys @ q # t # zs" "mem b' = (mem b)(q := mem b t)" using w h e by auto
      have "q \<in> set (fl order)" using Cons q(1) by simp
      then show ?thesis
        using kept_write[of b fl R "{#}" U d q b'] assms(1) q(2) bd_node_in_U[OF assms(1,2)] bd_notin[OF assms(1) _ assms(2)]
        by auto
    qed
  qed
qed

lemma bd_toggle [simp]:
  "bd (toggle a order b) fl R U d \<longleftrightarrow> bd b fl R U d" "same_range (toggle a order b) c \<longleftrightarrow> same_range b c"
  by (simp_all add: bitmap_toggle_def bd_def lists_ok_def page_set_def same_range_def Let_def split: prod.splits)

lemma toggle_fields [simp]:
  "initialized (toggle a order b) = initialized b" "bd_base (toggle a order b) = bd_base b"
  "bd_end (toggle a order b) = bd_end b" "mem (toggle a order b) = mem b"
  by (simp_all add: bitmap_toggle_def Let_def split: prod.splits)

lemma push_fields [simp]:
  "initialized (push_block a order b) = initialized b" "bd_base (push_block a order b) = bd_base b"
  "bd_end (push_block a order b) = bd_end b" "same_range (push_block a order b) c \<longleftrightarrow> same_range b c"
  "same_range c (push_block a order b) \<longleftrightarrow> same_range c b"
  by (simp_all add: push_block_def same_range_def)

lemma bd_sub_free: "bd b fl R U (d + n) \<Longrightarrow> bd (sub_free n b) fl R U d"
  by (simp add: bd_def sub_free_def lists_ok_def page_set_def)

lemma bd_sub_free_all: "bd b fl R U n \<Longrightarrow> bd (sub_free n b) fl R U 0"
  using bd_sub_free[of b fl R U 0 n] by simp

lemma sub_free_fields [simp]:
  "initialized (sub_free n b) = initialized b" "same_range (sub_free n b) c \<longleftrightarrow> same_range b c"
  "mem (sub_free n b) = mem b"
  by (simp_all add: sub_free_def same_range_def)

section \<open>Allocation\<close>

lemma bd_split_step:
  assumes "bd b fl (R + blk_pages a (Suc so)) U d" "so \<le> MAX_ORDER"
  shows "\<exists>fl'. bd (split_step a so b) fl' (R + blk_pages a so) U d" "same_range (split_step a so b) b"
proof -
  have "bd b fl (R + blk_pages a so + blk_pages (a + PAGE_SIZE * 2 ^ so) so) U d"
    using assms(1) by (simp add: blk_pages_split ac_simps)
  from bd_push[OF this assms(2)]
  show "\<exists>fl'. bd (split_step a so b) fl' (R + blk_pages a so) U d"
    by (auto simp: split_step_def Let_def)
  show "same_range (split_step a so b) b"
    by (simp add: split_step_def Let_def)
qed

lemma bd_split:
  assumes "bd b fl (R + blk_pages a higher) U d" "order \<le> higher" "higher \<le> MAX_ORDER"
  shows "\<exists>fl'. bd (fold (split_step a) (rev [order..<higher]) b) fl' (R + blk_pages a order) U d"
    "same_range (fold (split_step a) (rev [order..<higher]) b) b"
proof -
  have "\<forall>b fl. bd b fl (R + blk_pages a higher) U d \<longrightarrow>
     (\<exists>fl'. bd (fold (split_step a) (rev [order..<higher]) b) fl' (R + blk_pages a order) U d) \<and>
     same_range (fold (split_step a) (rev [order..<higher]) b) b"
    using assms(2,3)
  proof (induction higher rule: dec_induct)
    case base
    then show ?case by auto
  next
    case (step n)
    show ?case
    proof (intro allI impI)
      fix b fl assume b: "bd b fl (R + blk_pages a (Suc n)) U d"
      then obtain fl' where "bd (split_step a n b) fl' (R + blk_pages a n) U d"
        using bd_split_step[OF b] step.prems by auto
      moreover have "same_range (split_step a n b) b"
        using bd_split_step[OF b] step.prems by simp
      ultimately show "(\<exists>fl'. bd (fold (split_step a) (rev [order..<Suc n]) b) fl' (R + blk_pages a order) U d) \<and>
          same_range (fold (split_step a) (rev [order..<Suc n]) b) b"
        using step by (auto intro: same_range_trans)
    qed
  qed
  then show "\<exists>fl'. bd (fold (split_step a) (rev [order..<higher]) b) fl' (R + blk_pages a order) U d"
    "same_range (fold (split_step a) (rev [order..<higher]) b) b"
    using assms(1) by blast+
qed

text \<open>Allocation takes the block from the free pages, or finds every large enough list empty.\<close>

lemma alloc_higher_spec:
  assumes "bd b fl R U 0" "\<forall>h\<in>set hs. order < h \<and> h \<le> MAX_ORDER"
  shows "case alloc_higher order hs b of
      (None, b') \<Rightarrow> b' = b \<and> (\<forall>h\<in>set hs. fl h = [])
    | (Some a, b') \<Rightarrow> (\<exists>fl'. bd b' fl' (R + blk_pages a order) U 0) \<and> same_range b' b"
  using assms(2)
proof (induction hs)
  case (Cons h hs)
  then have h: "order < h" "h \<le> MAX_ORDER" by auto
  show ?case
  proof (cases "fl h")
    case Nil
    then have "alloc_higher order (h # hs) b = alloc_higher order hs b"
      using bd_pop[OF assms(1) h(2)] by simp
    moreover obtain r b' where "alloc_higher order hs b = (r, b')" by fastforce
    ultimately show ?thesis
      using Cons Nil by (cases r) simp_all
  next
    case (Cons x xs)
    then obtain b1 where p: "pop_block h b = (Some x, b1)" "same_range b1 b"
        "bd b1 (fl(h := xs)) (R + blk_pages x h) U (0 + 2 ^ h)"
      using bd_pop[OF assms(1) h(2)] by auto
    define b2 where "b2 = (if initialized b1 then toggle x h b1 else b1)"
    have b2: "bd b2 (fl(h := xs)) (R + blk_pages x h) U (0 + 2 ^ h)" "same_range b2 b"
      using p by (simp_all add: b2_def)
    define b3 where "b3 = fold (split_step x) (rev [order..<h]) b2"
    obtain fl' where "bd b3 fl' (R + blk_pages x order) U (0 + 2 ^ h)"
      using bd_split(1)[OF b2(1) less_imp_le[OF h(1)] h(2)] unfolding b3_def by blast
    then have "bd (sub_free (2 ^ h) b3) fl' (R + blk_pages x order) U 0"
      using bd_sub_free_all by simp
    moreover have "same_range (sub_free (2 ^ h) b3) b"
      using bd_split(2)[OF b2(1) less_imp_le[OF h(1)] h(2)] b2(2) same_range_trans
      unfolding b3_def by (simp add: same_range_trans)
    moreover have "alloc_higher order (h # hs) b = (Some x, sub_free (2 ^ h) b3)"
      unfolding b3_def b2_def by (simp only: alloc_higher.simps p(1) Let_def prod.case option.case)
    ultimately show ?thesis by (simp only: prod.case option.case) blast
  qed
qed simp

lemma alloc_pages_spec:
  assumes "bd b fl R U 0"
  shows "case alloc_pages order b of
      (None, b') \<Rightarrow> b' = b \<and> (\<forall>h. order \<le> h \<longrightarrow> h \<le> MAX_ORDER \<longrightarrow> fl h = [])
    | (Some a, b') \<Rightarrow> order \<le> MAX_ORDER \<and> (\<exists>fl'. bd b' fl' (R + blk_pages a order) U 0) \<and> same_range b' b"
proof (cases "order \<le> MAX_ORDER")
  case True
  show ?thesis
  proof (cases "fl order")
    case Nil
    have "\<forall>h\<in>set [order + 1..<MAX_ORDER + 1]. order < h \<and> h \<le> MAX_ORDER" by auto
    note spec = alloc_higher_spec[OF assms this]
    have eq: "alloc_pages order b = alloc_higher order [order + 1..<MAX_ORDER + 1] b"
      using True bd_pop[OF assms True] Nil by (simp add: alloc_pages_def)
    obtain r b' where r: "alloc_higher order [order + 1..<MAX_ORDER + 1] b = (r, b')" by fastforce
    show ?thesis
    proof (cases r)
      case None
      have n: "b' = b" "\<forall>h\<in>set [order + 1..<MAX_ORDER + 1]. fl h = []"
        using spec[unfolded r None prod.case option.case] by blast+
      have "fl h = []" if "order \<le> h" "h \<le> MAX_ORDER" for h
      proof (cases "h = order")
        case False
        then have "h \<in> set [order + 1..<MAX_ORDER + 1]" using that by (simp only: set_upt) simp
        then show ?thesis using n(2) by blast
      qed (simp add: Nil)
      then show ?thesis
        unfolding eq r None using n(1) by (simp only: prod.case option.case) blast
    next
      case (Some a)
      then show ?thesis
        using spec True unfolding eq r Some by (simp only: prod.case option.case)
    qed
  next
    case (Cons x xs)
    then obtain b1 where "pop_block order b = (Some x, b1)" "same_range b1 b"
        "bd b1 (fl(order := xs)) (R + blk_pages x order) U (0 + 2 ^ order)"
      using bd_pop[OF assms True] by auto
    then have "bd (sub_free (2 ^ order) b1) (fl(order := xs)) (R + blk_pages x order) U 0"
        "pop_block order b = (Some x, b1)" "same_range b1 b"
      by (simp_all add: bd_sub_free_all)
    then have "bd (snd (alloc_pages order b)) (fl(order := xs)) (R + blk_pages x order) U 0 \<and>
        same_range (snd (alloc_pages order b)) b \<and> fst (alloc_pages order b) = Some x"
      using True by (simp add: alloc_pages_def Let_def)
    then show ?thesis
      using True by (cases "alloc_pages order b") auto
  qed
qed (simp add: alloc_pages_def)

lemma kept_split_step:
  assumes "bd b fl (R + blk_pages a (Suc so)) U d"
  shows "kept R b (split_step a so b)"
proof -
  have "mem (split_step a so b) = (mem b)(a + PAGE_SIZE * 2 ^ so := free_heads b ! so)"
    by (simp add: split_step_def push_block_def Let_def)
  then show ?thesis using kept_write[OF assms] bd_apart[OF assms start_in_blk(2)] by blast
qed

lemma kept_split:
  assumes "bd b fl (R + blk_pages a higher) U d" "order \<le> higher" "higher \<le> MAX_ORDER"
  shows "kept R b (fold (split_step a) (rev [order..<higher]) b)"
  using assms
proof (induction higher arbitrary: b fl)
  case (Suc h)
  show ?case
  proof (cases "order = Suc h")
    case False
    then have o: "order \<le> h" "h \<le> MAX_ORDER" using Suc.prems by simp_all
    obtain fl' where "bd (split_step a h b) fl' (R + blk_pages a h) U d"
      using bd_split_step(1)[OF Suc.prems(1) o(2)] by blast
    from Suc.IH[OF this o] have "kept R b (fold (split_step a) (rev [order..<h]) (split_step a h b))"
      using kept_split_step[OF Suc.prems(1)] kept_trans by blast
    then show ?thesis using o(1) by simp
  qed simp
qed simp

lemma kept_alloc_higher:
  assumes "bd b fl R U 0" "\<forall>h\<in>set hs. order < h \<and> h \<le> MAX_ORDER"
  shows "kept R b (snd (alloc_higher order hs b))"
  using assms(2)
proof (induction hs)
  case (Cons h hs)
  then have h: "order < h" "h \<le> MAX_ORDER" by auto
  show ?case
  proof (cases "fl h")
    case Nil
    then show ?thesis using bd_pop[OF assms(1) h(2)] Cons by simp
  next
    case (Cons x xs)
    then obtain b1 where p: "pop_block h b = (Some x, b1)" "mem b1 = mem b"
        "bd b1 (fl(h := xs)) (R + blk_pages x h) U (0 + 2 ^ h)"
      using bd_pop[OF assms(1) h(2)] by auto
    define b2 where "b2 = (if initialized b1 then toggle x h b1 else b1)"
    have b2: "bd b2 (fl(h := xs)) (R + blk_pages x h) U (0 + 2 ^ h)" "mem b2 = mem b"
      using p by (simp_all add: b2_def)
    have "kept R b2 (fold (split_step x) (rev [order..<h]) b2)"
      by (rule kept_split[OF b2(1) less_imp_le[OF h(1)] h(2)])
    moreover have "alloc_higher order (h # hs) b = (Some x, sub_free (2 ^ h) (fold (split_step x) (rev [order..<h]) b2))"
      unfolding b2_def by (simp only: alloc_higher.simps p(1) Let_def prod.case option.case)
    ultimately show ?thesis using b2(2) by (simp add: kept_def)
  qed
qed simp

lemma kept_alloc:
  assumes "bd b fl R U 0"
  shows "kept R b (snd (alloc_pages order b))"
proof (cases "order \<le> MAX_ORDER")
  case True
  show ?thesis
  proof (cases "fl order")
    case Nil
    have "\<forall>h\<in>set [order + 1..<MAX_ORDER + 1]. order < h \<and> h \<le> MAX_ORDER" by auto
    from kept_alloc_higher[OF assms this] show ?thesis
      using True bd_pop[OF assms True] Nil by (simp add: alloc_pages_def)
  next
    case (Cons x xs)
    then obtain b1 where "pop_block order b = (Some x, b1)" "mem b1 = mem b" using bd_pop[OF assms True] by auto
    then show ?thesis using True by (simp add: alloc_pages_def kept_def Let_def)
  qed
qed (simp add: alloc_pages_def)

section \<open>Freeing\<close>

lemma bd_poison_fill:
  assumes "bd b fl (R + blk_pages x order) U d"
  shows "bd (poison_fill x order b) fl (R + blk_pages x order) U d"
proof -
  have xU: "x mod PAGE_SIZE = 0"
    using bd_in_U[OF assms, of x] assms by (simp add: bd_def page_set_def)
  have "\<not> (x \<le> y \<and> y < x + PAGE_SIZE * 2 ^ order)" if y: "o' \<le> MAX_ORDER" "y \<in> set (fl o')" for o' y
  proof
    assume r: "x \<le> y \<and> y < x + PAGE_SIZE * 2 ^ order"
    have "y mod PAGE_SIZE = 0"
      using bd_node_in_U[OF assms y] assms by (simp add: bd_def page_set_def)
    then have "PAGE_SIZE dvd y - x"
      using xU r by (simp add: mod_eq_0_iff_dvd dvd_diff_nat)
    then obtain i where i: "y - x = PAGE_SIZE * i" by (auto elim: dvdE)
    then have "y = x + PAGE_SIZE * i" "i < 2 ^ order"
      using r by (auto simp: PAGE_SIZE_def)
    then have "y \<in># R + blk_pages x order"
      by (auto simp: in_blk_pages)
    then show False
      using bd_notin[OF assms _ y(1)] y(2) by blast
  qed
  then have fr: "mem (poison_fill x order b) y = mem b y" if "o' \<le> MAX_ORDER" "y \<in> set (fl o')" for o' y
    using that by (simp add: poison_fill_def) metis
  have "linked (mem (poison_fill x order b)) (free_heads b ! o') (fl o')" if "o' \<le> MAX_ORDER" for o'
    using assms that fr by (auto simp: bd_def lists_ok_def intro: linked_frame)
  then have "lists_ok (poison_fill x order b) fl"
    using assms by (simp add: bd_def lists_ok_def) (simp add: poison_fill_def)
  then show ?thesis
    using assms by (simp add: bd_def poison_fill_def page_set_def)
qed

lemma kept_poison_fill:
  assumes "bd b fl (R + blk_pages x order) U d"
  shows "kept R b (poison_fill x order b)"
  unfolding kept_def
proof (intro ballI allI impI)
  fix y w assume y: "y \<in># R" "y \<le> w \<and> w < y + PAGE_SIZE"
  have "\<not> (x \<le> w \<and> w < x + PAGE_SIZE * 2 ^ order)"
  proof
    assume r: "x \<le> w \<and> w < x + PAGE_SIZE * 2 ^ order"
    let ?i = "(w - x) div PAGE_SIZE"
    have "w - x < 2 ^ order * PAGE_SIZE" using r by (simp add: mult.commute less_diff_conv2)
    then have "?i < 2 ^ order" by (rule less_mult_imp_div_less)
    then have i: "x + PAGE_SIZE * ?i \<in># blk_pages x order" by (auto simp: in_blk_pages)
    have "x + PAGE_SIZE * ?i \<le> w" "w < x + PAGE_SIZE * ?i + PAGE_SIZE"
      using r mod_less_divisor[of PAGE_SIZE "w - x"] mult_div_mod_eq[of PAGE_SIZE "w - x"] by (simp_all only: PAGE_SIZE_def) linarith+
    moreover have "PAGE_SIZE dvd y" "PAGE_SIZE dvd x + PAGE_SIZE * ?i"
      using bd_aligned[OF assms] bd_in_U[OF assms] y(1) i by auto
    ultimately have "y = x + PAGE_SIZE * ?i"
      using page_unique[of y "x + PAGE_SIZE * ?i"] page_unique[of "x + PAGE_SIZE * ?i" y] y(2) by linarith
    then show False using bd_apart[OF assms i] y(1) by simp
  qed
  then show "mem (poison_fill x order b) w = mem b w" by (auto simp: poison_fill_def)
qed

lemma coalesce_spec:
  assumes "bd b fl (R + blk_pages addr order) U 0" "order \<le> MAX_ORDER"
  shows "\<exists>addr' order' b' fl'. coalesce addr order b = Some (addr', order', b') \<and> order' \<le> MAX_ORDER \<and>
    bd b' fl' (R + blk_pages addr' order') U 0 \<and> same_range b' b \<and> kept R b b'"
  using assms
proof (induction addr order b arbitrary: fl rule: coalesce.induct)
  case (1 addr order b)
  show ?case
  proof (cases "order < MAX_ORDER")
    case False
    then show ?thesis using "1.prems" by (subst coalesce.simps) auto
  next
    case True
    obtain bt b1 where t: "bitmap_toggle addr order b = (bt, b1)" by fastforce
    have b1: "bd b1 fl (R + blk_pages addr order) U 0" "same_range b1 b"
      using "1.prems"(1) t bd_toggle[of addr order b] by (simp_all add: same_range_def)
    have "mem b1 = mem b" using t toggle_fields(4)[of addr order b] by simp
    then have k1: "kept R b b1" "kept R b (toggle addr order b1)" by (simp_all add: kept_def)
    let ?bud = "buddy_of addr (bd_base b1) order"
    have stop: "bd (toggle addr order b1) fl (R + blk_pages addr order) U 0" "same_range (toggle addr order b1) b"
      using b1 by simp_all
    show ?thesis
    proof (cases bt)
      case bt: True
      then have "coalesce addr order b = Some (addr, order, b1)"
        using True t by (subst coalesce.simps) simp
      then show ?thesis using b1 k1 "1.prems"(2) by blast
    next
      case bt: False
      have t: "bitmap_toggle addr order b = (False, b1)" using t bt by simp
      show ?thesis
      proof (cases "?bud < bd_base b1 \<or> ?bud + PAGE_SIZE * 2 ^ order > bd_end b1")
        case out: True
        then have "coalesce addr order b = Some (addr, order, toggle addr order b1)"
          using True t by (subst coalesce.simps) (simp add: Let_def)
        then show ?thesis using stop k1 "1.prems"(2) by blast
      next
        case go: False
        have addr: "bd_base b1 \<le> addr" and bud: "?bud \<noteq> 0"
          using bd_in_U[OF b1(1), of addr] b1(1) go by (auto simp: bd_def page_set_def)
        note nb = buddy_of_neighbour[OF addr, of order]
        note rm = bd_remove[OF b1(1) "1.prems"(2) bud]
        show ?thesis
        proof (cases "?bud \<in> set (fl order)")
          case no: False
          then have "coalesce addr order b = Some (addr, order, toggle addr order b1)"
            using True go t rm by (subst coalesce.simps) (simp add: Let_def)
          then show ?thesis using stop k1 "1.prems"(2) by blast
        next
          case yes: True
          then obtain b2 fl2 where r: "remove_from_free_list ?bud order b1 = Some (True, b2)" "same_range b2 b1"
              "bd b2 fl2 (R + blk_pages addr order + blk_pages ?bud order) U (0 + 2 ^ order)"
            using rm by (simp only: if_True) blast
          have "blk_pages addr order + blk_pages ?bud order = blk_pages (min addr ?bud) (Suc order)"
          proof (cases "?bud = addr + PAGE_SIZE * 2 ^ order")
            case False
            then have a: "addr = ?bud + PAGE_SIZE * 2 ^ order" using nb by blast
            then have "min addr ?bud = ?bud" by simp
            then show ?thesis using blk_pages_split[of ?bud order] a by (simp add: add.commute)
          qed (simp add: blk_pages_split)
          then have "bd (sub_free (2 ^ order) b2) fl2 (R + blk_pages (min addr ?bud) (order + 1)) U 0"
            using r(3) bd_sub_free_all by (simp add: add.assoc)
          then obtain addr' order' b' fl' where "coalesce (min addr ?bud) (order + 1) (sub_free (2 ^ order) b2) =
                Some (addr', order', b')" "order' \<le> MAX_ORDER" "bd b' fl' (R + blk_pages addr' order') U 0"
              "same_range b' (sub_free (2 ^ order) b2)" "kept R (sub_free (2 ^ order) b2) b'"
            using "1.IH"[OF True t[symmetric]] go r(1) True by fastforce
          moreover have "coalesce addr order b = coalesce (min addr ?bud) (order + 1) (sub_free (2 ^ order) b2)"
            using True go t r(1) by (subst coalesce.simps) (simp add: Let_def)
          moreover have "same_range (sub_free (2 ^ order) b2) b"
            using same_range_trans[OF r(2) b1(2)] by simp
          moreover have "kept R b (sub_free (2 ^ order) b2)"
            using kept_trans[OF k1(1) kept_mono[OF kept_remove[OF b1(1) "1.prems"(2) bud r(1)]]] by (simp add: kept_def)
          ultimately show ?thesis
            using same_range_trans kept_trans by metis
        qed
      qed
    qed
  qed
qed

lemma free_pages_spec:
  assumes "bd b fl (R + blk_pages a order) U 0" "order \<le> MAX_ORDER" "initialized b"
    "mem b a mod 2 ^ 32 \<noteq> POISON_PATTERN"
  shows "\<exists>b' fl'. free_pages a order b = Some b' \<and> bd b' fl' R U 0 \<and> same_range b' b \<and> kept R b b'"
proof -
  obtain a' o' b1 fl1 where c: "coalesce a order (poison_fill a order b) = Some (a', o', b1)" "o' \<le> MAX_ORDER"
      "bd b1 fl1 (R + blk_pages a' o') U 0" "same_range b1 (poison_fill a order b)" "kept R (poison_fill a order b) b1"
    using coalesce_spec[OF bd_poison_fill[OF assms(1)] assms(2)] by blast
  define b2 where "b2 = (if o' = MAX_ORDER then toggle a' o' b1 else b1)"
  have "bd b2 fl1 (R + blk_pages a' o') U 0" "same_range b2 b"
    using c(3,4) by (auto simp: b2_def same_range_def poison_fill_def)
  moreover have "free_pages a order b = Some (push_block a' o' b2)"
    using assms(3,4) c(1) by (simp add: free_pages_def b2_def)
  moreover have "mem (push_block a' o' b2) = (mem b1)(a' := free_heads b2 ! o')" by (simp add: b2_def push_block_def)
  then have "kept R b1 (push_block a' o' b2)"
    using kept_write[OF c(3)] bd_apart[OF c(3) start_in_blk(1)] by blast
  then have "kept R b (push_block a' o' b2)"
    using kept_trans kept_poison_fill[OF assms(1)] c(5) by blast
  ultimately show ?thesis
    using bd_push[OF _ c(2)] by (metis push_fields(4))
qed

section \<open>Initialisation\<close>

definition range_pages :: "nat \<Rightarrow> nat \<Rightarrow> nat multiset" where
  "range_pages addr en = mset (map (\<lambda>i. addr + PAGE_SIZE * i) [0..<(en - addr) div PAGE_SIZE])"

lemma range_pages_split:
  assumes "addr + PAGE_SIZE * 2 ^ order \<le> en"
  shows "range_pages addr en = blk_pages addr order + range_pages (addr + PAGE_SIZE * 2 ^ order) en"
proof -
  let ?n = "2 ^ order :: nat" and ?m = "(en - (addr + PAGE_SIZE * 2 ^ order)) div PAGE_SIZE"
  have "en - addr = PAGE_SIZE * ?n + (en - (addr + PAGE_SIZE * ?n))" using assms by simp
  then have "(en - addr) div PAGE_SIZE = ?n + ?m"
    by (metis PAGE_SIZE_def add.commute div_mult_self2 zero_neq_numeral)
  moreover have "[0..<?n + ?m] = [0..<?n] @ map (\<lambda>i. i + ?n) [0..<?m]"
    by (simp add: map_add_upt upt_add_eq_append[symmetric] add.commute)
  ultimately show ?thesis
    by (simp add: range_pages_def blk_pages_def comp_def algebra_simps)
qed

lemma fit_order_le: "fit_order addr en order \<le> order"
  by (induction order) (simp_all add: Let_def le_SucI)

lemma fit_order_fits:
  "addr + PAGE_SIZE \<le> en \<Longrightarrow> addr + PAGE_SIZE * 2 ^ fit_order addr en order \<le> en"
  by (induction order) (simp_all add: Let_def)

lemma add_aligned_blocks_spec:
  assumes "bd b fl (R + range_pages addr en) U 0" "PAGE_SIZE dvd addr"
  shows "\<exists>fl'. bd (add_aligned_blocks addr en b) fl' R U 0 \<and> same_range (add_aligned_blocks addr en b) b"
  using assms
proof (induction addr en b arbitrary: fl rule: add_aligned_blocks.induct)
  case (1 addr en b)
  show ?case
  proof (cases "addr + PAGE_SIZE \<le> en")
    case False
    have "PAGE_SIZE * 1 \<le> PAGE_SIZE * 2 ^ fit_order addr en MAX_ORDER" by (intro mult_le_mono2) simp
    then have "\<not> addr + PAGE_SIZE * 2 ^ fit_order addr en MAX_ORDER \<le> en" using False by linarith
    moreover have "range_pages addr en = {#}" using False by (simp add: range_pages_def PAGE_SIZE_def)
    ultimately show ?thesis
      using "1.prems"(1) by (subst (1 2) add_aligned_blocks.simps) (auto simp: Let_def)
  next
    case gap: True
    then have True: "addr < en" by (simp add: PAGE_SIZE_def)
    define order where "order = fit_order addr en MAX_ORDER"
    have fits: "addr + PAGE_SIZE * 2 ^ order \<le> en" and le: "order \<le> MAX_ORDER"
      using fit_order_fits[OF gap] fit_order_le by (simp_all add: order_def)
    have "bd b fl ((R + range_pages (addr + PAGE_SIZE * 2 ^ order) en) + blk_pages addr order) U 0"
      using "1.prems"(1) range_pages_split[OF fits] by (simp add: ac_simps)
    from bd_push[OF this le]
    have pushed: "bd (push_block addr order b) (fl(order := addr # fl order))
        (R + range_pages (addr + PAGE_SIZE * 2 ^ order) en) U 0" .
    have step: "add_aligned_blocks addr en b =
        add_aligned_blocks (addr + PAGE_SIZE * 2 ^ order) en (push_block addr order b)"
      using True fits by (subst add_aligned_blocks.simps) (simp add: order_def Let_def)
    show ?thesis
      unfolding step using "1.IH"[OF True order_def refl _ pushed] fits "1.prems"(2) by simp
  qed
qed

text \<open>An allocator without blocks, before the first is added.\<close>

lemma bd_empty:
  assumes "free_heads b = replicate (MAX_ORDER + 1) 0" "free_count b = replicate (MAX_ORDER + 1) 0"
    "total_free b = 0" "page_set b U"
  shows "bd b (\<lambda>_. []) (mset_set U) U 0"
  using assms by (simp add: bd_def lists_ok_def free_mset_def nth_replicate less_Suc_eq_le del: replicate_Suc)

text \<open>The pages \<open>add_skipping\<close> adds: those of the range outside every exclusion.\<close>

fun seg_pages :: "nat \<Rightarrow> nat \<Rightarrow> (nat \<times> nat) list \<Rightarrow> nat multiset" where
  "seg_pages cursor en [] = range_pages cursor en"
| "seg_pages cursor en ((es, ee) # xs) =
     (if es = ee then seg_pages cursor en xs
      else range_pages cursor (min es en) + seg_pages (max cursor ee) en xs)"

definition usable :: "nat \<Rightarrow> nat \<Rightarrow> (nat \<times> nat) list \<Rightarrow> nat set" where
  "usable cursor en xs =
     {p. cursor \<le> p \<and> p + PAGE_SIZE \<le> en \<and> PAGE_SIZE dvd p \<and>
        (\<forall>(es, ee)\<in>set xs. es = ee \<or> p + PAGE_SIZE \<le> es \<or> ee \<le> p)}"

text \<open>An exclusion may start inside a page, which is then not usable; it must end at a page boundary.\<close>

definition excl_ok :: "(nat \<times> nat) list \<Rightarrow> bool" where
  "excl_ok xs \<longleftrightarrow> (\<forall>(es, ee)\<in>set xs. es \<le> ee \<and> PAGE_SIZE dvd ee)"

lemma finite_usable [simp]: "finite (usable cursor en xs)"
  by (rule finite_subset[of _ "{..<en}"]) (auto simp: usable_def PAGE_SIZE_def)

lemma range_pages_usable:
  assumes "PAGE_SIZE dvd addr"
  shows "range_pages addr en = mset_set (usable addr en [])"
proof -
  obtain a where a: "addr = PAGE_SIZE * a" using assms by (auto elim!: dvdE)
  have "usable addr en [] = (\<lambda>i. addr + PAGE_SIZE * i) ` {0..<(en - addr) div PAGE_SIZE}"
  proof (intro set_eqI iffI)
    fix p assume "p \<in> usable addr en []"
    then obtain q where "p = PAGE_SIZE * q" "a \<le> q" "PAGE_SIZE * q + PAGE_SIZE \<le> en"
      by (auto simp: usable_def a PAGE_SIZE_def elim!: dvdE)
    then show "p \<in> (\<lambda>i. addr + PAGE_SIZE * i) ` {0..<(en - addr) div PAGE_SIZE}"
      by (intro image_eqI[of _ _ "q - a"]) (auto simp: a PAGE_SIZE_def)
  qed (auto simp: usable_def a PAGE_SIZE_def)
  moreover have "inj_on (\<lambda>i. addr + PAGE_SIZE * i) {0..<(en - addr) div PAGE_SIZE}"
    by (auto simp: inj_on_def PAGE_SIZE_def)
  ultimately show ?thesis
    by (simp add: range_pages_def image_mset_mset_set[symmetric] mset_map mset_upt)
qed

lemma seg_pages_usable:
  assumes "PAGE_SIZE dvd cursor" "excl_ok xs" "sorted (map fst xs)"
  shows "seg_pages cursor en xs = mset_set (usable cursor en xs)"
  using assms
proof (induction xs arbitrary: cursor)
  case (Cons x xs)
  obtain es ee where x: "x = (es, ee)" by fastforce
  have e: "es \<le> ee" "PAGE_SIZE dvd ee" "\<forall>(s, e)\<in>set xs. es \<le> s" "excl_ok xs"
    using Cons.prems(2,3) x by (auto simp: excl_ok_def)
  have IH: "seg_pages c en xs = mset_set (usable c en xs)" if "PAGE_SIZE dvd c" for c
    using Cons that by (auto simp: excl_ok_def)
  show ?case
  proof (cases "es = ee")
    case True
    then have "usable cursor en (x # xs) = usable cursor en xs" by (auto simp: usable_def x)
    then show ?thesis using IH[OF Cons.prems(1)] True x by simp
  next
    case False
    have "usable cursor en (x # xs) = usable cursor (min es en) [] \<union> usable (max cursor ee) en xs"
      using e(1,3) False by (fastforce simp: usable_def x)
    moreover have "usable cursor (min es en) [] \<inter> usable (max cursor ee) en xs = {}"
      using e(1) by (auto simp: usable_def PAGE_SIZE_def)
    moreover have "range_pages cursor (min es en) = mset_set (usable cursor (min es en) [])"
      using Cons.prems(1) by (rule range_pages_usable)
    moreover have "seg_pages (max cursor ee) en xs = mset_set (usable (max cursor ee) en xs)"
      using e(2) Cons.prems(1) by (intro IH) (auto simp: max_def)
    ultimately show ?thesis
      using False x by (simp add: mset_set_Union)
  qed
qed (simp add: range_pages_usable)

lemma add_skipping_spec:
  assumes "bd b fl (R + seg_pages cursor en xs) U 0" "PAGE_SIZE dvd cursor" "excl_ok xs"
  shows "\<exists>fl'. bd (add_skipping cursor en xs b) fl' R U 0 \<and> same_range (add_skipping cursor en xs b) b"
  using assms
proof (induction cursor en xs b arbitrary: fl rule: add_skipping.induct)
  case (1 cursor en b)
  then show ?case
    using add_aligned_blocks_spec[of b fl R cursor en U] by (auto simp: range_pages_def)
next
  case (2 cursor en es ee xs b)
  show ?case
  proof (cases "es = ee")
    case True
    then show ?thesis using "2.IH"(1)[OF True] "2.prems" by (auto simp: excl_ok_def)
  next
    case False
    define b1 where "b1 = (if cursor < es \<and> cursor < en then add_aligned_blocks cursor (min es en) b else b)"
    have al: "PAGE_SIZE dvd ee" "excl_ok xs"
      using "2.prems"(3) by (auto simp: excl_ok_def)
    have "bd b fl ((R + seg_pages (max cursor ee) en xs) + range_pages cursor (min es en)) U 0"
      using "2.prems"(1) False by (simp add: ac_simps)
    then have "\<exists>fl1. bd b1 fl1 (R + seg_pages (max cursor ee) en xs) U 0 \<and> same_range b1 b"
    proof (cases "cursor < es \<and> cursor < en")
      case True
      then show ?thesis
        using add_aligned_blocks_spec[of b fl "R + seg_pages (max cursor ee) en xs" cursor "min es en" U]
          \<open>bd b fl ((R + seg_pages (max cursor ee) en xs) + range_pages cursor (min es en)) U 0\<close> "2.prems"(2)
        by (simp add: b1_def min_def split: if_splits)
    next
      case False
      then have "range_pages cursor (min es en) = {#}" by (auto simp: range_pages_def min_def)
      then show ?thesis
        using \<open>bd b fl ((R + seg_pages (max cursor ee) en xs) + range_pages cursor (min es en)) U 0\<close> False
        by (auto simp: b1_def)
    qed
    then obtain fl1 where f1: "bd b1 fl1 (R + seg_pages (max cursor ee) en xs) U 0" "same_range b1 b" by blast
    have "PAGE_SIZE dvd max cursor ee" using al "2.prems"(2) by (simp add: max_def)
    from "2.IH"(2)[OF False b1_def f1(1) this al(2)] f1(2)
    show ?thesis
      using False by (auto simp: b1_def Let_def intro: same_range_trans)
  qed
qed

section \<open>The life of an allocator\<close>

text \<open>
  \<open>al\<close> is the multiset of blocks handed out and not yet freed. The contract a client of a page
  allocator relies on is the locale \<open>page_allocator\<close>; \<open>bytes_of\<close> is the memory of a block.
\<close>

definition bytes_of :: "nat \<times> nat \<Rightarrow> nat set" where
  "bytes_of blk = {fst blk..<fst blk + PAGE_SIZE * 2 ^ snd blk}"

definition alloc_mset :: "(nat \<times> nat) multiset \<Rightarrow> nat multiset" where
  "alloc_mset al = (\<Sum>(a, order)\<in>#al. blk_pages a order)"

lemma alloc_mset_simps [simp]:
  "alloc_mset {#} = {#}" "alloc_mset (add_mset (a, order) al) = alloc_mset al + blk_pages a order"
  by (simp_all add: alloc_mset_def add.commute)

definition buddy_inv :: "nat set \<Rightarrow> BuddyAllocator \<Rightarrow> (nat \<times> nat) multiset \<Rightarrow> bool" where
  "buddy_inv U b al \<longleftrightarrow>
     initialized b \<and> (\<forall>blk\<in>#al. snd blk \<le> MAX_ORDER) \<and> (\<exists>fl. bd b fl (alloc_mset al) U 0)"

lemma buddy_inv_alloc:
  assumes "buddy_inv U b al" "alloc_pages order b = (Some a, b')"
  shows "buddy_inv U b' (add_mset (a, order) al)"
proof -
  obtain fl where "bd b fl (alloc_mset al) U 0" using assms(1) by (auto simp: buddy_inv_def)
  from alloc_pages_spec[OF this, of order]
  show ?thesis
    using assms by (auto simp: buddy_inv_def same_range_def)
qed

lemma buddy_inv_alloc_None:
  assumes "buddy_inv U b al" "alloc_pages order b = (None, b')"
  shows "b' = b"
proof -
  obtain fl where "bd b fl (alloc_mset al) U 0" using assms(1) by (auto simp: buddy_inv_def)
  from alloc_pages_spec[OF this, of order] show ?thesis using assms(2) by simp
qed

lemma buddy_inv_free:
  assumes "buddy_inv U b (add_mset (a, order) al)" "mem b a mod 2 ^ 32 \<noteq> POISON_PATTERN"
  shows "\<exists>b'. free_pages a order b = Some b' \<and> buddy_inv U b' al"
proof -
  obtain fl where "bd b fl (alloc_mset al + blk_pages a order) U 0" "order \<le> MAX_ORDER" "initialized b"
    using assms(1) by (auto simp: buddy_inv_def)
  from free_pages_spec[OF this assms(2)]
  show ?thesis using assms(1) by (auto simp: buddy_inv_def same_range_def)
qed

lemma free_pages_poisoned: "initialized b \<Longrightarrow> mem b a mod 2 ^ 32 = POISON_PATTERN \<Longrightarrow> free_pages a order b = None"
  by (simp add: free_pages_def)

lemma buddy_inv_free_Some:
  assumes "buddy_inv U b (add_mset (a, order) al)" "free_pages a order b = Some b'"
  shows "buddy_inv U b' al"
  using buddy_inv_free[OF assms(1)] assms free_pages_poisoned[of b a order] by (auto simp: buddy_inv_def)

text \<open>A block's owner may write to it: no free list runs through it.\<close>

lemma buddy_inv_write:
  assumes "buddy_inv U b al" "blk \<in># al" "w \<in> bytes_of blk"
  shows "buddy_inv U (b\<lparr>mem := (mem b)(w := v)\<rparr>) al"
proof -
  obtain fl where fl: "bd b fl (alloc_mset al) U 0" using assms(1) by (auto simp: buddy_inv_def)
  obtain al' where "al = add_mset blk al'" using assms(2) by (auto dest: multi_member_split)
  then have m: "alloc_mset al = alloc_mset al' + blk_pages (fst blk) (snd blk)" by (cases blk) simp
  have "w \<notin> set (fl order)" if o: "order \<le> MAX_ORDER" for order
  proof
    assume w: "w \<in> set (fl order)"
    have "PAGE_SIZE dvd w" "PAGE_SIZE dvd fst blk"
      using bd_node_in_U[OF fl o w] bd_in_U[OF fl, of "fst blk"] fl m by (auto simp: bd_def page_set_def mod_eq_0_iff_dvd)
    then obtain i where "w - fst blk = PAGE_SIZE * i"
      using dvd_diff_nat by (blast elim: dvdE)
    then have "w = fst blk + PAGE_SIZE * i" "i < 2 ^ snd blk"
      using assms(3) by (auto simp: bytes_of_def PAGE_SIZE_def)
    then have "w \<in># alloc_mset al" by (auto simp: m in_blk_pages)
    then show False using bd_notin[OF fl _ o] w by blast
  qed
  then have "bd (b\<lparr>mem := (mem b)(w := v)\<rparr>) fl (alloc_mset al) U 0"
    using fl by (simp add: bd_def lists_ok_def page_set_def)
  then show ?thesis using assms(1) by (auto simp: buddy_inv_def)
qed

lemma buddy_inv_disjoint:
  assumes "buddy_inv U b al" "al = add_mset x (add_mset y al')"
  shows "bytes_of x \<inter> bytes_of y = {}"
proof (rule ccontr)
  assume "bytes_of x \<inter> bytes_of y \<noteq> {}"
  then obtain w where w: "w \<in> bytes_of x" "w \<in> bytes_of y" by blast
  obtain fl where fl: "bd b fl (alloc_mset al) U 0" using assms(1) by (auto simp: buddy_inv_def)
  have m: "alloc_mset al = alloc_mset al' + blk_pages (fst x) (snd x) + blk_pages (fst y) (snd y)"
    by (cases x; cases y) (simp add: assms(2) ac_simps)
  define p where "p = w div PAGE_SIZE * PAGE_SIZE"
  have page: "p \<in># blk_pages (fst z) (snd z)" if z: "w \<in> bytes_of z" "fst z \<in># alloc_mset al" for z
  proof -
    have "fst z mod PAGE_SIZE = 0"
      using bd_in_U[OF fl z(2)] fl by (simp add: bd_def page_set_def)
    then obtain q where q: "fst z = PAGE_SIZE * q" by (auto simp: mod_eq_0_iff_dvd elim!: dvdE)
    have "PAGE_SIZE * q \<le> w" "w < PAGE_SIZE * (q + 2 ^ snd z)"
      using z(1) by (auto simp: bytes_of_def q algebra_simps)
    then have "q \<le> w div PAGE_SIZE" "w div PAGE_SIZE < q + 2 ^ snd z"
      by (auto simp: PAGE_SIZE_def less_mult_imp_div_less mult.commute)
    then show ?thesis
      by (auto simp: in_blk_pages q p_def intro!: exI[of _ "w div PAGE_SIZE - q"] simp: algebra_simps)
  qed
  have "p \<in># blk_pages (fst x) (snd x)" "p \<in># blk_pages (fst y) (snd y)"
    using page[OF w(1)] page[OF w(2)] by (simp_all add: m)
  moreover have "mset_set U = free_mset fl + alloc_mset al' + (blk_pages (fst x) (snd x) + blk_pages (fst y) (snd y))"
    using fl by (simp add: bd_def m ac_simps)
  then have "blk_pages (fst x) (snd x) + blk_pages (fst y) (snd y) \<subseteq># mset_set U"
    by (simp only: mset_subset_eq_add_right)
  ultimately show False by (rule blocks_disjoint[rotated])
qed

lemma usable_cong: "set xs = set ys \<Longrightarrow> usable c en xs = usable c en ys"
  by (simp add: usable_def)

lemma buddy_inv_init:
  assumes "0 < bse" "PAGE_SIZE dvd bse" "PAGE_SIZE dvd en" "excl_ok [e1, e2]"
  shows "buddy_inv (usable bse en [(bse, bse + bitmap_page_count bse en * PAGE_SIZE), e1, e2])
    (init_with_range_excluding bse en e1 e2 (buddy_new ram bmp)) {#}"
proof -
  let ?bx = "(bse, bse + bitmap_page_count bse en * PAGE_SIZE)"
  let ?xs = "sort_key fst [?bx, e1, e2]"
  define b1 where "b1 = init_header bse en (buddy_new ram bmp)"
  define U where "U = usable bse en ?xs"
  have "finite U" unfolding U_def by (rule finite_usable)
  moreover have "bse \<le> p \<and> p + PAGE_SIZE \<le> en \<and> PAGE_SIZE dvd p" if "p \<in> U" for p
    using that unfolding U_def usable_def by blast
  ultimately have "page_set b1 U"
    using assms(1) by (auto simp: page_set_def b1_def init_header_def Let_def mod_eq_0_iff_dvd)
  then have "bd b1 (\<lambda>_. []) (mset_set U) U 0"
    by (intro bd_empty) (simp_all add: b1_def init_header_def buddy_new_def Let_def)
  moreover have xok: "excl_ok ?xs"
    using assms(2,4) by (simp add: excl_ok_def)
  then have "seg_pages bse en ?xs = mset_set U"
    unfolding U_def by (intro seg_pages_usable assms(2) sorted_sort_key)
  ultimately have "bd b1 (\<lambda>_. []) ({#} + seg_pages bse en ?xs) U 0" by simp
  from add_skipping_spec[OF this assms(2) xok]
  obtain fl where "bd (add_skipping bse en ?xs b1) fl {#} U 0" by blast
  then have "bd ((add_skipping bse en ?xs b1)\<lparr>initialized := True\<rparr>) fl {#} U 0"
    by (simp add: bd_def lists_ok_def page_set_def)
  moreover have "init_with_range_excluding bse en e1 e2 (buddy_new ram bmp) =
      (add_skipping bse en ?xs b1)\<lparr>initialized := True\<rparr>"
    by (simp add: init_with_range_excluding_def add_region_excluding3_def b1_def init_header_def Let_def
        del: sort_key_simps)
  moreover have "U = usable bse en [?bx, e1, e2]"
    unfolding U_def by (rule usable_cong) (simp only: set_sort)
  ultimately show ?thesis by (auto simp: buddy_inv_def simp del: sort_key_simps)
qed

section \<open>The contract of a page allocator\<close>

text \<open>
  What the users of a page allocator rely on, with \<open>al\<close> the multiset of blocks (address and
  order) handed out and not yet returned: an allocation adds its block and nothing else, a
  refused one changes nothing, a block may be written by its owner, blocks do not overlap and
  lie in the managed region, and no page is lost. \<open>client_reach\<close> is the life of an allocator
  under a client that returns only blocks it owns and writes only to them.
\<close>

definition write_word :: "nat \<Rightarrow> nat \<Rightarrow> BuddyAllocator \<Rightarrow> BuddyAllocator" where
  "write_word w v b = b\<lparr>mem := (mem b)(w := v)\<rparr>"

inductive client_reach ::
  "('p \<Rightarrow> nat \<Rightarrow> 's \<Rightarrow> nat option \<times> 's) \<Rightarrow> (nat \<Rightarrow> nat \<Rightarrow> 's \<Rightarrow> 's option) \<Rightarrow> (nat \<Rightarrow> nat \<Rightarrow> 's \<Rightarrow> 's) \<Rightarrow>
     's \<Rightarrow> 's \<Rightarrow> (nat \<times> nat) multiset \<Rightarrow> bool"
  for alloc fre writ s0 where
  client_start: "client_reach alloc fre writ s0 s0 {#}"
| client_alloc: "client_reach alloc fre writ s0 s al \<Longrightarrow> alloc p order s = (Some a, s') \<Longrightarrow>
    client_reach alloc fre writ s0 s' (add_mset (a, order) al)"
| client_refused: "client_reach alloc fre writ s0 s al \<Longrightarrow> alloc p order s = (None, s') \<Longrightarrow>
    client_reach alloc fre writ s0 s' al"
| client_free: "client_reach alloc fre writ s0 s (add_mset (a, order) al) \<Longrightarrow> fre a order s = Some s' \<Longrightarrow>
    client_reach alloc fre writ s0 s' al"
| client_write: "client_reach alloc fre writ s0 s al \<Longrightarrow> blk \<in># al \<Longrightarrow> w \<in> bytes_of blk \<Longrightarrow>
    client_reach alloc fre writ s0 (writ w v s) al"

locale page_allocator =
  fixes invar :: "'s \<Rightarrow> (nat \<times> nat) multiset \<Rightarrow> bool"
    and alloc :: "'p \<Rightarrow> nat \<Rightarrow> 's \<Rightarrow> nat option \<times> 's"
    and fre :: "nat \<Rightarrow> nat \<Rightarrow> 's \<Rightarrow> 's option"
    and writ :: "nat \<Rightarrow> nat \<Rightarrow> 's \<Rightarrow> 's"
    and free_total :: "'s \<Rightarrow> nat"
    and managed :: "nat set"
  assumes alloc_Some: "invar s al \<Longrightarrow> alloc p order s = (Some a, s') \<Longrightarrow> invar s' (add_mset (a, order) al)"
    and alloc_None: "invar s al \<Longrightarrow> alloc p order s = (None, s') \<Longrightarrow> s' = s"
    and free_Some: "invar s (add_mset (a, order) al) \<Longrightarrow> fre a order s = Some s' \<Longrightarrow> invar s' al"
    and write_owned: "invar s al \<Longrightarrow> blk \<in># al \<Longrightarrow> w \<in> bytes_of blk \<Longrightarrow> invar (writ w v s) al"
    and no_overlap: "invar s (add_mset x (add_mset y al)) \<Longrightarrow> bytes_of x \<inter> bytes_of y = {}"
    and in_managed: "invar s al \<Longrightarrow> blk \<in># al \<Longrightarrow> bytes_of blk \<subseteq> (\<Union>p\<in>managed. {p..<p + PAGE_SIZE})"
    and accounting: "invar s al \<Longrightarrow> free_total s + (\<Sum>(a, order)\<in>#al. 2 ^ order) = card managed"
begin

lemma reach_invar:
  assumes "client_reach alloc fre writ s0 s al" "invar s0 {#}"
  shows "invar s al"
  using assms
proof (induction rule: client_reach.induct)
  case (client_refused s al p order s')
  then show ?case using alloc_None by blast
qed (blast intro: alloc_Some free_Some write_owned)+

lemma reach_safe:
  assumes "client_reach alloc fre writ s0 s (add_mset x al)" "invar s0 {#}"
  shows "bytes_of x \<subseteq> (\<Union>p\<in>managed. {p..<p + PAGE_SIZE}) \<and> (\<forall>y\<in>#al. bytes_of x \<inter> bytes_of y = {})"
proof -
  note inv = reach_invar[OF assms]
  have "bytes_of x \<inter> bytes_of y = {}" if y: "y \<in># al" for y
  proof -
    obtain al' where "al = add_mset y al'" using y by (auto dest: multi_member_split)
    then show ?thesis using inv no_overlap by blast
  qed
  then show ?thesis using in_managed[OF inv, of x] by simp
qed

lemma reach_accounting:
  assumes "client_reach alloc fre writ s0 s al" "invar s0 {#}"
  shows "free_total s + (\<Sum>(a, order)\<in>#al. 2 ^ order) = card managed"
  using reach_invar[OF assms] by (rule accounting)

text \<open>When everything has been returned, everything is free again.\<close>

lemma reach_no_leak:
  assumes "client_reach alloc fre writ s0 s {#}" "invar s0 {#}"
  shows "free_total s = free_total s0"
  using accounting[OF reach_invar[OF assms]] accounting[OF assms(2)] by simp

end

section \<open>The buddy allocator keeps the contract\<close>

lemma buddy_inv_in_range:
  assumes "buddy_inv U b al" "blk \<in># al"
  shows "bytes_of blk \<subseteq> (\<Union>p\<in>U. {p..<p + PAGE_SIZE})"
proof
  fix w assume w: "w \<in> bytes_of blk"
  obtain fl where fl: "bd b fl (alloc_mset al) U 0" using assms(1) by (auto simp: buddy_inv_def)
  obtain al' where "al = add_mset blk al'" using assms(2) by (auto dest: multi_member_split)
  then have m: "alloc_mset al = alloc_mset al' + blk_pages (fst blk) (snd blk)" by (cases blk) simp
  define i where "i = (w - fst blk) div PAGE_SIZE"
  have "w - fst blk < PAGE_SIZE * 2 ^ snd blk" "fst blk \<le> w" using w by (auto simp: bytes_of_def)
  then have i: "i < 2 ^ snd blk" "fst blk + PAGE_SIZE * i \<le> w" "w < fst blk + PAGE_SIZE * i + PAGE_SIZE"
    unfolding i_def by (auto simp: PAGE_SIZE_def less_mult_imp_div_less mult.commute)
  then have "fst blk + PAGE_SIZE * i \<in># alloc_mset al" by (auto simp: m in_blk_pages)
  then show "w \<in> (\<Union>p\<in>U. {p..<p + PAGE_SIZE})" using bd_in_U[OF fl] i by fastforce
qed

lemma size_alloc_mset: "size (alloc_mset al) = (\<Sum>(a, order)\<in>#al. 2 ^ order)"
  by (induction al) (auto simp: blk_pages_def)

lemma buddy_inv_accounting:
  assumes "buddy_inv U b al"
  shows "total_free b + (\<Sum>(a, order)\<in>#al. 2 ^ order) = card U"
proof -
  obtain fl where fl: "bd b fl (alloc_mset al) U 0" using assms by (auto simp: buddy_inv_def)
  then have "size (free_mset fl) + size (alloc_mset al) = size (mset_set U)"
    by (metis bd_def size_union)
  then show ?thesis using fl by (simp add: bd_def size_alloc_mset)
qed

abbreviation buddy_alloc :: "unit \<Rightarrow> nat \<Rightarrow> BuddyAllocator \<Rightarrow> nat option \<times> BuddyAllocator" where
  "buddy_alloc _ \<equiv> alloc_pages"

interpretation bud: page_allocator "buddy_inv U" buddy_alloc free_pages write_word total_free U for U
proof
  show "bytes_of x \<inter> bytes_of y = {}" if "buddy_inv U s (add_mset x (add_mset y al))" for s x y al
    using buddy_inv_disjoint[OF that refl] .
qed (auto intro: buddy_inv_alloc buddy_inv_alloc_None buddy_inv_free_Some buddy_inv_accounting
      buddy_inv_write dest: buddy_inv_in_range simp: write_word_def)

section \<open>The bitmap\<close>

definition bit_offset :: "nat \<Rightarrow> nat \<Rightarrow> nat" where
  "bit_offset tot order = sum_list (map (\<lambda>k. div_ceil tot (2 ^ (k + 1))) [0..<order])"

lemma bit_offset_Suc: "bit_offset tot (Suc order) = bit_offset tot order + div_ceil tot (2 ^ (order + 1))"
  by (simp add: bit_offset_def)

lemma bit_offset_mono: "i \<le> j \<Longrightarrow> bit_offset tot i \<le> bit_offset tot j"
  by (induction j) (auto simp: bit_offset_Suc le_Suc_eq)

lemma div_ceil_mult: "0 < b \<Longrightarrow> a \<le> div_ceil a b * b"
  using dividend_less_times_div[of b "a + b - 1"] by (simp add: div_ceil_def mult.commute)

lemma div_less_div_ceil: "0 < b \<Longrightarrow> p < tot \<Longrightarrow> p div b < div_ceil tot b"
  using div_ceil_mult[of b tot] by (simp add: less_mult_imp_div_less)

definition bit_pos :: "nat \<Rightarrow> nat \<Rightarrow> nat \<Rightarrow> nat" where
  "bit_pos tot pfn order = bit_offset tot order + pfn div 2 ^ (order + 1)"

lemma bit_pos_less: "pfn < tot \<Longrightarrow> bit_pos tot pfn order < bit_offset tot (Suc order)"
  using div_less_div_ceil[of "2 ^ (order + 1)" pfn tot] by (simp add: bit_pos_def bit_offset_Suc)

lemma bit_pos_inject:
  assumes "pfn < tot" "pfn' < tot" "bit_pos tot pfn order = bit_pos tot pfn' order'"
  shows "order = order' \<and> pfn div 2 ^ (order + 1) = pfn' div 2 ^ (order + 1)"
proof -
  have "bit_pos tot p o1 < bit_pos tot p' o2" if "p < tot" "o1 < o2" for p p' o1 o2
  proof -
    have "bit_pos tot p o1 < bit_offset tot (Suc o1)" using that(1) by (rule bit_pos_less)
    also have "\<dots> \<le> bit_offset tot o2" using that(2) by (intro bit_offset_mono) simp
    also have "\<dots> \<le> bit_pos tot p' o2" by (simp add: bit_pos_def)
    finally show ?thesis .
  qed
  then have "order = order'" using assms by (metis linorder_neqE_nat less_irrefl)
  then show ?thesis using assms(3) by (simp add: bit_pos_def)
qed

lemma bitmap_index_pos:
  "bitmap_index b addr order =
     (let n = bit_pos ((bd_end b - bd_base b) div PAGE_SIZE) ((addr - bd_base b) div PAGE_SIZE) order
      in (n div 8, n mod 8))"
  by (simp add: bitmap_index_def bit_pos_def bit_offset_def Let_def)

lemma bitmap_bits_fit:
  assumes "n < bit_offset ((en - bse) div PAGE_SIZE) (Suc MAX_ORDER)"
  shows "n div 8 < bitmap_page_count bse en * PAGE_SIZE"
proof -
  let ?bits = "bit_offset ((en - bse) div PAGE_SIZE) (Suc MAX_ORDER)"
  have "n div 8 < div_ceil ?bits 8" using assms by (intro div_less_div_ceil) simp_all
  also have "\<dots> \<le> bitmap_page_count bse en * PAGE_SIZE"
    using div_ceil_mult[of PAGE_SIZE "div_ceil ?bits 8"]
    by (simp add: bitmap_page_count_def bit_offset_def Let_def PAGE_SIZE_def)
  finally show ?thesis .
qed

lemma div_mod_8_eq: "m div 8 = n div 8 \<and> m mod 8 = n mod 8 \<longleftrightarrow> m = (n :: nat)"
  by (metis div_mult_mod_eq)

text \<open>
  C34. The coalescing bitmap: for every block address in the managed range and every order, the
  bit that \<open>bitmap_toggle\<close> flips lies in the pages \<open>init\<close> reserved for the bitmap, and two
  blocks share a bit only if they are of the same order and belong to the same buddy pair.
\<close>

theorem bitmap_bits_separate:
  assumes "bd_base b = bse" "bd_end b = en" "PAGE_SIZE dvd bse" "PAGE_SIZE dvd en"
    and "bse \<le> a" "a < en" "order \<le> MAX_ORDER" "bse \<le> a'" "a' < en" "order' \<le> MAX_ORDER"
  shows "fst (bitmap_index b a order) < bitmap_page_count bse en * PAGE_SIZE \<and>
    (bitmap_index b a order = bitmap_index b a' order' \<longleftrightarrow>
      order = order' \<and> (a - bse) div (PAGE_SIZE * 2 ^ (order + 1)) = (a' - bse) div (PAGE_SIZE * 2 ^ (order + 1)))"
proof (rule conjI)
  define tot where "tot = (en - bse) div PAGE_SIZE"
  have pfn: "(x - bse) div PAGE_SIZE < tot" if "bse \<le> x" "x < en" for x
  proof -
    obtain q where "en - bse = PAGE_SIZE * q" using assms(3,4) dvd_diff_nat by (blast elim: dvdE)
    then show ?thesis using that unfolding tot_def by (simp add: PAGE_SIZE_def)
  qed
  note p = pfn[OF assms(5,6)] and p' = pfn[OF assms(8,9)]
  have "bit_pos tot ((a - bse) div PAGE_SIZE) order < bit_offset tot (Suc MAX_ORDER)"
    using bit_pos_less[OF p, of order] bit_offset_mono[of "Suc order" "Suc MAX_ORDER" tot] assms(7) by simp
  then show "fst (bitmap_index b a order) < bitmap_page_count bse en * PAGE_SIZE"
    using bitmap_bits_fit[of _ en bse] by (simp add: bitmap_index_pos assms(1,2) Let_def tot_def)
  have "bitmap_index b a order = bitmap_index b a' order' \<longleftrightarrow>
      bit_pos tot ((a - bse) div PAGE_SIZE) order = bit_pos tot ((a' - bse) div PAGE_SIZE) order'"
    by (simp add: bitmap_index_pos assms(1,2) Let_def tot_def div_mod_8_eq)
  also have "\<dots> \<longleftrightarrow> order = order' \<and>
      (a - bse) div PAGE_SIZE div 2 ^ (order + 1) = (a' - bse) div PAGE_SIZE div 2 ^ (order + 1)"
    using bit_pos_inject[OF p p'] by (metis bit_pos_def)
  finally show "bitmap_index b a order = bitmap_index b a' order' \<longleftrightarrow>
      order = order' \<and> (a - bse) div (PAGE_SIZE * 2 ^ (order + 1)) = (a' - bse) div (PAGE_SIZE * 2 ^ (order + 1))"
    by (simp only: div_mult2_eq)
qed

section \<open>Properties\<close>

text \<open>\<open>init_with_range\<close> is the excluding version with nothing to exclude.\<close>

lemma init_with_range_eq: "init_with_range bse en b = init_with_range_excluding bse en (0, 0) (0, 0) b"
proof -
  let ?b1 = "init_header bse en b"
  have "sort_key fst [(bse, e), (0, 0), (0, 0)] \<in> {[(bse, e), (0, 0), (0, 0)], [(0, 0), (0, 0), (bse, e)]}" for e
    by simp
  moreover have "add_aligned_blocks c en ?b1 = ?b1" if "\<not> c < en" for c
    using that by (subst add_aligned_blocks.simps) simp
  ultimately show ?thesis
    by (auto simp: init_with_range_def init_with_range_excluding_def add_region_excluding3_def Let_def)
qed

lemma usable_bytes:
  assumes "w \<in> (\<Union>p\<in>usable bse en xs. {p..<p + PAGE_SIZE})"
  shows "bse \<le> w \<and> w < en \<and> (\<forall>(es, ee)\<in>set xs. \<not> (es \<le> w \<and> w < ee))"
  using assms by (fastforce simp: usable_def)

abbreviation buddy_runs ::
  "nat \<Rightarrow> nat \<Rightarrow> nat \<times> nat \<Rightarrow> nat \<times> nat \<Rightarrow> BuddyAllocator \<Rightarrow> (nat \<times> nat) multiset \<Rightarrow> bool" where
  "buddy_runs bse en e1 e2 b al \<equiv>
     \<exists>ram bmp. client_reach buddy_alloc free_pages write_word
       (init_with_range_excluding bse en e1 e2 (buddy_new ram bmp)) b al"

text \<open>The conditions \<open>PagePools::init\<close> meets when it sets up a pool.\<close>

definition range_ok :: "nat \<Rightarrow> nat \<Rightarrow> nat \<times> nat \<Rightarrow> nat \<times> nat \<Rightarrow> bool" where
  "range_ok bse en e1 e2 \<longleftrightarrow> 0 < bse \<and> PAGE_SIZE dvd bse \<and> PAGE_SIZE dvd en \<and> excl_ok [e1, e2]"

definition pool_pages :: "nat \<Rightarrow> nat \<Rightarrow> nat \<times> nat \<Rightarrow> nat \<times> nat \<Rightarrow> nat set" where
  "pool_pages bse en e1 e2 = usable bse en [(bse, bse + bitmap_page_count bse en * PAGE_SIZE), e1, e2]"

lemma buddy_inv_start:
  "range_ok bse en e1 e2 \<Longrightarrow>
     buddy_inv (pool_pages bse en e1 e2) (init_with_range_excluding bse en e1 e2 (buddy_new ram bmp)) {#}"
  unfolding range_ok_def pool_pages_def by (intro buddy_inv_init) auto

lemma buddy_runs_inv:
  "range_ok bse en e1 e2 \<Longrightarrow> buddy_runs bse en e1 e2 b al \<Longrightarrow> buddy_inv (pool_pages bse en e1 e2) b al"
  using bud.reach_invar buddy_inv_start by blast

text \<open>
  C1. Memory safety of the buddy allocator. Under any client that frees and writes only blocks it
  owns, every block handed out lies inside the managed range, outside the allocator's own
  bitmap and outside the two excluded ranges (kernel image, memory map), and overlaps no other
  block that is in use.
\<close>

theorem buddy_blocks_safe:
  assumes "range_ok bse en e1 e2" "buddy_runs bse en e1 e2 b (add_mset x al)"
  shows "bytes_of x \<subseteq> {bse + bitmap_page_count bse en * PAGE_SIZE..<en} - {fst e1..<snd e1} - {fst e2..<snd e2} \<and>
    (\<forall>y\<in>#al. bytes_of x \<inter> bytes_of y = {})"
proof -
  obtain ram bmp where "client_reach buddy_alloc free_pages write_word
       (init_with_range_excluding bse en e1 e2 (buddy_new ram bmp)) b (add_mset x al)" using assms(2) by blast
  from bud.reach_safe[OF this buddy_inv_start[OF assms(1)]]
  have sub: "bytes_of x \<subseteq> (\<Union>p\<in>pool_pages bse en e1 e2. {p..<p + PAGE_SIZE})" and
    dis: "\<forall>y\<in>#al. bytes_of x \<inter> bytes_of y = {}" by auto
  have "w \<in> {bse + bitmap_page_count bse en * PAGE_SIZE..<en} - {fst e1..<snd e1} - {fst e2..<snd e2}"
    if w: "w \<in> bytes_of x" for w
  proof -
    have "w \<in> (\<Union>p\<in>pool_pages bse en e1 e2. {p..<p + PAGE_SIZE})" using sub w by (rule subsetD)
    from usable_bytes[OF this[unfolded pool_pages_def]]
    show ?thesis by (cases e1; cases e2) (simp add: range_ok_def not_less)
  qed
  then show ?thesis using dis by blast
qed

text \<open>
  C28. No page is lost or invented: at any moment of a run the number of free pages the allocator
  reports plus the pages in blocks handed out is the number of usable pages of the range.
\<close>

theorem buddy_conserves_pages:
  assumes "range_ok bse en e1 e2" "buddy_runs bse en e1 e2 b al"
  shows "total_free b + (\<Sum>(a, order)\<in>#al. 2 ^ order) = card (pool_pages bse en e1 e2)"
  using buddy_runs_inv[OF assms] by (rule buddy_inv_accounting)

text \<open>
  C29. Freeing returns: for a block in use whose first word is not the poison pattern, the
  double-free assertion passes, every free-list walk of the coalescing loop ends, and the
  result is the same allocator without that block in use.
\<close>

theorem buddy_free_returns:
  assumes "range_ok bse en e1 e2" "buddy_runs bse en e1 e2 b (add_mset (a, order) al)"
    and "mem b a mod 2 ^ 32 \<noteq> POISON_PATTERN"
  shows "\<exists>b'. free_pages a order b = Some b' \<and> buddy_runs bse en e1 e2 b' al"
proof -
  obtain b' where "free_pages a order b = Some b'"
    using buddy_inv_free[OF buddy_runs_inv[OF assms(1,2)] assms(3)] by blast
  then show ?thesis using assms(2) client_free[of buddy_alloc free_pages write_word] by blast
qed

text \<open>
  An allocation of a valid order fails only when every free list from that order up is empty,
  and a failed allocation changes nothing.
\<close>

theorem buddy_alloc_refused:
  assumes "range_ok bse en e1 e2" "buddy_runs bse en e1 e2 b al" "alloc_pages order b = (None, b')"
  shows "b' = b \<and> (\<forall>h. order \<le> h \<and> h \<le> MAX_ORDER \<longrightarrow> free_heads b ! h = 0 \<and> free_count b ! h = 0)"
proof -
  obtain fl where fl: "bd b fl (alloc_mset al) (pool_pages bse en e1 e2) 0"
    using buddy_runs_inv[OF assms(1,2)] by (auto simp: buddy_inv_def)
  have "fl h = []" if "order \<le> h" "h \<le> MAX_ORDER" for h
    using alloc_pages_spec[OF fl, of order] assms(3) that by auto
  then show ?thesis
    using alloc_pages_spec[OF fl, of order] assms(3) fl by (auto simp: bd_def lists_ok_def)
qed

text \<open>
  The double-free check never fires for a block that is on a free list: linking the block in
  overwrites the poison in its first word with the address of the next free block (or 0), which
  never equals the pattern.
\<close>

theorem free_block_passes_check:
  assumes "range_ok bse en e1 e2" "buddy_runs bse en e1 e2 b al" "order \<le> MAX_ORDER" "free_heads b ! order \<noteq> 0"
  shows "mem b (free_heads b ! order) mod 2 ^ 32 \<noteq> POISON_PATTERN"
proof -
  obtain fl where fl: "bd b fl (alloc_mset al) (pool_pages bse en e1 e2) 0"
    using buddy_runs_inv[OF assms(1,2)] by (auto simp: buddy_inv_def)
  then have "linked (mem b) (free_heads b ! order) (fl order)" using assms(3) by (auto simp: bd_def lists_ok_def)
  then obtain x xs where x: "fl order = x # xs" "x = free_heads b ! order" "linked (mem b) (mem b x) xs"
    using assms(4) by (cases "fl order") auto
  have "PAGE_SIZE dvd mem b x"
  proof (cases xs)
    case (Cons y ys)
    then have "y \<in> pool_pages bse en e1 e2" "mem b x = y" using bd_node_in_U[OF fl assms(3), of y] x by auto
    then show ?thesis by (simp add: pool_pages_def usable_def)
  qed (use x in simp)
  then obtain q where "mem b x = 4096 * q" by (auto simp: PAGE_SIZE_def)
  then have "even (mem b x mod 2 ^ 32)" by (simp add: dvd_mod_iff)
  then show ?thesis using x by (auto simp: POISON_PATTERN_def)
qed

subsection \<open>A concrete allocator\<close>

text \<open>Four pages at 1 MiB: one for the bitmap, a free page and a free block of two pages.\<close>

definition demo :: BuddyAllocator where
  "demo = init_with_range_excluding 0x100000 0x104000 (0, 0) (0, 0) (buddy_new (\<lambda>_. 0) (\<lambda>_. 0))"

lemma demo_bitmap: "bitmap_page_count 0x100000 0x104000 = 1"
proof -
  have "[0..<11] = [0, 1, 2, 3, 4, 5, 6, 7, 8, 9, 10 :: nat]" by (simp add: upt_rec[of _ 11])
  then show ?thesis by (simp add: bitmap_page_count_def MAX_ORDER_def PAGE_SIZE_def div_ceil_def del: upt_Suc)
qed

lemma fit_order_numeral:
  "fit_order addr en (numeral n) =
     (if addr mod (PAGE_SIZE * 2 ^ numeral n) = 0 \<and> addr + PAGE_SIZE * 2 ^ numeral n \<le> en then numeral n
      else fit_order addr en (pred_numeral n))"
  using fit_order.simps(2)[of addr en "pred_numeral n"] by (simp only: Let_def numeral_eq_Suc[of n, symmetric])

lemma demo_orders: "fit_order 0x101000 0x104000 10 = 0" "fit_order 0x102000 0x104000 10 = 1"
  by (simp_all add: fit_order_numeral PAGE_SIZE_def)

lemma demo_blocks:
  "add_aligned_blocks 0x101000 0x104000 b = push_block 0x102000 1 (push_block 0x101000 0 b)"
  by (simp add: add_aligned_blocks.simps[of "0x101000" "0x104000"] add_aligned_blocks.simps[of "0x102000" "0x104000"]
      add_aligned_blocks.simps[of "0x104000" "0x104000"] demo_orders MAX_ORDER_def PAGE_SIZE_def)

lemma demo_eq:
  "demo = (push_block 0x102000 1 (push_block 0x101000 0
     (init_header 0x100000 0x104000 (buddy_new (\<lambda>_. 0) (\<lambda>_. 0)))))\<lparr>initialized := True\<rparr>"
proof -
  have "bitmap_pages (init_header 0x100000 0x104000 b) = 1" for b by (simp add: init_header_def demo_bitmap Let_def)
  then show ?thesis
    by (simp add: demo_def init_with_range_excluding_def add_region_excluding3_def Let_def PAGE_SIZE_def demo_blocks)
qed

lemma demo_ok: "range_ok 0x100000 0x104000 (0, 0) (0, 0)"
  by (simp add: range_ok_def excl_ok_def PAGE_SIZE_def)

lemma demo_runs: "buddy_runs 0x100000 0x104000 (0, 0) (0, 0) demo {#}"
  unfolding demo_def by (blast intro: client_start)

lemma demo_heads:
  "free_heads demo = [0x101000, 0x102000, 0, 0, 0, 0, 0, 0, 0, 0, 0]" "mem demo 0x101000 = 0" "total_free demo = 3"
  "bd_base demo = 0x100000" "bd_end demo = 0x104000"
proof -
  have "replicate 11 (0 :: nat) = [0, 0, 0, 0, 0, 0, 0, 0, 0, 0, 0]" by (simp add: eval_nat_numeral)
  then show "free_heads demo = [0x101000, 0x102000, 0, 0, 0, 0, 0, 0, 0, 0, 0]" "mem demo 0x101000 = 0"
      "total_free demo = 3" "bd_base demo = 0x100000" "bd_end demo = 0x104000"
    by (simp_all add: demo_eq push_block_def init_header_def Let_def buddy_new_def MAX_ORDER_def)
qed

lemma demo_alloc: "\<exists>b. alloc_pages 0 demo = (Some 0x101000, b) \<and> mem b = mem demo"
  by (simp add: alloc_pages_def pop_block_def demo_heads sub_free_def bitmap_toggle_def Let_def split: prod.split)

lemma demo_alloc_runs:
  obtains b where "buddy_runs 0x100000 0x104000 (0, 0) (0, 0) b {#(0x101000, 0)#}" "mem b 0x101000 = 0"
proof -
  obtain b where b: "alloc_pages 0 demo = (Some 0x101000, b)" "mem b = mem demo" using demo_alloc by blast
  then have "buddy_runs 0x100000 0x104000 (0, 0) (0, 0) b {#(0x101000, 0)#}"
    using demo_runs client_alloc[of buddy_alloc free_pages write_word] by blast
  then show thesis using that b demo_heads by simp
qed

theorem buddy_blocks_safe_witness:
  "\<exists>b. buddy_runs 0x100000 0x104000 (0, 0) (0, 0) b {#(0x101000, 0)#} \<and> 
     bytes_of (0x101000, 0) \<subseteq> {0x101000..<0x104000}"
proof -
  obtain b where "buddy_runs 0x100000 0x104000 (0, 0) (0, 0) b {#(0x101000, 0)#}" by (rule demo_alloc_runs)
  then show ?thesis using buddy_blocks_safe[OF demo_ok, of b "(0x101000, 0)" "{#}"]
    by (auto simp: demo_bitmap PAGE_SIZE_def)
qed

theorem buddy_conserves_pages_witness:
  "3 + 0 = card (pool_pages 0x100000 0x104000 (0, 0) (0, 0))"
  using buddy_conserves_pages[OF demo_ok demo_runs] by (simp add: demo_heads)

theorem buddy_free_returns_witness:
  "\<exists>b b'. buddy_runs 0x100000 0x104000 (0, 0) (0, 0) b {#(0x101000, 0)#} \<and> free_pages 0x101000 0 b = Some b'"
proof -
  obtain b where b: "buddy_runs 0x100000 0x104000 (0, 0) (0, 0) b {#(0x101000, 0)#}" "mem b 0x101000 = 0"
    by (rule demo_alloc_runs)
  then show ?thesis using buddy_free_returns[OF demo_ok b(1)] by (auto simp: POISON_PATTERN_def)
qed

theorem buddy_alloc_refused_witness:
  "alloc_pages 4 demo = (None, demo) \<and> free_heads demo ! 6 = 0"
proof -
  have "[5..<11] = [5, 6, 7, 8, 9, 10 :: nat]" by (simp add: upt_rec[of _ 11])
  then have "alloc_pages 4 demo = (None, demo)"
    by (simp add: alloc_pages_def pop_block_def demo_heads MAX_ORDER_def del: upt_Suc)
  then show ?thesis using buddy_alloc_refused[OF demo_ok demo_runs, of 4 demo] by (simp add: MAX_ORDER_def)
qed

theorem free_block_passes_check_witness:
  "free_heads demo ! 0 = 0x101000 \<and> mem demo (free_heads demo ! 0) mod 2 ^ 32 \<noteq> POISON_PATTERN"
  using free_block_passes_check[OF demo_ok demo_runs, of 0] by (simp add: demo_heads)

theorem bitmap_bits_separate_witness:
  "bitmap_index demo 0x102000 0 = bitmap_index demo 0x103000 0 \<and> bitmap_index demo 0x101000 0 \<noteq> bitmap_index demo 0x102000 0"
  using bitmap_bits_separate[OF demo_heads(4,5), of "0x102000" 0 "0x103000" 0]
    bitmap_bits_separate[OF demo_heads(4,5), of "0x101000" 0 "0x102000" 0]
  by (simp add: PAGE_SIZE_def)

end
