(* ===== verification/Frame.thy ===== *)
theory Frame
  imports Buddy
begin

text \<open>
  The frame allocator: the four page pools (\<open>kernel/src/mm/pools.rs\<close>), the allocator over them
  and the Memory Kit's pressure report (\<open>kernel/src/mm/frame.rs\<close>), with pool sizing and pressure
  levels of \<open>shared/src/memory.rs\<close>. Each pool's \<open>mem\<close> holds the words of that pool's range. The
  pools together satisfy the contract \<open>page_allocator\<close>, which theory \<open>Buddy\<close> states and one buddy
  allocator satisfies.
\<close>

section \<open>Pool sizes and pressure\<close>

datatype Pool = PoolKernel | PoolUser | PoolModel | PoolDma

datatype MemoryPressure = PressureNormal | PressureLow | PressureCritical | PressureOom

fun pressure_rank :: "MemoryPressure \<Rightarrow> nat" where
  "pressure_rank PressureNormal = 0"
| "pressure_rank PressureLow = 1"
| "pressure_rank PressureCritical = 2"
| "pressure_rank PressureOom = 3"

definition from_free_ratio :: "nat \<Rightarrow> nat \<Rightarrow> MemoryPressure" where
  "from_free_ratio fre tot =
     (if tot = 0 then PressureOom
      else
        let percent = fre * 100 div tot in
        if percent > 20 then PressureNormal
        else if percent > 10 then PressureLow
        else if percent \<ge> 5 then PressureCritical
        else PressureOom)"

definition MIB :: nat where "MIB = 1024 * 1024"
definition GIB :: nat where "GIB = 1024 * MIB"

record PoolConfig =
  cfg_kernel :: nat
  cfg_model :: nat
  cfg_user :: nat
  cfg_dma :: nat
  cfg_reserved :: nat

definition from_total_ram :: "nat \<Rightarrow> PoolConfig" where
  "from_total_ram tot =
     (let (kern, model, dma, reserved) =
            (if tot < 4 * GIB then (128 * MIB, 0, 64 * MIB, 64 * MIB)
             else if tot < 8 * GIB then (256 * MIB, 2 * GIB, 128 * MIB, 128 * MIB)
             else if tot < 16 * GIB then (256 * MIB, 4 * GIB, 128 * MIB, 128 * MIB)
             else (256 * MIB, 8 * GIB, 128 * MIB, 128 * MIB));
          fixed = kern + model + dma + reserved
      in \<lparr>cfg_kernel = kern, cfg_model = model, cfg_user = tot - fixed, cfg_dma = dma, cfg_reserved = reserved\<rparr>)"

section \<open>Pools\<close>

record PagePools =
  pool_kernel :: BuddyAllocator
  pool_user :: BuddyAllocator
  pool_model :: "BuddyAllocator option"
  pool_dma :: BuddyAllocator

text \<open>A pool over \<open>[bse, en)\<close>: initialised unless the range is empty.\<close>

definition new_pool ::
  "(nat \<Rightarrow> nat) \<Rightarrow> (nat \<Rightarrow> u8) \<Rightarrow> nat \<Rightarrow> nat \<Rightarrow> nat \<times> nat \<Rightarrow> nat \<times> nat \<Rightarrow> BuddyAllocator" where
  "new_pool ram bmp bse en e1 e2 =
     (if bse < en then init_with_range_excluding bse en e1 e2 (buddy_new ram bmp) else buddy_new ram bmp)"

text \<open>The boundaries \<open>PagePools::init\<close> computes: ends of the DMA, kernel, model and reserved ranges.\<close>

definition pool_bounds :: "nat \<Rightarrow> nat \<Rightarrow> PoolConfig \<Rightarrow> nat \<times> nat \<times> nat \<times> nat" where
  "pool_bounds phys_start phys_end config =
     (let total_bytes = phys_end - phys_start;
          dma_size = min (cfg_dma config) total_bytes;
          kernel_size = min (cfg_kernel config) (total_bytes - dma_size);
          model_size = min (cfg_model config) (total_bytes - dma_size - kernel_size);
          reserved_size = min (cfg_reserved config) (total_bytes - dma_size - kernel_size - model_size);
          dma_end = phys_start + dma_size;
          kernel_end = dma_end + kernel_size;
          model_end = kernel_end + model_size;
          reserved_end = model_end + reserved_size
      in (dma_end, kernel_end, model_end, reserved_end))"

definition pools_init ::
  "(nat \<Rightarrow> nat) \<Rightarrow> (nat \<Rightarrow> u8) \<Rightarrow> nat \<Rightarrow> nat \<Rightarrow> PoolConfig \<Rightarrow> nat \<times> nat \<Rightarrow> nat \<times> nat \<Rightarrow> PagePools" where
  "pools_init ram bmp phys_start phys_end config e1 e2 =
     (case pool_bounds phys_start phys_end config of
        (dma_end, kernel_end, model_end, reserved_end) \<Rightarrow>
          \<lparr>pool_kernel = new_pool ram bmp dma_end kernel_end e1 e2,
           pool_user = new_pool ram bmp reserved_end phys_end e1 e2,
           pool_model = (if kernel_end < model_end then Some (new_pool ram bmp kernel_end model_end e1 e2) else None),
           pool_dma = new_pool ram bmp phys_start dma_end e1 e2\<rparr>)"

definition get_pool :: "Pool \<Rightarrow> PagePools \<Rightarrow> BuddyAllocator option" where
  "get_pool pool ps =
     (case pool of
        PoolKernel \<Rightarrow> Some (pool_kernel ps)
      | PoolUser \<Rightarrow> Some (pool_user ps)
      | PoolModel \<Rightarrow> pool_model ps
      | PoolDma \<Rightarrow> Some (pool_dma ps))"

text \<open>The write through \<open>get_mut\<close>.\<close>

definition set_pool :: "Pool \<Rightarrow> BuddyAllocator \<Rightarrow> PagePools \<Rightarrow> PagePools" where
  "set_pool pool b ps =
     (case pool of
        PoolKernel \<Rightarrow> ps\<lparr>pool_kernel := b\<rparr>
      | PoolUser \<Rightarrow> ps\<lparr>pool_user := b\<rparr>
      | PoolModel \<Rightarrow> ps\<lparr>pool_model := Some b\<rparr>
      | PoolDma \<Rightarrow> ps\<lparr>pool_dma := b\<rparr>)"

definition owns :: "BuddyAllocator \<Rightarrow> nat \<Rightarrow> bool" where
  "owns b addr \<longleftrightarrow> initialized b \<and> addr \<ge> bd_base b \<and> addr < bd_end b"

definition pool_for_addr :: "PagePools \<Rightarrow> nat \<Rightarrow> Pool option" where
  "pool_for_addr ps addr =
     (if owns (pool_kernel ps) addr then Some PoolKernel
      else if owns (pool_user ps) addr then Some PoolUser
      else case pool_model ps of
        Some m \<Rightarrow> if owns m addr then Some PoolModel
                  else if owns (pool_dma ps) addr then Some PoolDma else None
      | None \<Rightarrow> if owns (pool_dma ps) addr then Some PoolDma else None)"

definition pools_total_free :: "PagePools \<Rightarrow> nat" where
  "pools_total_free ps =
     total_free (pool_kernel ps) + total_free (pool_user ps) +
     (case pool_model ps of Some m \<Rightarrow> total_free m | None \<Rightarrow> 0) + total_free (pool_dma ps)"

section \<open>The frame allocator\<close>

record FrameAllocator =
  pools :: PagePools
  total_pages :: nat

definition fa_alloc_pages :: "Pool \<Rightarrow> nat \<Rightarrow> FrameAllocator \<Rightarrow> nat option \<times> FrameAllocator" where
  "fa_alloc_pages pool order fa =
     (case get_pool pool (pools fa) of
        None \<Rightarrow> (None, fa)
      | Some b \<Rightarrow> (case alloc_pages order b of (a, b') \<Rightarrow> (a, fa\<lparr>pools := set_pool pool b' (pools fa)\<rparr>)))"

text \<open>An address outside every pool is ignored (in debug builds it fails an assertion).\<close>

definition fa_free_pages :: "nat \<Rightarrow> nat \<Rightarrow> FrameAllocator \<Rightarrow> FrameAllocator option" where
  "fa_free_pages phys_addr order fa =
     (case pool_for_addr (pools fa) phys_addr of
        None \<Rightarrow> Some fa
      | Some pool \<Rightarrow>
          (case get_pool pool (pools fa) of
             None \<Rightarrow> Some fa
           | Some b \<Rightarrow>
               (case free_pages phys_addr order b of
                  None \<Rightarrow> None
                | Some b' \<Rightarrow> Some (fa\<lparr>pools := set_pool pool b' (pools fa)\<rparr>))))"

definition pool_free_pages :: "FrameAllocator \<Rightarrow> Pool \<Rightarrow> nat" where
  "pool_free_pages fa pool = (case get_pool pool (pools fa) of None \<Rightarrow> 0 | Some b \<Rightarrow> total_free b)"

definition pool_total_pages :: "FrameAllocator \<Rightarrow> Pool \<Rightarrow> nat" where
  "pool_total_pages fa pool =
     (case get_pool pool (pools fa) of
        Some b \<Rightarrow> if initialized b then (bd_end b - bd_base b) div PAGE_SIZE else 0
      | None \<Rightarrow> 0)"

text \<open>\<open>pressure\<close> of the allocator, and the kit's \<open>current_level\<close>: the worst of the initialised pools.\<close>

definition fa_pressure :: "FrameAllocator \<Rightarrow> MemoryPressure" where
  "fa_pressure fa =
     (let b = pool_user (pools fa);
          user_total = (if initialized b then (bd_end b - bd_base b) div PAGE_SIZE else 0)
      in from_free_ratio (total_free b) user_total)"

definition worse :: "MemoryPressure option \<Rightarrow> MemoryPressure \<Rightarrow> MemoryPressure" where
  "worse cur p = (case cur of Some c \<Rightarrow> if pressure_rank c \<ge> pressure_rank p then c else p | None \<Rightarrow> p)"

definition current_level :: "FrameAllocator option \<Rightarrow> MemoryPressure" where
  "current_level fa =
     (case fa of
        None \<Rightarrow> PressureOom
      | Some f \<Rightarrow>
          (case fold (\<lambda>pool worst. if pool_total_pages f pool = 0 then worst
                        else Some (worse worst (from_free_ratio (pool_free_pages f pool) (pool_total_pages f pool))))
                 [PoolKernel, PoolUser, PoolModel, PoolDma] None of
             Some p \<Rightarrow> p
           | None \<Rightarrow> PressureOom))"

text \<open>The user pool through the global \<open>FRAME_ALLOC\<close>, which is empty before memory is initialised.\<close>

definition alloc_user_pages :: "nat \<Rightarrow> FrameAllocator option \<Rightarrow> nat option \<times> FrameAllocator option" where
  "alloc_user_pages order g =
     (case g of
        None \<Rightarrow> (None, None)
      | Some fa \<Rightarrow> (case fa_alloc_pages PoolUser order fa of (a, fa') \<Rightarrow> (a, Some fa')))"

definition free_user_pages :: "nat \<Rightarrow> nat \<Rightarrow> FrameAllocator option \<Rightarrow> FrameAllocator option option" where
  "free_user_pages phys_addr order g =
     (case g of
        None \<Rightarrow> Some None
      | Some fa \<Rightarrow> map_option Some (fa_free_pages phys_addr order fa))"

section \<open>The pools keep the allocator contract\<close>

definition all_pools :: "Pool list" where
  "all_pools = [PoolKernel, PoolUser, PoolModel, PoolDma]"

lemma set_all_pools [simp]: "p \<in> set all_pools"
  by (cases p) (simp_all add: all_pools_def)

lemma UNIV_pools: "(UNIV :: Pool set) = set all_pools"
  by auto

lemma finite_pools [simp]: "finite (A :: Pool set)"
  by (rule finite_subset[of A "set all_pools"]) auto

text \<open>
  One pool with its pages \<open>U\<close> and the blocks \<open>al\<close> in use: a buddy allocator in its invariant, or
  an allocator that was never initialised and has nothing to give.
\<close>

definition pool_ok :: "nat set \<Rightarrow> BuddyAllocator \<Rightarrow> (nat \<times> nat) multiset \<Rightarrow> bool" where
  "pool_ok U b al \<longleftrightarrow>
     (if initialized b then buddy_inv U b al
      else U = {} \<and> al = {#} \<and> total_free b = 0 \<and> (\<forall>order \<le> MAX_ORDER. free_heads b ! order = 0))"

definition ranges_apart :: "PagePools \<Rightarrow> bool" where
  "ranges_apart ps \<longleftrightarrow>
     (\<forall>p q b c. p \<noteq> q \<longrightarrow> get_pool p ps = Some b \<longrightarrow> get_pool q ps = Some c \<longrightarrow>
        initialized b \<longrightarrow> initialized c \<longrightarrow> bd_end b \<le> bd_base c \<or> bd_end c \<le> bd_base b)"

definition frames_inv :: "(Pool \<Rightarrow> nat set) \<Rightarrow> FrameAllocator \<Rightarrow> (nat \<times> nat) multiset \<Rightarrow> bool" where
  "frames_inv U fa al \<longleftrightarrow>
     ranges_apart (pools fa) \<and>
     (\<exists>blks. al = (\<Sum>p\<in>UNIV. blks p) \<and>
        (\<forall>p. case get_pool p (pools fa) of
               None \<Rightarrow> U p = {} \<and> blks p = {#}
             | Some b \<Rightarrow> pool_ok (U p) b (blks p)))"

lemma get_set_pool [simp]:
  "get_pool p ps \<noteq> None \<Longrightarrow> get_pool q (set_pool p b ps) = (if p = q then Some b else get_pool q ps)"
  by (cases p; cases q) (auto simp: get_pool_def set_pool_def)

lemma sum_blks_add:
  "(\<Sum>q\<in>UNIV. (blks(p := add_mset x (blks p))) q) = add_mset x (\<Sum>q\<in>UNIV. blks q)" for p :: Pool
proof -
  have r: "(\<Sum>q\<in>UNIV. f q) = f p + (\<Sum>q\<in>UNIV - {p}. f q)" for f :: "Pool \<Rightarrow> 'a multiset"
    by (intro sum.remove) auto
  have "(\<Sum>q\<in>UNIV - {p}. (blks(p := add_mset x (blks p))) q) = (\<Sum>q\<in>UNIV - {p}. blks q)"
    by (intro sum.cong) auto
  then show ?thesis by (simp add: r[of "blks(p := add_mset x (blks p))"] r[of blks] del: fun_upd_apply) simp
qed

lemma in_sum_blks: "x \<in># (\<Sum>q\<in>UNIV. blks q) \<longleftrightarrow> (\<exists>p :: Pool. x \<in># blks p)"
proof -
  have "x \<in># (\<Sum>q\<in>A. blks q) \<longleftrightarrow> (\<exists>p\<in>A. x \<in># blks p)" if "finite A" for A :: "Pool set"
    using that by induction auto
  then show ?thesis by simp
qed

text \<open>Replacing one pool by another state of itself.\<close>

lemma frames_inv_update:
  assumes "ranges_apart (pools fa)" "get_pool p (pools fa) = Some b" "same_range b' b" "pool_ok (U p) b' B"
    and "\<forall>q. case get_pool q (pools fa) of None \<Rightarrow> U q = {} \<and> blks q = {#} | Some c \<Rightarrow> pool_ok (U q) c (blks q)"
    and "al = (\<Sum>q\<in>UNIV. (blks(p := B)) q)"
  shows "frames_inv U (fa\<lparr>pools := set_pool p b' (pools fa)\<rparr>) al"
proof -
  let ?ps = "set_pool p b' (pools fa)"
  have get: "get_pool q ?ps = (if p = q then Some b' else get_pool q (pools fa))" for q using assms(2) by simp
  have apart: "ranges_apart ?ps"
    unfolding ranges_apart_def get
  proof (intro allI impI, goal_cases)
    case (1 q r c d)
    define c0 where "c0 = (if p = q then b else c)"
    define d0 where "d0 = (if p = r then b else d)"
    have "get_pool q (pools fa) = Some c0" "get_pool r (pools fa) = Some d0"
      using 1 assms(2) by (auto simp: c0_def d0_def split: if_splits)
    moreover have same: "initialized c0 = initialized c" "initialized d0 = initialized d" "bd_base c0 = bd_base c" "bd_end c0 = bd_end c"
        "bd_base d0 = bd_base d" "bd_end d0 = bd_end d"
      using 1 assms(3) by (auto simp: c0_def d0_def same_range_def split: if_splits)
    ultimately have "bd_end c0 \<le> bd_base d0 \<or> bd_end d0 \<le> bd_base c0"
      using assms(1) 1 unfolding ranges_apart_def by blast
    then show ?case by (simp add: same)
  qed
  have ok: "case get_pool q ?ps of None \<Rightarrow> U q = {} \<and> (blks(p := B)) q = {#} | Some c \<Rightarrow> pool_ok (U q) c ((blks(p := B)) q)" for q
  proof (cases "p = q")
    case True
    then show ?thesis using assms(4) get[of q] by auto
  next
    case False
    then have "(blks(p := B)) q = blks q" "get_pool q ?ps = get_pool q (pools fa)" using get[of q] by simp_all
    then show ?thesis using assms(5)[rule_format, of q] by (simp only:)
  qed
  have ps: "pools (fa\<lparr>pools := ?ps\<rparr>) = ?ps" by simp
  show ?thesis
    unfolding frames_inv_def ps
    by (intro conjI exI[of _ "blks(p := B)"] allI apart assms(6)) (rule ok)
qed

lemma pool_uninit_None:
  assumes "\<not> initialized b" "pool_ok U b al"
  shows "alloc_pages order b = (None, b)"
proof -
  have h: "free_heads b ! h = 0" if "h \<le> MAX_ORDER" for h using assms that by (simp add: pool_ok_def)
  have "alloc_higher order hs b = (None, b)" if "\<forall>h\<in>set hs. h \<le> MAX_ORDER" for hs
    using that by (induction hs) (auto simp: pop_block_def h)
  then show ?thesis by (simp add: alloc_pages_def pop_block_def h)
qed

lemma pool_ok_alloc:
  assumes "pool_ok U b al" "alloc_pages order b = (r, b')"
  shows "same_range b' b" "case r of None \<Rightarrow> b' = b | Some a \<Rightarrow> pool_ok U b' (add_mset (a, order) al)"
proof -
  have "same_range b' b \<and> (case r of None \<Rightarrow> b' = b | Some a \<Rightarrow> pool_ok U b' (add_mset (a, order) al))"
  proof (cases "initialized b")
    case True
    then have inv: "buddy_inv U b al" using assms(1) by (simp add: pool_ok_def)
    then obtain fl where "bd b fl (alloc_mset al) U 0" by (auto simp: buddy_inv_def)
    from alloc_pages_spec[OF this, of order] have "same_range b' b"
      using assms(2) by (auto split: option.splits)
    then show ?thesis
      using buddy_inv_alloc[OF inv, of order] buddy_inv_alloc_None[OF inv, of order] assms(2) True
      by (auto simp: pool_ok_def same_range_def split: option.splits)
  qed (use assms pool_uninit_None in \<open>fastforce split: option.splits\<close>)
  then show "same_range b' b" "case r of None \<Rightarrow> b' = b | Some a \<Rightarrow> pool_ok U b' (add_mset (a, order) al)" by auto
qed

lemma set_pool_same [simp]: "get_pool p ps = Some b \<Longrightarrow> set_pool p b ps = ps"
  by (cases p) (auto simp: get_pool_def set_pool_def)

lemma frames_inv_alloc:
  assumes inv: "frames_inv U fa al" and a: "fa_alloc_pages p order fa = (r, fa')"
  shows "case r of None \<Rightarrow> fa' = fa | Some a \<Rightarrow> frames_inv U fa' (add_mset (a, order) al)"
proof -
  obtain blks where apart: "ranges_apart (pools fa)" and al: "al = (\<Sum>q\<in>UNIV. blks q)"
    and ok: "\<forall>q. case get_pool q (pools fa) of None \<Rightarrow> U q = {} \<and> blks q = {#} | Some c \<Rightarrow> pool_ok (U q) c (blks q)"
    using inv unfolding frames_inv_def by blast
  show ?thesis
  proof (cases "get_pool p (pools fa)")
    case None
    then show ?thesis using a by (clarsimp simp: fa_alloc_pages_def)
  next
    case (Some b)
    obtain b' where b': "alloc_pages order b = (r, b')" "fa' = fa\<lparr>pools := set_pool p b' (pools fa)\<rparr>"
      using a Some by (cases "alloc_pages order b") (simp add: fa_alloc_pages_def)
    have "pool_ok (U p) b (blks p)" using ok[rule_format, of p] Some by simp
    note pa = pool_ok_alloc[OF this b'(1)]
    show ?thesis
    proof (cases r)
      case None
      then show ?thesis using pa(2) b'(2) Some by simp
    next
      case (Some x)
      have sum: "add_mset (x, order) al = (\<Sum>q\<in>UNIV. (blks(p := add_mset (x, order) (blks p))) q)"
        by (simp only: sum_blks_add al)
      have "pool_ok (U p) b' (add_mset (x, order) (blks p))" using pa(2) Some by simp
      from frames_inv_update[OF apart \<open>get_pool p (pools fa) = Some b\<close> pa(1) this ok sum]
      show ?thesis using Some b'(2) by simp
    qed
  qed
qed

lemma owns_unique:
  assumes "ranges_apart ps" "get_pool p ps = Some b" "get_pool q ps = Some c" "owns b a" "owns c a"
  shows "p = q"
proof (rule ccontr)
  assume "p \<noteq> q"
  then have "bd_end b \<le> bd_base c \<or> bd_end c \<le> bd_base b"
    using assms unfolding ranges_apart_def owns_def by blast
  then show False using assms(4,5) by (auto simp: owns_def)
qed

lemma pool_for_addr_owner:
  assumes "ranges_apart ps" "get_pool p ps = Some b" "owns b a"
  shows "pool_for_addr ps a = Some p"
proof -
  have other: "q = p" if "get_pool q ps = Some c" "owns c a" for q c
    using owns_unique[OF assms(1) that(1) assms(2) that(2) assms(3)] .
  have k: "owns (pool_kernel ps) a \<longleftrightarrow> p = PoolKernel"
    using other[of PoolKernel] assms(2,3) by (auto simp: get_pool_def)
  have u: "owns (pool_user ps) a \<longleftrightarrow> p = PoolUser"
    using other[of PoolUser] assms(2,3) by (auto simp: get_pool_def)
  have d: "owns (pool_dma ps) a \<longleftrightarrow> p = PoolDma"
    using other[of PoolDma] assms(2,3) by (auto simp: get_pool_def)
  have m: "owns c a \<longleftrightarrow> p = PoolModel" if "pool_model ps = Some c" for c
    using other[of PoolModel] assms(2,3) that by (auto simp: get_pool_def)
  show ?thesis
    using assms(2) by (cases p) (auto simp: pool_for_addr_def k u d m get_pool_def split: option.split)
qed

lemma frames_inv_blocks:
  assumes "frames_inv U fa al"
  obtains blks where "al = (\<Sum>q\<in>UNIV. blks q)" "ranges_apart (pools fa)"
    "\<forall>q. case get_pool q (pools fa) of None \<Rightarrow> U q = {} \<and> blks q = {#} | Some c \<Rightarrow> pool_ok (U q) c (blks q)"
  using assms unfolding frames_inv_def by blast

lemma pool_ok_block:
  assumes "pool_ok U b al" "blk \<in># al"
  shows "initialized b" "buddy_inv U b al" "owns b (fst blk)"
proof -
  show i: "initialized b" using assms by (auto simp: pool_ok_def split: if_splits)
  then show inv: "buddy_inv U b al" using assms by (simp add: pool_ok_def)
  then obtain fl where fl: "bd b fl (alloc_mset al) U 0" by (auto simp: buddy_inv_def)
  obtain al' where "al = add_mset blk al'" using assms(2) by (auto dest: multi_member_split)
  then have "fst blk \<in># alloc_mset al" by (cases blk) simp
  then have "fst blk \<in> U" by (rule bd_in_U[OF fl])
  then show "owns b (fst blk)"
    using i fl by (auto simp: owns_def bd_def page_set_def PAGE_SIZE_def dest!: bspec[of _ _ "fst blk"])
qed

text \<open>The owner of a block among the pools.\<close>

lemma frames_inv_owner:
  assumes "frames_inv U fa al" "blk \<in># al"
  obtains blks p b where "al = (\<Sum>q\<in>UNIV. blks q)" "ranges_apart (pools fa)"
    "\<forall>q. case get_pool q (pools fa) of None \<Rightarrow> U q = {} \<and> blks q = {#} | Some c \<Rightarrow> pool_ok (U q) c (blks q)"
    "get_pool p (pools fa) = Some b" "blk \<in># blks p" "pool_ok (U p) b (blks p)" "pool_for_addr (pools fa) (fst blk) = Some p"
proof -
  obtain blks where f: "al = (\<Sum>q\<in>UNIV. blks q)" "ranges_apart (pools fa)"
    "\<forall>q. case get_pool q (pools fa) of None \<Rightarrow> U q = {} \<and> blks q = {#} | Some c \<Rightarrow> pool_ok (U q) c (blks q)"
    by (rule frames_inv_blocks[OF assms(1)])
  obtain p where p: "blk \<in># blks p" using assms(2) f(1) by (auto simp: in_sum_blks)
  obtain b where b: "get_pool p (pools fa) = Some b" "pool_ok (U p) b (blks p)"
    using f(3)[rule_format, of p] p by (cases "get_pool p (pools fa)") auto
  show thesis using that[OF f b(1) p b(2) pool_for_addr_owner[OF f(2) b(1) pool_ok_block(3)[OF b(2) p]]] .
qed

lemma frames_inv_free:
  assumes inv: "frames_inv U fa (add_mset (a, order) al)" and fr: "fa_free_pages a order fa = Some fa'"
  shows "frames_inv U fa' al"
proof -
  have "(a, order) \<in># add_mset (a, order) al" by simp
  from frames_inv_owner[OF inv this]
  obtain blks p b where f: "add_mset (a, order) al = (\<Sum>q\<in>UNIV. blks q)" "ranges_apart (pools fa)"
    "\<forall>q. case get_pool q (pools fa) of None \<Rightarrow> U q = {} \<and> blks q = {#} | Some c \<Rightarrow> pool_ok (U q) c (blks q)"
    "get_pool p (pools fa) = Some b" "(a, order) \<in># blks p" "pool_ok (U p) b (blks p)" "pool_for_addr (pools fa) a = Some p"
    by auto
  obtain B where B: "blks p = add_mset (a, order) B" using f(5) by (auto dest: multi_member_split)
  obtain b' where b': "free_pages a order b = Some b'" "fa' = fa\<lparr>pools := set_pool p b' (pools fa)\<rparr>"
    using fr f(4,7) by (auto simp: fa_free_pages_def split: option.splits)
  note pok = pool_ok_block[OF f(6,5)]
  have binv: "buddy_inv (U p) b' B" using buddy_inv_free_Some[OF _ b'(1)] pok(2) B by simp
  have np: "mem b a mod 2 ^ 32 \<noteq> POISON_PATTERN" using free_pages_poisoned[OF pok(1)] b'(1) by auto
  obtain fl where "bd b fl (alloc_mset B + blk_pages a order) (U p) 0" "order \<le> MAX_ORDER"
    using pok(2) by (auto simp: buddy_inv_def B)
  from free_pages_spec[OF this pok(1) np] have sr: "same_range b' b" using b'(1) by auto
  have ok': "pool_ok (U p) b' B" using binv by (simp add: pool_ok_def buddy_inv_def)
  define blks' where "blks' = blks(p := B)"
  have "blks = blks'(p := add_mset (a, order) (blks' p))" by (auto simp: blks'_def B)
  then have "add_mset (a, order) al = add_mset (a, order) (\<Sum>q\<in>UNIV. blks' q)"
    using f(1) sum_blks_add[of blks' p "(a, order)"] by simp
  then have "al = (\<Sum>q\<in>UNIV. (blks(p := B)) q)" by (simp add: blks'_def)
  from frames_inv_update[OF f(2,4) sr ok' f(3) this] show ?thesis by (simp only: b'(2))
qed

lemma sum_pools: "(\<Sum>p\<in>UNIV. f p) = f PoolKernel + f PoolUser + f PoolModel + f PoolDma"
  by (simp add: UNIV_pools all_pools_def add.assoc)

text \<open>A write to RAM, seen by the pool whose range has the word.\<close>

definition fa_write :: "nat \<Rightarrow> nat \<Rightarrow> FrameAllocator \<Rightarrow> FrameAllocator" where
  "fa_write w v fa =
     (case pool_for_addr (pools fa) w of
        None \<Rightarrow> fa
      | Some p \<Rightarrow>
          (case get_pool p (pools fa) of
             None \<Rightarrow> fa
           | Some b \<Rightarrow> fa\<lparr>pools := set_pool p (write_word w v b) (pools fa)\<rparr>))"

lemma pool_ok_page_owned:
  assumes "pool_ok U b al" "x \<in> U"
  shows "initialized b \<and> bd_base b \<le> x \<and> x + PAGE_SIZE \<le> bd_end b"
proof -
  have "initialized b" using assms by (auto simp: pool_ok_def split: if_splits)
  then show ?thesis using assms by (auto simp: pool_ok_def buddy_inv_def bd_def page_set_def)
qed

lemma pool_ok_bytes_owned:
  assumes "pool_ok U b al" "blk \<in># al" "w \<in> bytes_of blk"
  shows "owns b w"
proof -
  obtain x where "x \<in> U" "x \<le> w" "w < x + PAGE_SIZE"
    using buddy_inv_in_range[OF pool_ok_block(2)[OF assms(1,2)] assms(2)] assms(3) by auto
  then show ?thesis using pool_ok_page_owned[OF assms(1)] by (fastforce simp: owns_def)
qed

lemma frames_inv_write:
  assumes "frames_inv U fa al" "blk \<in># al" "w \<in> bytes_of blk"
  shows "frames_inv U (fa_write w v fa) al"
proof -
  obtain blks p b where f: "al = (\<Sum>q\<in>UNIV. blks q)" "ranges_apart (pools fa)"
    "\<forall>q. case get_pool q (pools fa) of None \<Rightarrow> U q = {} \<and> blks q = {#} | Some c \<Rightarrow> pool_ok (U q) c (blks q)"
    "get_pool p (pools fa) = Some b" "blk \<in># blks p" "pool_ok (U p) b (blks p)"
    "pool_for_addr (pools fa) (fst blk) = Some p"
    by (rule frames_inv_owner[OF assms(1,2)])
  have "pool_for_addr (pools fa) w = Some p"
    by (rule pool_for_addr_owner[OF f(2,4) pool_ok_bytes_owned[OF f(6,5) assms(3)]])
  then have eq: "fa_write w v fa = fa\<lparr>pools := set_pool p (write_word w v b) (pools fa)\<rparr>"
    using f(4) by (simp add: fa_write_def)
  have sr: "same_range (write_word w v b) b" by (simp add: same_range_def write_word_def)
  have "buddy_inv (U p) (write_word w v b) (blks p)"
    using buddy_inv_write[OF pool_ok_block(2)[OF f(6,5)] f(5) assms(3)] by (simp add: write_word_def)
  then have ok': "pool_ok (U p) (write_word w v b) (blks p)" by (simp add: pool_ok_def buddy_inv_def)
  have "al = (\<Sum>q\<in>UNIV. (blks(p := blks p)) q)" using f(1) by simp
  from frames_inv_update[OF f(2,4) sr ok' f(3) this] show ?thesis by (simp only: eq)
qed

lemma frames_inv_disjoint:
  assumes "frames_inv U fa (add_mset x (add_mset y al))"
  shows "bytes_of x \<inter> bytes_of y = {}"
proof -
  have "x \<in># add_mset x (add_mset y al)" by simp
  then obtain blks p b where f: "add_mset x (add_mset y al) = (\<Sum>q\<in>UNIV. blks q)" "ranges_apart (pools fa)"
    "\<forall>q. case get_pool q (pools fa) of None \<Rightarrow> U q = {} \<and> blks q = {#} | Some c \<Rightarrow> pool_ok (U q) c (blks q)"
    "get_pool p (pools fa) = Some b" "x \<in># blks p" "pool_ok (U p) b (blks p)"
    "pool_for_addr (pools fa) (fst x) = Some p"
    by (rule frames_inv_owner[OF assms])
  obtain B where B: "blks p = add_mset x B" using f(5) by (auto dest: multi_member_split)
  define blks' where "blks' = blks(p := B)"
  have "blks = blks'(p := add_mset x (blks' p))" by (auto simp: blks'_def B)
  then have "add_mset x (add_mset y al) = add_mset x (\<Sum>q\<in>UNIV. blks' q)"
    using f(1) sum_blks_add[of blks' p x] by simp
  then have "y \<in># (\<Sum>q\<in>UNIV. blks' q)" by (metis add_mset_remove_trivial union_single_eq_member)
  then obtain q where q: "y \<in># blks' q" by (auto simp: in_sum_blks)
  show ?thesis
  proof (cases "q = p")
    case True
    then obtain C where "B = add_mset y C" using q by (auto simp: blks'_def dest: multi_member_split)
    then show ?thesis using buddy_inv_disjoint[OF pool_ok_block(2)[OF f(6,5)]] B by simp
  next
    case False
    then have yq: "y \<in># blks q" using q by (simp add: blks'_def)
    then obtain c where c: "get_pool q (pools fa) = Some c" "pool_ok (U q) c (blks q)"
      using f(3)[rule_format, of q] by (cases "get_pool q (pools fa)") auto
    show ?thesis
    proof (rule ccontr)
      assume "bytes_of x \<inter> bytes_of y \<noteq> {}"
      then obtain w where "w \<in> bytes_of x" "w \<in> bytes_of y" by blast
      then have "owns b w" "owns c w" using pool_ok_bytes_owned f(5,6) c(2) yq by blast+
      then show False using owns_unique[OF f(2) c(1) f(4)] False by blast
    qed
  qed
qed

lemma frames_inv_in_range:
  assumes "frames_inv U fa al" "blk \<in># al"
  shows "bytes_of blk \<subseteq> (\<Union>x\<in>(\<Union>p. U p). {x..<x + PAGE_SIZE})"
proof -
  obtain blks p b where "al = (\<Sum>q\<in>UNIV. blks q)" "ranges_apart (pools fa)"
    "\<forall>q. case get_pool q (pools fa) of None \<Rightarrow> U q = {} \<and> blks q = {#} | Some c \<Rightarrow> pool_ok (U q) c (blks q)"
    "get_pool p (pools fa) = Some b" and blk: "blk \<in># blks p" and ok: "pool_ok (U p) b (blks p)"
    and "pool_for_addr (pools fa) (fst blk) = Some p"
    by (rule frames_inv_owner[OF assms])
  have "bytes_of blk \<subseteq> (\<Union>x\<in>U p. {x..<x + PAGE_SIZE})"
    by (rule buddy_inv_in_range[OF pool_ok_block(2)[OF ok blk] blk])
  then show ?thesis by blast
qed

lemma frames_pages_disjoint:
  assumes "ranges_apart (pools fa)"
    "\<forall>q. case get_pool q (pools fa) of None \<Rightarrow> U q = {} \<and> blks q = {#} | Some c \<Rightarrow> pool_ok (U q) c (blks q)"
    "p \<noteq> q"
  shows "U p \<inter> U q = {}"
proof (rule ccontr)
  assume "U p \<inter> U q \<noteq> {}"
  then obtain x where x: "x \<in> U p" "x \<in> U q" by blast
  obtain b where b: "get_pool p (pools fa) = Some b" "pool_ok (U p) b (blks p)"
    using assms(2)[rule_format, of p] x by (cases "get_pool p (pools fa)") auto
  obtain c where c: "get_pool q (pools fa) = Some c" "pool_ok (U q) c (blks q)"
    using assms(2)[rule_format, of q] x by (cases "get_pool q (pools fa)") auto
  have "owns b x" "owns c x"
    using pool_ok_page_owned[OF b(2) x(1)] pool_ok_page_owned[OF c(2) x(2)] by (auto simp: owns_def PAGE_SIZE_def)
  then show False using owns_unique[OF assms(1) b(1) c(1)] assms(3) by blast
qed

lemma pool_ok_accounting:
  assumes "pool_ok U b al"
  shows "finite U \<and> total_free b + (\<Sum>(a, order)\<in>#al. 2 ^ order) = card U"
proof (cases "initialized b")
  case True
  then have inv: "buddy_inv U b al" using assms by (simp add: pool_ok_def)
  then show ?thesis using buddy_inv_accounting[OF inv] by (auto simp: buddy_inv_def bd_def page_set_def)
qed (use assms in \<open>auto simp: pool_ok_def\<close>)

lemma frames_inv_accounting:
  assumes "frames_inv U fa al"
  shows "pools_total_free (pools fa) + (\<Sum>(a, order)\<in>#al. 2 ^ order) = card (\<Union>p. U p)"
proof -
  obtain blks where f: "al = (\<Sum>q\<in>UNIV. blks q)" "ranges_apart (pools fa)"
    "\<forall>q. case get_pool q (pools fa) of None \<Rightarrow> U q = {} \<and> blks q = {#} | Some c \<Rightarrow> pool_ok (U q) c (blks q)"
    by (rule frames_inv_blocks[OF assms])
  define fr where "fr p = (case get_pool p (pools fa) of Some b \<Rightarrow> total_free b | None \<Rightarrow> 0)" for p
  have each: "finite (U p) \<and> fr p + (\<Sum>(a, order)\<in>#blks p. 2 ^ order) = card (U p)" for p
    using f(3)[rule_format, of p] pool_ok_accounting by (cases "get_pool p (pools fa)") (auto simp: fr_def)
  have "card (\<Union>p. U p) = (\<Sum>p\<in>UNIV. card (U p))"
    using each frames_pages_disjoint[OF f(2,3)] by (intro card_UN_disjoint) auto
  also have "\<dots> = (\<Sum>p\<in>UNIV. fr p) + (\<Sum>p\<in>UNIV. \<Sum>(a, order)\<in>#blks p. 2 ^ order)"
    using each by (simp add: sum.distrib[symmetric])
  also have "(\<Sum>p\<in>UNIV. fr p) = pools_total_free (pools fa)"
    by (simp add: sum_pools fr_def get_pool_def pools_total_free_def)
  also have "(\<Sum>p\<in>UNIV. \<Sum>(a, order)\<in>#blks p. 2 ^ order) = (\<Sum>(a, order)\<in>#al. 2 ^ order)"
    by (simp add: f(1) sum_pools)
  finally show ?thesis by simp
qed

interpretation frm: page_allocator "frames_inv U" fa_alloc_pages fa_free_pages fa_write
    "\<lambda>fa. pools_total_free (pools fa)" "\<Union>p. U p" for U
proof (unfold_locales, goal_cases)
  case (1 s al p order a s')
  then show ?case using frames_inv_alloc[OF 1] by simp
next
  case (2 s al p order s')
  then show ?case using frames_inv_alloc[OF 2] by simp
next
  case (3 s a order al s')
  then show ?case by (rule frames_inv_free)
next
  case (4 s al blk w v)
  then show ?case by (rule frames_inv_write)
next
  case (5 s x y al)
  then show ?case by (rule frames_inv_disjoint)
next
  case (6 s al blk)
  then show ?case by (rule frames_inv_in_range)
next
  case (7 s al)
  then show ?case by (rule frames_inv_accounting)
qed

section \<open>The pools after boot\<close>

lemma add_aligned_blocks_range [simp]:
  "bd_base (add_aligned_blocks addr en b) = bd_base b \<and> bd_end (add_aligned_blocks addr en b) = bd_end b"
proof (induction addr en b rule: add_aligned_blocks.induct)
  case (1 addr en b)
  show ?case
  proof (cases "addr < en \<and> \<not> addr + PAGE_SIZE * 2 ^ fit_order addr en MAX_ORDER > en")
    case True
    then show ?thesis
      using 1 by (subst (1 2) add_aligned_blocks.simps) (simp add: Let_def push_block_def)
  next
    case False
    then show ?thesis by (subst (1 2) add_aligned_blocks.simps) (auto simp: Let_def)
  qed
qed

lemma add_skipping_range [simp]:
  "bd_base (add_skipping c en xs b) = bd_base b \<and> bd_end (add_skipping c en xs b) = bd_end b"
  by (induction c en xs b rule: add_skipping.induct) (simp_all add: Let_def)

lemma init_range [simp]:
  "initialized (init_with_range_excluding bse en e1 e2 b)" "bd_base (init_with_range_excluding bse en e1 e2 b) = bse"
  "bd_end (init_with_range_excluding bse en e1 e2 b) = en"
  by (simp_all add: init_with_range_excluding_def add_region_excluding3_def init_header_def Let_def)

definition new_pool_pages :: "nat \<Rightarrow> nat \<Rightarrow> nat \<times> nat \<Rightarrow> nat \<times> nat \<Rightarrow> nat set" where
  "new_pool_pages bse en e1 e2 = (if bse < en then pool_pages bse en e1 e2 else {})"

lemma pool_ok_new:
  assumes "0 < bse" "PAGE_SIZE dvd bse" "PAGE_SIZE dvd en" "excl_ok [e1, e2]"
  shows "pool_ok (new_pool_pages bse en e1 e2) (new_pool ram bmp bse en e1 e2) {#}"
proof (cases "bse < en")
  case True
  then show ?thesis
    using buddy_inv_start[of bse en e1 e2] assms by (simp add: pool_ok_def new_pool_def new_pool_pages_def range_ok_def)
next
  case False
  then show ?thesis by (auto simp: pool_ok_def new_pool_def new_pool_pages_def buddy_new_def nth_replicate simp del: replicate_Suc)
qed

lemma new_pool_owned: "initialized (new_pool ram bmp bse en e1 e2) \<Longrightarrow>
    bd_base (new_pool ram bmp bse en e1 e2) = bse \<and> bd_end (new_pool ram bmp bse en e1 e2) = en"
  by (auto simp: new_pool_def buddy_new_def split: if_splits)

text \<open>What \<open>init_memory\<close> guarantees for its arguments: page-aligned RAM above address 0.\<close>

definition layout_ok :: "nat \<Rightarrow> nat \<Rightarrow> PoolConfig \<Rightarrow> nat \<times> nat \<Rightarrow> nat \<times> nat \<Rightarrow> bool" where
  "layout_ok s e config e1 e2 \<longleftrightarrow>
     0 < s \<and> s \<le> e \<and> PAGE_SIZE dvd s \<and> PAGE_SIZE dvd e \<and> PAGE_SIZE dvd cfg_dma config \<and>
     PAGE_SIZE dvd cfg_kernel config \<and> PAGE_SIZE dvd cfg_model config \<and> PAGE_SIZE dvd cfg_reserved config \<and>
     excl_ok [e1, e2]"

lemma dvd_min_nat: "(d :: nat) dvd a \<Longrightarrow> d dvd b \<Longrightarrow> d dvd min a b"
  by (simp add: min_def)

lemma pool_bounds_ok:
  assumes "layout_ok s e config e1 e2" "pool_bounds s e config = (d, k, m, r)"
  shows "s \<le> d \<and> d \<le> k \<and> k \<le> m \<and> m \<le> r \<and> r \<le> e" "PAGE_SIZE dvd d \<and> PAGE_SIZE dvd k \<and> PAGE_SIZE dvd m \<and> PAGE_SIZE dvd r"
proof -
  define ds where "ds = min (cfg_dma config) (e - s)"
  define ks where "ks = min (cfg_kernel config) (e - s - ds)"
  define ms where "ms = min (cfg_model config) (e - s - ds - ks)"
  define rs where "rs = min (cfg_reserved config) (e - s - ds - ks - ms)"
  have eq: "d = s + ds" "k = d + ks" "m = k + ms" "r = m + rs"
    using assms(2) unfolding pool_bounds_def Let_def ds_def[symmetric] ks_def[symmetric] ms_def[symmetric] rs_def[symmetric]
    by auto
  have le: "ds \<le> e - s" "ks \<le> e - s - ds" "ms \<le> e - s - ds - ks" "rs \<le> e - s - ds - ks - ms"
    unfolding ds_def ks_def ms_def rs_def by (rule min.cobounded2)+
  note c = assms(1)[unfolded layout_ok_def]
  show "s \<le> d \<and> d \<le> k \<and> k \<le> m \<and> m \<le> r \<and> r \<le> e" using eq le c by linarith
  have 1: "PAGE_SIZE dvd ds" unfolding ds_def using c by (intro dvd_min_nat dvd_diff_nat) blast+
  have 2: "PAGE_SIZE dvd ks" unfolding ks_def using c 1 by (intro dvd_min_nat dvd_diff_nat) blast+
  have 3: "PAGE_SIZE dvd ms" unfolding ms_def using c 1 2 by (intro dvd_min_nat dvd_diff_nat) blast+
  have 4: "PAGE_SIZE dvd rs" unfolding rs_def using c 1 2 3 by (intro dvd_min_nat dvd_diff_nat) blast+
  show "PAGE_SIZE dvd d \<and> PAGE_SIZE dvd k \<and> PAGE_SIZE dvd m \<and> PAGE_SIZE dvd r"
    using c 1 2 3 4 by (simp add: eq)
qed

definition boot_pages :: "nat \<Rightarrow> nat \<Rightarrow> PoolConfig \<Rightarrow> nat \<times> nat \<Rightarrow> nat \<times> nat \<Rightarrow> Pool \<Rightarrow> nat set" where
  "boot_pages s e config e1 e2 p =
     (case pool_bounds s e config of (d, k, m, r) \<Rightarrow>
        case p of PoolKernel \<Rightarrow> new_pool_pages d k e1 e2 | PoolUser \<Rightarrow> new_pool_pages r e e1 e2
        | PoolModel \<Rightarrow> new_pool_pages k m e1 e2 | PoolDma \<Rightarrow> new_pool_pages s d e1 e2)"

definition boot_frames ::
  "(nat \<Rightarrow> nat) \<Rightarrow> (nat \<Rightarrow> u8) \<Rightarrow> nat \<Rightarrow> nat \<Rightarrow> PoolConfig \<Rightarrow> nat \<times> nat \<Rightarrow> nat \<times> nat \<Rightarrow> nat \<Rightarrow> FrameAllocator" where
  "boot_frames ram bmp s e config e1 e2 n = \<lparr>pools = pools_init ram bmp s e config e1 e2, total_pages = n\<rparr>"

lemma frames_inv_boot:
  assumes "layout_ok s e config e1 e2"
  shows "frames_inv (boot_pages s e config e1 e2) (boot_frames ram bmp s e config e1 e2 n) {#}"
proof -
  obtain d k m r where b: "pool_bounds s e config = (d, k, m, r)" by (cases "pool_bounds s e config") auto
  note bo = pool_bounds_ok[OF assms b]
  have s: "0 < s" "PAGE_SIZE dvd s" "PAGE_SIZE dvd e" "excl_ok [e1, e2]" using assms by (auto simp: layout_ok_def)
  let ?fa = "boot_frames ram bmp s e config e1 e2 n"
  have get: "get_pool PoolKernel (pools ?fa) = Some (new_pool ram bmp d k e1 e2)"
    "get_pool PoolUser (pools ?fa) = Some (new_pool ram bmp r e e1 e2)"
    "get_pool PoolModel (pools ?fa) = (if k < m then Some (new_pool ram bmp k m e1 e2) else None)"
    "get_pool PoolDma (pools ?fa) = Some (new_pool ram bmp s d e1 e2)"
    by (simp_all add: boot_frames_def pools_init_def b get_pool_def)
  have range: "bd_base c = (case p of PoolKernel \<Rightarrow> d | PoolUser \<Rightarrow> r | PoolModel \<Rightarrow> k | PoolDma \<Rightarrow> s) \<and>
      bd_end c = (case p of PoolKernel \<Rightarrow> k | PoolUser \<Rightarrow> e | PoolModel \<Rightarrow> m | PoolDma \<Rightarrow> d)"
    if "get_pool p (pools ?fa) = Some c" "initialized c" for p c
    using that by (cases p) (auto simp: get new_pool_owned split: if_splits)
  have "ranges_apart (pools ?fa)"
    unfolding ranges_apart_def
  proof (intro allI impI, goal_cases)
    case (1 p q c c')
    then show ?case using range[of p c] range[of q c'] bo(1) by (cases p; cases q) auto
  qed
  moreover have "case get_pool p (pools ?fa) of None \<Rightarrow> boot_pages s e config e1 e2 p = {} \<and> {#} = ({#} :: (nat \<times> nat) multiset)
      | Some c \<Rightarrow> pool_ok (boot_pages s e config e1 e2 p) c {#}" for p
  proof -
    have pos: "0 < d" "0 < k" "0 < m" "0 < r" using s(1) bo(1) by linarith+
    have "pool_ok (new_pool_pages d k e1 e2) (new_pool ram bmp d k e1 e2) {#}"
      "pool_ok (new_pool_pages r e e1 e2) (new_pool ram bmp r e e1 e2) {#}"
      "pool_ok (new_pool_pages k m e1 e2) (new_pool ram bmp k m e1 e2) {#}"
      "pool_ok (new_pool_pages s d e1 e2) (new_pool ram bmp s d e1 e2) {#}"
      using pos s bo(2) by (simp_all add: pool_ok_new)
    then show ?thesis using get by (cases p) (auto simp: boot_pages_def b new_pool_pages_def split: if_splits)
  qed
  ultimately show ?thesis
    unfolding frames_inv_def by (intro conjI exI[of _ "\<lambda>_. {#}"]) simp_all
qed

section \<open>The global allocator and the Memory Kit\<close>

text \<open>The convenience wrappers over \<open>FRAME_ALLOC\<close>.\<close>

definition fa_new :: "PagePools \<Rightarrow> nat \<Rightarrow> FrameAllocator" where
  "fa_new ps n = \<lparr>pools = ps, total_pages = n\<rparr>"

definition fa_alloc_page :: "Pool \<Rightarrow> FrameAllocator \<Rightarrow> nat option \<times> FrameAllocator" where
  "fa_alloc_page pool fa = fa_alloc_pages pool 0 fa"

definition alloc_page :: "FrameAllocator option \<Rightarrow> nat option \<times> FrameAllocator option" where
  "alloc_page g =
     (case g of
        None \<Rightarrow> (None, None)
      | Some fa \<Rightarrow> (case fa_alloc_page PoolKernel fa of (a, fa') \<Rightarrow> (a, Some fa')))"

definition free_page :: "nat \<Rightarrow> FrameAllocator option \<Rightarrow> FrameAllocator option option" where
  "free_page phys_addr g =
     (case g of
        None \<Rightarrow> Some None
      | Some fa \<Rightarrow> map_option Some (fa_free_pages phys_addr 0 fa))"

definition alloc_dma_page :: "FrameAllocator option \<Rightarrow> nat option \<times> FrameAllocator option" where
  "alloc_dma_page g =
     (case g of
        None \<Rightarrow> (None, None)
      | Some fa \<Rightarrow> (case fa_alloc_page PoolDma fa of (a, fa') \<Rightarrow> (a, Some fa')))"

definition alloc_dma_pages :: "nat \<Rightarrow> FrameAllocator option \<Rightarrow> nat option \<times> FrameAllocator option" where
  "alloc_dma_pages order g =
     (case g of
        None \<Rightarrow> (None, None)
      | Some fa \<Rightarrow> (case fa_alloc_pages PoolDma order fa of (a, fa') \<Rightarrow> (a, Some fa')))"

definition free_dma_pages :: "nat \<Rightarrow> nat \<Rightarrow> FrameAllocator option \<Rightarrow> FrameAllocator option option" where
  "free_dma_pages phys_addr order g =
     (case g of
        None \<Rightarrow> Some None
      | Some fa \<Rightarrow> map_option Some (fa_free_pages phys_addr order fa))"

datatype MemoryError =
    OutOfMemory | WxViolation | InvalidRegion | CapabilityDenied | AlreadyMapped | NotMapped
  | BudgetExceeded | TooManyRegions

record PhysFrame =
  pf_addr :: nat
  pf_pool :: Pool

record PoolStats =
  free_frames :: nat
  total_frames :: nat

definition alloc_frame :: "Pool \<Rightarrow> FrameAllocator option \<Rightarrow> (MemoryError + PhysFrame) \<times> FrameAllocator option" where
  "alloc_frame pool g =
     (case g of
        None \<Rightarrow> (Inl OutOfMemory, None)
      | Some fa \<Rightarrow>
          (case fa_alloc_page pool fa of
             (None, fa') \<Rightarrow> (Inl OutOfMemory, Some fa')
           | (Some addr, fa') \<Rightarrow> (Inr \<lparr>pf_addr = addr, pf_pool = pool\<rparr>, Some fa')))"

definition free_frame :: "PhysFrame \<Rightarrow> FrameAllocator option \<Rightarrow> ((MemoryError + unit) \<times> FrameAllocator option) option" where
  "free_frame frame g =
     (case g of
        None \<Rightarrow> Some (Inl OutOfMemory, None)
      | Some fa \<Rightarrow> map_option (\<lambda>fa'. (Inr (), Some fa')) (fa_free_pages (pf_addr frame) 0 fa))"

definition pool_pressure :: "Pool \<Rightarrow> FrameAllocator option \<Rightarrow> MemoryPressure" where
  "pool_pressure pool g =
     (case g of
        None \<Rightarrow> PressureOom
      | Some fa \<Rightarrow> from_free_ratio (pool_free_pages fa pool) (pool_total_pages fa pool))"

definition pool_stats :: "Pool \<Rightarrow> FrameAllocator option \<Rightarrow> PoolStats" where
  "pool_stats pool g =
     (case g of
        None \<Rightarrow> \<lparr>free_frames = 0, total_frames = 0\<rparr>
      | Some fa \<Rightarrow> \<lparr>free_frames = pool_free_pages fa pool, total_frames = pool_total_pages fa pool\<rparr>)"

section \<open>Properties of the frame allocator\<close>

abbreviation frame_runs ::
  "nat \<Rightarrow> nat \<Rightarrow> PoolConfig \<Rightarrow> nat \<times> nat \<Rightarrow> nat \<times> nat \<Rightarrow> FrameAllocator \<Rightarrow> (nat \<times> nat) multiset \<Rightarrow> bool" where
  "frame_runs s e config e1 e2 fa al \<equiv>
     \<exists>ram bmp n. client_reach fa_alloc_pages fa_free_pages fa_write (boot_frames ram bmp s e config e1 e2 n) fa al"

lemma frame_runs_inv:
  "layout_ok s e config e1 e2 \<Longrightarrow> frame_runs s e config e1 e2 fa al \<Longrightarrow> frames_inv (boot_pages s e config e1 e2) fa al"
  using frm.reach_invar frames_inv_boot by blast

lemma new_pool_bytes:
  assumes "x \<in> new_pool_pages bse en e1 e2" "x \<le> w" "w < x + PAGE_SIZE" "range_ok bse en e1 e2"
  shows "bse \<le> w \<and> w < en \<and> \<not> (fst e1 \<le> w \<and> w < snd e1) \<and> \<not> (fst e2 \<le> w \<and> w < snd e2)"
proof -
  have "x \<in> pool_pages bse en e1 e2" using assms(1) by (simp add: new_pool_pages_def split: if_splits)
  then have "w \<in> (\<Union>p\<in>usable bse en [(bse, bse + bitmap_page_count bse en * PAGE_SIZE), e1, e2]. {p..<p + PAGE_SIZE})"
    using assms(2,3) by (auto simp: pool_pages_def)
  from usable_bytes[OF this] show ?thesis by (cases e1; cases e2) simp
qed

lemma boot_pages_bytes:
  assumes "layout_ok s e config e1 e2" "w \<in> (\<Union>x\<in>(\<Union>p. boot_pages s e config e1 e2 p). {x..<x + PAGE_SIZE})"
  shows "w \<in> {s..<e} - {fst e1..<snd e1} - {fst e2..<snd e2}"
proof -
  obtain d k m r where b: "pool_bounds s e config = (d, k, m, r)" by (cases "pool_bounds s e config") auto
  note bo = pool_bounds_ok[OF assms(1) b]
  have s: "0 < s" "PAGE_SIZE dvd s" "PAGE_SIZE dvd e" "excl_ok [e1, e2]" using assms(1) by (auto simp: layout_ok_def)
  have r: "range_ok d k e1 e2" "range_ok r e e1 e2" "range_ok k m e1 e2" "range_ok s d e1 e2"
    using s bo by (auto simp: range_ok_def)
  obtain p x where x: "x \<in> boot_pages s e config e1 e2 p" "x \<le> w" "w < x + PAGE_SIZE" using assms(2) by auto
  show ?thesis
  proof (cases p)
    case PoolKernel
    then show ?thesis using new_pool_bytes[OF _ x(2,3) r(1)] x(1) bo(1) by (auto simp: boot_pages_def b)
  next
    case PoolUser
    then show ?thesis using new_pool_bytes[OF _ x(2,3) r(2)] x(1) bo(1) by (auto simp: boot_pages_def b)
  next
    case PoolModel
    then show ?thesis using new_pool_bytes[OF _ x(2,3) r(3)] x(1) bo(1) by (auto simp: boot_pages_def b)
  next
    case PoolDma
    then show ?thesis using new_pool_bytes[OF _ x(2,3) r(4)] x(1) bo(1) by (auto simp: boot_pages_def b)
  qed
qed

text \<open>
  C21. The pools together are memory safe: with the pools laid out by \<open>PagePools::init\<close>, under any
  client that frees and writes only blocks it owns, every block handed out from any pool lies in
  RAM, outside the excluded ranges, and overlaps no other block in use from this or another pool.
\<close>

theorem frame_blocks_safe:
  assumes "layout_ok s e config e1 e2" "frame_runs s e config e1 e2 fa (add_mset x al)"
  shows "bytes_of x \<subseteq> {s..<e} - {fst e1..<snd e1} - {fst e2..<snd e2} \<and> (\<forall>y\<in>#al. bytes_of x \<inter> bytes_of y = {})"
proof -
  obtain ram bmp n where "client_reach fa_alloc_pages fa_free_pages fa_write (boot_frames ram bmp s e config e1 e2 n) fa (add_mset x al)"
    using assms(2) by blast
  from frm.reach_safe[OF this frames_inv_boot[OF assms(1)]]
  have sub: "bytes_of x \<subseteq> (\<Union>y\<in>(\<Union>p. boot_pages s e config e1 e2 p). {y..<y + PAGE_SIZE})"
    and dis: "\<forall>y\<in>#al. bytes_of x \<inter> bytes_of y = {}" by auto
  show ?thesis using boot_pages_bytes[OF assms(1)] sub dis by (meson subset_iff)
qed

text \<open>
  C33. Pages go back where they came from: the address of a block just allocated from a pool is
  found by \<open>pool_for_addr\<close> to belong to that pool, which is how \<open>free_pages\<close> chooses the pool to
  return it to. If the owner has not put the poison pattern in its first word, freeing returns,
  and that pool's free count is what it was before the allocation.
\<close>

theorem frame_alloc_free_same_pool:
  assumes "layout_ok s e config e1 e2" "frame_runs s e config e1 e2 fa al" "fa_alloc_pages p order fa = (Some a, fa')"
  shows "pool_for_addr (pools fa') a = Some p \<and>
    (\<forall>b. get_pool p (pools fa') = Some b \<and> mem b a mod 2 ^ 32 \<noteq> POISON_PATTERN \<longrightarrow>
      (\<exists>fa''. fa_free_pages a order fa' = Some fa'' \<and> (\<forall>q. pool_free_pages fa'' q = pool_free_pages fa q)))"
proof -
  note inv = frame_runs_inv[OF assms(1,2)]
  obtain blks where f: "ranges_apart (pools fa)"
    "\<forall>q. case get_pool q (pools fa) of None \<Rightarrow> boot_pages s e config e1 e2 q = {} \<and> blks q = {#}
       | Some c \<Rightarrow> pool_ok (boot_pages s e config e1 e2 q) c (blks q)"
    by (rule frames_inv_blocks[OF inv])
  obtain b0 b1 where b: "get_pool p (pools fa) = Some b0" "alloc_pages order b0 = (Some a, b1)"
    "fa' = fa\<lparr>pools := set_pool p b1 (pools fa)\<rparr>"
    using assms(3) by (auto simp: fa_alloc_pages_def split: option.splits prod.splits)
  have ok0: "pool_ok (boot_pages s e config e1 e2 p) b0 (blks p)" using f(2)[rule_format, of p] b(1) by simp
  have ok1: "pool_ok (boot_pages s e config e1 e2 p) b1 (add_mset (a, order) (blks p))"
    using pool_ok_alloc(2)[OF ok0 b(2)] by simp
  note blk = pool_ok_block[OF ok1, of "(a, order)", simplified]
  have g1: "get_pool q (pools fa') = (if p = q then Some b1 else get_pool q (pools fa))" for q
    using b(1) by (simp add: b(3))
  have "frames_inv (boot_pages s e config e1 e2) fa' (add_mset (a, order) al)"
    using frames_inv_alloc[OF inv assms(3)] by simp
  then have "ranges_apart (pools fa')" by (simp add: frames_inv_def)
  from pool_for_addr_owner[OF this _ blk(3), of p] have own: "pool_for_addr (pools fa') a = Some p" by (simp add: g1)
  have "\<exists>fa''. fa_free_pages a order fa' = Some fa'' \<and> (\<forall>q. pool_free_pages fa'' q = pool_free_pages fa q)"
    if np: "mem b1 a mod 2 ^ 32 \<noteq> POISON_PATTERN"
  proof -
    obtain b2 where b2: "free_pages a order b1 = Some b2" "buddy_inv (boot_pages s e config e1 e2 p) b2 (blks p)"
      using buddy_inv_free[OF blk(2) np] by blast
    have "total_free b2 = total_free b0"
      using buddy_inv_accounting[OF b2(2)] pool_ok_accounting[OF ok0] by simp
    moreover have "fa_free_pages a order fa' = Some (fa'\<lparr>pools := set_pool p b2 (pools fa')\<rparr>)"
      by (simp add: fa_free_pages_def own g1 b2(1))
    moreover have "get_pool p (pools fa') \<noteq> None" by (simp add: g1)
    ultimately show ?thesis using b(1) by (auto simp: pool_free_pages_def g1)
  qed
  then show ?thesis using own by (simp add: g1)
qed

text \<open>
  The free-page total over all pools plus the pages in blocks handed out is constant: it is the
  number of usable pages the boot layout gave to the pools.
\<close>

theorem frame_conserves_pages:
  assumes "layout_ok s e config e1 e2" "frame_runs s e config e1 e2 fa al"
  shows "pools_total_free (pools fa) + (\<Sum>(a, order)\<in>#al. 2 ^ order) = card (\<Union>p. boot_pages s e config e1 e2 p)"
  using frames_inv_accounting[OF frame_runs_inv[OF assms]] .

lemma worst_fold:
  fixes t :: "Pool \<Rightarrow> nat"
  assumes "fold (\<lambda>p w. if t p = 0 then w else Some (worse w (lv p))) ps w0 = w"
  shows "(\<forall>l0. w0 = Some l0 \<longrightarrow> (\<exists>l. w = Some l \<and> pressure_rank l0 \<le> pressure_rank l)) \<and>
    (\<forall>p\<in>set ps. t p \<noteq> 0 \<longrightarrow> (\<exists>l. w = Some l \<and> pressure_rank (lv p) \<le> pressure_rank l)) \<and>
    (w = w0 \<or> (\<exists>p\<in>set ps. t p \<noteq> 0 \<and> w = Some (lv p)))"
  using assms
proof (induction ps arbitrary: w0)
  case (Cons p ps)
  show ?case
  proof (cases "t p = 0")
    case True
    then show ?thesis using Cons.IH[of w0] Cons.prems by auto
  next
    case False
    have up: "pressure_rank (lv p) \<le> pressure_rank (worse w0 (lv p))"
      "w0 = Some l0 \<Longrightarrow> pressure_rank l0 \<le> pressure_rank (worse w0 (lv p))" for l0
      by (auto simp: worse_def split: option.splits)
    have one: "Some (worse w0 (lv p)) = w0 \<or> worse w0 (lv p) = lv p"
      by (auto simp: worse_def split: option.splits)
    have "fold (\<lambda>p w. if t p = 0 then w else Some (worse w (lv p))) ps (Some (worse w0 (lv p))) = w"
      using Cons.prems False by simp
    note ih = Cons.IH[OF this]
    then obtain l where l: "w = Some l" "pressure_rank (worse w0 (lv p)) \<le> pressure_rank l" by blast
    show ?thesis
    proof (intro conjI)
      show "\<forall>l0. w0 = Some l0 \<longrightarrow> (\<exists>l. w = Some l \<and> pressure_rank l0 \<le> pressure_rank l)"
        using l up(2) by fastforce
      show "\<forall>q\<in>set (p # ps). t q \<noteq> 0 \<longrightarrow> (\<exists>l. w = Some l \<and> pressure_rank (lv q) \<le> pressure_rank l)"
        using ih l up(1) by fastforce
      show "w = w0 \<or> (\<exists>q\<in>set (p # ps). t q \<noteq> 0 \<and> w = Some (lv q))"
        using ih one False by auto
    qed
  qed
qed simp

text \<open>
  The Memory Kit's pressure level is the worst over the initialised pools: no pool that has
  pages is under more pressure than the level reported, and the level is that of some such pool,
  or out-of-memory if no pool has pages.
\<close>

theorem pressure_is_worst_pool:
  "(\<forall>p. pool_total_pages fa p \<noteq> 0 \<longrightarrow>
      pressure_rank (pool_pressure p (Some fa)) \<le> pressure_rank (current_level (Some fa))) \<and>
   (current_level (Some fa) = PressureOom \<and> (\<forall>p. pool_total_pages fa p = 0) \<or>
    (\<exists>p. pool_total_pages fa p \<noteq> 0 \<and> current_level (Some fa) = pool_pressure p (Some fa)))"
proof -
  define w where "w = fold (\<lambda>p w. if pool_total_pages fa p = 0 then w
      else Some (worse w (pool_pressure p (Some fa)))) all_pools None"
  have c: "current_level (Some fa) = (case w of Some p \<Rightarrow> p | None \<Rightarrow> PressureOom)"
    by (simp only: current_level_def w_def all_pools_def option.case pool_pressure_def)
  note f = worst_fold[OF w_def[symmetric]]
  show ?thesis
  proof (cases w)
    case None
    then have "pool_total_pages fa p = 0" for p using f by auto
    then show ?thesis using None by (simp add: c)
  next
    case (Some l)
    have "\<exists>p\<in>set all_pools. pool_total_pages fa p \<noteq> 0 \<and> w = Some (pool_pressure p (Some fa))"
      using f unfolding Some by blast
    then have "\<exists>p. pool_total_pages fa p \<noteq> 0 \<and> l = pool_pressure p (Some fa)"
      unfolding Some by blast
    moreover have "pressure_rank (pool_pressure p (Some fa)) \<le> pressure_rank l"
      if "pool_total_pages fa p \<noteq> 0" for p
      using f that unfolding Some by (metis option.inject set_all_pools)
    ultimately show ?thesis by (simp add: c Some)
  qed
qed

subsection \<open>A concrete layout\<close>

text \<open>The kernel pool is the four pages of \<open>demo\<close>, and there is nothing else.\<close>

definition demo_config :: PoolConfig where
  "demo_config = \<lparr>cfg_kernel = 0x4000, cfg_model = 0, cfg_user = 0, cfg_dma = 0, cfg_reserved = 0\<rparr>"

definition demo_frames :: FrameAllocator where
  "demo_frames = boot_frames (\<lambda>_. 0) (\<lambda>_. 0) 0x100000 0x104000 demo_config (0, 0) (0, 0) 4"

lemma demo_layout: "layout_ok 0x100000 0x104000 demo_config (0, 0) (0, 0)"
  by (simp add: layout_ok_def demo_config_def PAGE_SIZE_def excl_ok_def)

lemma demo_bounds: "pool_bounds 0x100000 0x104000 demo_config = (0x100000, 0x104000, 0x104000, 0x104000)"
  by (simp add: pool_bounds_def demo_config_def)

lemma demo_frames_eq:
  "pools demo_frames = \<lparr>pool_kernel = demo, pool_user = buddy_new (\<lambda>_. 0) (\<lambda>_. 0), pool_model = None,
     pool_dma = buddy_new (\<lambda>_. 0) (\<lambda>_. 0)\<rparr>"
  by (simp add: demo_frames_def boot_frames_def pools_init_def demo_bounds new_pool_def demo_def)

lemma demo_frame_alloc:
  "\<exists>fa b. fa_alloc_pages PoolKernel 0 demo_frames = (Some 0x101000, fa) \<and>
     get_pool PoolKernel (pools fa) = Some b \<and> mem b 0x101000 = 0"
proof -
  obtain b where "alloc_pages 0 demo = (Some 0x101000, b)" "mem b = mem demo" using demo_alloc by blast
  then show ?thesis
    by (simp add: fa_alloc_pages_def demo_frames_eq get_pool_def set_pool_def demo_heads)
qed

lemma demo_frame_runs: "frame_runs 0x100000 0x104000 demo_config (0, 0) (0, 0) demo_frames {#}"
  unfolding demo_frames_def by (intro exI) (rule client_start)

theorem frame_blocks_safe_witness:
  "\<exists>fa. fa_alloc_pages PoolKernel 0 demo_frames = (Some 0x101000, fa) \<and> bytes_of (0x101000, 0) \<subseteq> {0x100000..<0x104000}"
proof -
  obtain fa where fa: "fa_alloc_pages PoolKernel 0 demo_frames = (Some 0x101000, fa)" using demo_frame_alloc by blast
  have "frame_runs 0x100000 0x104000 demo_config (0, 0) (0, 0) fa {#(0x101000, 0)#}"
    using demo_frame_runs fa client_alloc[of fa_alloc_pages fa_free_pages fa_write] by blast
  from frame_blocks_safe[OF demo_layout this] show ?thesis using fa by auto
qed

theorem frame_alloc_free_same_pool_witness:
  "\<exists>fa fa'. fa_alloc_pages PoolKernel 0 demo_frames = (Some 0x101000, fa) \<and>
     pool_for_addr (pools fa) 0x101000 = Some PoolKernel \<and> fa_free_pages 0x101000 0 fa = Some fa' \<and>
     pool_free_pages fa' PoolKernel = 3"
proof -
  obtain fa b where fa: "fa_alloc_pages PoolKernel 0 demo_frames = (Some 0x101000, fa)"
    "get_pool PoolKernel (pools fa) = Some b" "mem b 0x101000 = 0" using demo_frame_alloc by blast
  have f: "pool_free_pages demo_frames PoolKernel = 3"
    by (simp add: pool_free_pages_def demo_frames_eq get_pool_def demo_heads)
  from frame_alloc_free_same_pool[OF demo_layout demo_frame_runs fa(1)] fa(2,3)
  obtain fa' where "pool_for_addr (pools fa) 0x101000 = Some PoolKernel" "fa_free_pages 0x101000 0 fa = Some fa'"
    "pool_free_pages fa' PoolKernel = pool_free_pages demo_frames PoolKernel" by (auto simp: POISON_PATTERN_def)
  then show ?thesis using fa f by auto
qed

theorem frame_conserves_pages_witness:
  "pools_total_free (pools demo_frames) = 3 \<and>
     card (\<Union>p. boot_pages 0x100000 0x104000 demo_config (0, 0) (0, 0) p) = 3"
proof -
  have "pools_total_free (pools demo_frames) = 3"
    by (simp add: pools_total_free_def demo_frames_eq demo_heads buddy_new_def)
  then show ?thesis using frame_conserves_pages[OF demo_layout demo_frame_runs] by simp
qed

theorem pressure_is_worst_pool_witness:
  "pool_total_pages demo_frames PoolKernel = 4 \<and>
     pressure_rank (pool_pressure PoolKernel (Some demo_frames)) \<le> pressure_rank (current_level (Some demo_frames))"
proof -
  have i: "initialized demo" by (simp add: demo_def)
  have "pool_total_pages demo_frames PoolKernel = 4"
    by (simp add: pool_total_pages_def demo_frames_eq get_pool_def demo_heads PAGE_SIZE_def i)
  then show ?thesis using pressure_is_worst_pool[of demo_frames] by (metis zero_neq_numeral)
qed

end
