(* ===== verification/Kernel_State.thy ===== *)
theory Kernel_State
  imports Collections Capability Frame
begin

text \<open>
  The kernel's global state: the structs of \<open>task\<close>, \<open>ipc\<close> and \<open>sched\<close> as records, and one
  record \<open>Kernel\<close> with a field per global table (each \<open>static\<close> behind a lock). A handler is a
  function on \<open>Kernel\<close>; it runs on a CPU given as an argument (\<open>core_id()\<close>). A handler that
  blocks is split at \<open>block_current\<close> into the part before and the part after the thread is
  resumed. Segments of handlers run one after the other, so a blocking \<open>lock()\<close> always
  succeeds; \<open>busy\<close> says which locks another CPU holds, and decides the \<open>try_lock\<close>s.

  Registers, stacks, names, address spaces, metrics, log lines and the tripwire counters are
  not part of the state: no branch of the modelled code depends on them.
\<close>

section \<open>Threads and run queues\<close>

record SchedEntity =
  thread_id :: ThreadId
  agent_id :: "u64 option"
  sclass :: SchedulerClass
  priority :: u8
  deadline :: "u64 option"
  vruntime :: u64
  time_slice_remaining :: u64
  effective_class :: SchedulerClass
  effective_priority :: u8
  inherited_class :: "SchedulerClass option"
  inherited_priority :: "u8 option"
  inherited_deadline :: "u64 option"
  affinity :: CpuSet
  th_state :: ThreadState

record Thread =
  sched :: SchedEntity
  inheritance_depth :: u8
  owner_pid :: "ProcessId option"

text \<open>\<open>Thread::new_kernel\<close>, without the register context.\<close>

definition new_kernel :: "ThreadId \<Rightarrow> Thread" where
  "new_kernel tid =
     \<lparr>sched = \<lparr>thread_id = tid, agent_id = None, sclass = Normal, priority = 128, deadline = None,
        vruntime = 0, time_slice_remaining = 10000000, effective_class = Normal,
        effective_priority = 128, inherited_class = None, inherited_priority = None,
        inherited_deadline = None, affinity = cpuset_all, th_state = Runnable\<rparr>,
      inheritance_depth = 0, owner_pid = None\<rparr>"

record RunQueue =
  rt :: "ThreadId FixedQueue"
  interactive :: "ThreadId FixedQueue"
  normal :: "ThreadId FixedQueue"
  idle :: "ThreadId FixedQueue"

definition run_queue_new :: RunQueue where
  "run_queue_new = \<lparr>rt = fq_new MAX_THREADS, interactive = fq_new MAX_THREADS,
     normal = fq_new MAX_THREADS, idle = fq_new MAX_THREADS\<rparr>"

section \<open>Processes\<close>

record ProcessControl =
  pc_pid :: ProcessId
  resource_limits :: KernelResourceLimits
  cap_table :: CapabilityTable

section \<open>Messages, rings and channels\<close>

record RawMessage =
  sender :: ThreadId
  data :: "u8 list"
  msg_len :: nat

definition raw_message_EMPTY :: RawMessage where
  "raw_message_EMPTY = \<lparr>sender = 0, data = replicate MAX_MESSAGE_SIZE 0, msg_len = 0\<rparr>"

text \<open>
  The message every sender builds: \<open>msg.data[..n].copy_from_slice(send_buf)\<close> over the empty
  message, for a payload of \<open>n \<le> MAX_MESSAGE_SIZE\<close> bytes.
\<close>

definition build_message :: "ThreadId \<Rightarrow> u8 list \<Rightarrow> RawMessage" where
  "build_message tid send_buf =
     raw_message_EMPTY\<lparr>sender := tid, msg_len := length send_buf,
       data := send_buf @ drop (length send_buf) (data raw_message_EMPTY)\<rparr>"

record MessageRing =
  entries :: "RawMessage list"
  ring_head :: nat
  ring_tail :: nat
  ring_len :: nat

definition ring_new :: MessageRing where
  "ring_new = \<lparr>entries = replicate RING_CAPACITY raw_message_EMPTY,
     ring_head = 0, ring_tail = 0, ring_len = 0\<rparr>"

definition ring_push :: "RawMessage \<Rightarrow> MessageRing \<Rightarrow> bool \<times> MessageRing" where
  "ring_push msg r =
     (if ring_len r \<ge> RING_CAPACITY then (False, r)
      else (True, r\<lparr>entries := (entries r)[ring_tail r := msg],
                    ring_tail := (ring_tail r + 1) mod RING_CAPACITY,
                    ring_len := ring_len r + 1\<rparr>))"

definition ring_pop :: "MessageRing \<Rightarrow> RawMessage option \<times> MessageRing" where
  "ring_pop r =
     (if ring_len r = 0 then (None, r)
      else (Some (entries r ! ring_head r),
            r\<lparr>ring_head := (ring_head r + 1) mod RING_CAPACITY, ring_len := ring_len r - 1\<rparr>))"

definition ring_list :: "MessageRing \<Rightarrow> RawMessage list" where
  "ring_list r = window (entries r) (ring_head r) (ring_len r)"

definition ring_inv :: "MessageRing \<Rightarrow> bool" where
  "ring_inv r \<longleftrightarrow>
     length (entries r) = RING_CAPACITY \<and> ring_head r < RING_CAPACITY \<and>
     ring_len r \<le> RING_CAPACITY \<and> ring_tail r = (ring_head r + ring_len r) mod RING_CAPACITY"

lemma RING_CAPACITY_pos [simp]: "0 < RING_CAPACITY"
  by (simp add: RING_CAPACITY_def)

lemma length_ring_list [simp]: "length (ring_list r) = ring_len r"
  by (simp add: ring_list_def)

lemma ring_inv_new: "ring_inv ring_new"
  by (simp add: ring_inv_def ring_new_def)

lemma ring_list_new [simp]: "ring_list ring_new = []"
  by (simp add: ring_list_def ring_new_def)

lemma ring_inv_push: "ring_inv r \<Longrightarrow> ring_inv (snd (ring_push m r))"
  by (auto simp: ring_inv_def ring_push_def mod_Suc_eq)

lemma ring_push_spec:
  "ring_inv r \<Longrightarrow> map_prod id ring_list (ring_push m r) = spec_push RING_CAPACITY m (ring_list r)"
  using window_push[of "ring_len r" "entries r" "ring_head r" m]
  by (auto simp: ring_inv_def ring_push_def spec_push_def ring_list_def)

lemma ring_inv_pop: "ring_inv r \<Longrightarrow> ring_inv (snd (ring_pop r))"
  using mod_head_step[of "ring_len r" "ring_head r" RING_CAPACITY]
  by (auto simp: ring_inv_def ring_pop_def)

lemma ring_pop_spec:
  "ring_inv r \<Longrightarrow> map_prod id ring_list (ring_pop r) = spec_pop (ring_list r)"
  using window_pop[of "ring_len r" "ring_head r" "entries r"]
  by (auto simp: ring_inv_def ring_pop_def spec_pop_def ring_list_def)

interpretation ring: bounded_fifo RING_CAPACITY ring_inv ring_list ring_new ring_push ring_pop
  by unfold_locales
    (simp_all add: ring_inv_new ring_inv_push ring_inv_pop ring_push_spec ring_pop_spec)

datatype EndpointState = EpActive | EpDead

record Channel =
  ch_id :: ChannelId
  state_a :: EndpointState
  state_b :: EndpointState
  owner_a :: ProcessId
  owner_b :: "ProcessId option"
  ring :: MessageRing
  waiting_receiver :: "ThreadId option"
  pending_caller :: "ThreadId option"
  creation_cap :: "CapabilityTokenId option"

definition channel_new :: "ChannelId \<Rightarrow> ProcessId \<Rightarrow> Channel" where
  "channel_new i own =
     \<lparr>ch_id = i, state_a = EpActive, state_b = EpActive, owner_a = own, owner_b = None,
      ring = ring_new, waiting_receiver = None, pending_caller = None, creation_cap = None\<rparr>"

definition endpoint_dead :: "Channel \<Rightarrow> bool" where
  "endpoint_dead ch \<longleftrightarrow> state_a ch = EpDead \<or> state_b ch = EpDead"

section \<open>Timeouts, reply slots, notifications, select\<close>

record TimeoutEntry =
  te_tid :: ThreadId
  wake_at_tick :: u64
  error_code :: int

text \<open>
  \<open>ReplySlot.buf\<close> points to the blocked caller's reply buffer: the slot holds that buffer's
  contents, whose length is \<open>buf_len\<close>.
\<close>

record ReplySlot =
  rs_buf :: "u8 list"
  bytes_written :: nat

record Waiter =
  w_tid :: ThreadId
  w_mask :: u64

record NotificationObject =
  no_id :: NotificationId
  no_word :: u64
  creator :: ProcessId
  waiters :: "Waiter option list"

definition notification_new :: "NotificationId \<Rightarrow> ProcessId \<Rightarrow> NotificationObject" where
  "notification_new i p =
     \<lparr>no_id = i, no_word = 0, creator = p,
      waiters = replicate MAX_WAITERS_PER_NOTIFICATION None\<rparr>"

record SelectWaiter =
  sw_tid :: ThreadId
  sw_entries :: "SelectKind option list"
  entry_count :: nat
  ready_index :: "nat option"
  ready_bits :: u64

section \<open>Services\<close>

datatype ServiceState = SvcRunning | SvcDead

record ServiceEntry =
  se_name :: ServiceName
  se_pid :: ProcessId
  se_channel :: ChannelId
  se_state :: ServiceState

record AuditEntry =
  ae_timestamp :: u64
  ae_pid :: u32
  ae_event :: "u8 list"
  ae_event_len :: nat

section \<open>Shared and private memory\<close>

type_synonym VmFlags = u32

record SharedMapping =
  sm_pid :: ProcessId
  sm_vaddr :: nat
  sm_flags :: VmFlags

record SharedMemoryRegion =
  sr_id :: SharedMemoryId
  sr_base_phys :: nat
  sr_order :: nat
  size_bytes :: nat
  ref_count :: u32
  sr_creator :: ProcessId
  max_flags :: VmFlags
  sr_creation_cap :: "CapabilityTokenId option"
  mappings :: "SharedMapping option list"

record PrivateAllocation =
  pa_owner :: ProcessId
  pa_base_phys :: nat
  pa_order :: nat
  pa_pages :: nat

section \<open>The kernel\<close>

datatype Lock =
    L_TimeoutQueue
  | L_NotifyDeadlines
  | L_ThreadTable
  | L_NotificationTable
  | L_SelectWaiters
  | L_CurrentThread nat
  | L_RunQueues nat

record Kernel =
  tick_count :: u64
  next_token_id :: u64
  busy :: "Lock \<Rightarrow> bool"
  processes :: "ProcessControl option list"
  threads :: "Thread option list"
  current_thread :: "ThreadId option list"
  run_queues :: "RunQueue list"
  in_scheduler :: "bool list"
  need_resched :: bool
  channels :: "Channel option list"
  timeout_queue :: "TimeoutEntry option list"
  reply_slots :: "ReplySlot option list"
  wakeup_errors :: "int list"
  notifications :: "NotificationObject option list"
  notify_results :: "u64 option list"
  notify_deadlines :: "u64 list"
  select_waiters :: "SelectWaiter option list"
  process_waiters :: "ThreadId option list"
  exit_codes :: "32 word list"
  services :: "ServiceEntry option list"
  service_count :: nat
  audit_ring :: "AuditEntry list"
  audit_head :: u64
  frame_alloc :: "FrameAllocator option"
  shared_regions :: "SharedMemoryRegion option list"
  private_allocs :: "PrivateAllocation option list"

definition MAX_CORES :: nat where "MAX_CORES = 8"
definition MAX_SERVICES :: nat where "MAX_SERVICES = 16"
definition MAX_PRIVATE_ALLOCATIONS :: nat where "MAX_PRIVATE_ALLOCATIONS = 64"
definition AUDIT_RING_SIZE :: nat where "AUDIT_RING_SIZE = 256"

text \<open>The state after the statics are initialised.\<close>

definition boot_kernel :: Kernel where
  "boot_kernel =
     \<lparr>tick_count = 0, next_token_id = 1, busy = (\<lambda>_. False),
      processes = replicate MAX_PROCESSES None, threads = replicate MAX_THREADS None,
      current_thread = replicate MAX_CORES None, run_queues = replicate MAX_CORES run_queue_new,
      in_scheduler = replicate MAX_CORES False, need_resched = False,
      channels = replicate MAX_CHANNELS None, timeout_queue = replicate MAX_THREADS None,
      reply_slots = replicate MAX_THREADS None, wakeup_errors = replicate MAX_THREADS 0,
      notifications = replicate MAX_NOTIFICATIONS None,
      notify_results = replicate MAX_THREADS None,
      notify_deadlines = replicate MAX_THREADS u64_MAX,
      select_waiters = replicate MAX_THREADS None,
      process_waiters = replicate MAX_PROCESSES None,
      exit_codes = replicate MAX_PROCESSES (push_bit 31 1),
      services = replicate MAX_SERVICES None, service_count = 0,
      audit_ring = replicate AUDIT_RING_SIZE
        \<lparr>ae_timestamp = 0, ae_pid = 0, ae_event = replicate 48 0, ae_event_len = 0\<rparr>,
      audit_head = 0, frame_alloc = None,
      shared_regions = replicate MAX_SHARED_REGIONS None,
      private_allocs = replicate MAX_PRIVATE_ALLOCATIONS None\<rparr>"

section \<open>Table access\<close>

text \<open>
  \<open>table[tid.0 as usize]\<close> for the tables indexed by thread. The sources index with thread
  ids that name a slot; \<open>slot_at\<close> reads an out-of-range index as an empty slot and
  \<open>thread_of\<close> is \<open>table.get(..).and_then(Option::as_ref)\<close>.
\<close>

definition slot_at :: "'a option list \<Rightarrow> nat \<Rightarrow> 'a option" where
  "slot_at xs i = (if i < length xs then xs ! i else None)"

lemma slot_at_update [simp]:
  "slot_at (xs[i := v]) j = (if i = j \<and> i < length xs then v else slot_at xs j)"
  by (auto simp: slot_at_def)

lemma slot_at_replicate_None [simp]: "slot_at (replicate n None) i = None"
  by (simp add: slot_at_def)

lemma slot_at_Some_in_set: "slot_at xs i = Some x \<Longrightarrow> Some x \<in> set xs"
  by (auto simp: slot_at_def split: if_splits) (metis nth_mem)

lemma slot_at_map_option [simp]: "slot_at (map (map_option f) xs) i = map_option f (slot_at xs i)"
  by (simp add: slot_at_def)

abbreviation thread_of :: "Kernel \<Rightarrow> ThreadId \<Rightarrow> Thread option" where
  "thread_of k tid \<equiv> slot_at (threads k) (unat tid)"

text \<open>Updating the \<open>sched.state\<close> of a thread, if the thread exists.\<close>

definition set_state :: "ThreadState \<Rightarrow> Thread \<Rightarrow> Thread" where
  "set_state st th = th\<lparr>sched := (sched th)\<lparr>th_state := st\<rparr>\<rparr>"

definition set_thread :: "ThreadId \<Rightarrow> (Thread \<Rightarrow> Thread) \<Rightarrow> Kernel \<Rightarrow> Kernel" where
  "set_thread tid f k = k\<lparr>threads := (threads k)[unat tid := map_option f (threads k ! unat tid)]\<rparr>"

definition state_of :: "Kernel \<Rightarrow> ThreadId \<Rightarrow> ThreadState option" where
  "state_of k tid = map_option (\<lambda>th. th_state (sched th)) (thread_of k tid)"

lemma thread_of_set_thread:
  "slot_at (threads (set_thread tid f k)) i =
     (if i = unat tid then map_option f (slot_at (threads k) i) else slot_at (threads k) i)"
  by (auto simp: set_thread_def slot_at_def)

lemma th_state_set_state [simp]: "th_state (sched (set_state st th)) = st"
  by (simp add: set_state_def)

section \<open>Properties\<close>

text \<open>
  C27. A channel's message ring is a first-in-first-out queue of at most 16 messages under every
  sequence of pushes and pops: messages come out whole, in order, each once, and a push is
  refused exactly when 16 are queued.
\<close>

theorem message_ring_is_fifo:
  "map_prod id ring_list (fifo_exec ring_push ring_pop ring_new ops) =
     fifo_exec (spec_push 16) spec_pop [] ops"
  using ring.exec_refines(1)[OF ring.invar_empty, of ops] by (simp add: RING_CAPACITY_def)

end
