(* ===== verification/Sched.thy ===== *)
theory Sched
  imports Kernel_State "HOL-Library.Multiset"
begin

text \<open>
  The scheduler: \<open>kernel/src/sched/mod.rs\<close> (run queues, thread allocation),
  \<open>kernel/src/sched/scheduler.rs\<close> (schedule, yield, block, unblock, time slices) and
  \<open>try_load_balance\<close> of \<open>kernel/src/sched/init.rs\<close>. A context switch is the change of
  \<open>current_thread\<close>; saving and restoring registers is not modelled.
\<close>

section \<open>Run queues\<close>

definition enqueue :: "ThreadId \<Rightarrow> SchedulerClass \<Rightarrow> RunQueue \<Rightarrow> RunQueue" where
  "enqueue tid cls rq =
     (case cls of
        RealTime \<Rightarrow> rq\<lparr>rt := snd (push_back tid (rt rq))\<rparr>
      | Interactive \<Rightarrow> rq\<lparr>interactive := snd (push_back tid (interactive rq))\<rparr>
      | Normal \<Rightarrow> rq\<lparr>normal := snd (push_back tid (normal rq))\<rparr>
      | Idle \<Rightarrow> rq\<lparr>idle := snd (push_back tid (idle rq))\<rparr>)"

definition pick_next :: "RunQueue \<Rightarrow> ThreadId option \<times> RunQueue" where
  "pick_next rq =
     (case pop_front (rt rq) of
        (Some tid, q) \<Rightarrow> (Some tid, rq\<lparr>rt := q\<rparr>)
      | (None, _) \<Rightarrow>
     (case pop_front (interactive rq) of
        (Some tid, q) \<Rightarrow> (Some tid, rq\<lparr>interactive := q\<rparr>)
      | (None, _) \<Rightarrow>
     (case pop_front (normal rq) of
        (Some tid, q) \<Rightarrow> (Some tid, rq\<lparr>normal := q\<rparr>)
      | (None, _) \<Rightarrow>
     (case pop_front (idle rq) of
        (r, q) \<Rightarrow> (r, rq\<lparr>idle := q\<rparr>)))))"

definition total_depth :: "RunQueue \<Rightarrow> nat" where
  "total_depth rq = fq_len (rt rq) + fq_len (interactive rq) + fq_len (normal rq) + fq_len (idle rq)"

text \<open>\<open>for_each\<close>, as the sequence of calls of its visitor.\<close>

definition for_each :: "RunQueue \<Rightarrow> (ThreadId \<times> SchedulerClass) list" where
  "for_each rq =
     map (\<lambda>t. (t, RealTime)) (fq_iter (rt rq)) @ map (\<lambda>t. (t, Interactive)) (fq_iter (interactive rq)) @
     map (\<lambda>t. (t, Normal)) (fq_iter (normal rq)) @ map (\<lambda>t. (t, Idle)) (fq_iter (idle rq))"

definition enqueue_on_cpu :: "nat \<Rightarrow> ThreadId \<Rightarrow> SchedulerClass \<Rightarrow> Kernel \<Rightarrow> Kernel" where
  "enqueue_on_cpu cpu tid cls k =
     k\<lparr>run_queues := (run_queues k)[cpu := enqueue tid cls (run_queues k ! cpu)]\<rparr>"

definition allocate_thread :: "Thread \<Rightarrow> Kernel \<Rightarrow> nat option \<times> Kernel" where
  "allocate_thread th k =
     (case first_free (threads k) of
        Some i \<Rightarrow> (Some i, k\<lparr>threads := (threads k)[i := Some th]\<rparr>)
      | None \<Rightarrow> (None, k))"

section \<open>Time slices\<close>

definition NS_PER_TICK :: u64 where "NS_PER_TICK = 1000000"

definition set_slice :: "u64 \<Rightarrow> Thread \<Rightarrow> Thread" where
  "set_slice s th = th\<lparr>sched := (sched th)\<lparr>time_slice_remaining := s\<rparr>\<rparr>"

definition burn_slice :: "Thread \<Rightarrow> Thread" where
  "burn_slice th =
     set_slice (time_slice_remaining (sched th) - min NS_PER_TICK (time_slice_remaining (sched th))) th"

definition timer_tick :: "nat \<Rightarrow> Kernel \<Rightarrow> Kernel" where
  "timer_tick cpu k =
     (if busy k (L_CurrentThread cpu) then k
      else case current_thread k ! cpu of
        None \<Rightarrow> k
      | Some tid \<Rightarrow> if busy k L_ThreadTable then k else set_thread tid burn_slice k)"

section \<open>schedule\<close>

text \<open>
  First half of \<open>schedule\<close>: the current thread is queued again when its slice is used up; the
  result \<open>True\<close> says that it keeps running.
\<close>

definition requeue_current :: "nat \<Rightarrow> Kernel \<Rightarrow> bool \<times> Kernel" where
  "requeue_current cpu k =
     (case current_thread k ! cpu of
        None \<Rightarrow> (False, k)
      | Some tid \<Rightarrow>
          (case thread_of k tid of
             None \<Rightarrow> (False, k)
           | Some th \<Rightarrow>
               if th_state (sched th) = Running \<and> time_slice_remaining (sched th) = 0 then
                 (False, enqueue_on_cpu cpu tid (effective_class (sched th))
                    (set_thread tid
                       (\<lambda>th. set_state Runnable (set_slice (default_slice (effective_class (sched th))) th)) k))
               else if th_state (sched th) = Running then (True, k)
               else (False, k)))"

text \<open>The context switch to \<open>nxt\<close>, which gives up when \<open>nxt\<close> has no slot in the thread table.\<close>

definition preempt :: "Thread \<Rightarrow> Thread" where
  "preempt th = (if th_state (sched th) = Running then set_state Runnable th else th)"

definition switch_to :: "nat \<Rightarrow> ThreadId \<Rightarrow> Kernel \<Rightarrow> Kernel" where
  "switch_to cpu nxt k =
     (let k1 = (case current_thread k ! cpu of None \<Rightarrow> k | Some tid \<Rightarrow> set_thread tid preempt k) in
      case thread_of k1 nxt of
        None \<Rightarrow> k1
      | Some _ \<Rightarrow> (set_thread nxt (set_state Running) k1)
                    \<lparr>current_thread := (current_thread k1)[cpu := Some nxt]\<rparr>)"

definition leave_scheduler :: "nat \<Rightarrow> Kernel \<Rightarrow> Kernel" where
  "leave_scheduler cpu k = k\<lparr>in_scheduler := (in_scheduler k)[cpu := False]\<rparr>"

definition pick_on_cpu :: "nat \<Rightarrow> Kernel \<Rightarrow> ThreadId option \<times> Kernel" where
  "pick_on_cpu cpu k =
     (case pick_next (run_queues k ! cpu) of
        (t, rq) \<Rightarrow> (t, k\<lparr>run_queues := (run_queues k)[cpu := rq]\<rparr>))"

definition schedule :: "nat \<Rightarrow> Kernel \<Rightarrow> Kernel" where
  "schedule cpu k =
     (if in_scheduler k ! cpu then k
      else
        let k0 = k\<lparr>in_scheduler := (in_scheduler k)[cpu := True], need_resched := False\<rparr>;
            current_tid = current_thread k0 ! cpu
        in case requeue_current cpu k0 of
          (True, k1) \<Rightarrow> leave_scheduler cpu k1
        | (False, k1) \<Rightarrow>
            (case pick_on_cpu cpu k1 of
               (None, k2) \<Rightarrow> leave_scheduler cpu k2
             | (Some next_tid, k2) \<Rightarrow>
                 if current_tid = Some next_tid then
                   leave_scheduler cpu (set_thread next_tid (set_state Running) k2)
                 else leave_scheduler cpu (switch_to cpu next_tid k2)))"

definition thread_yield :: "nat \<Rightarrow> Kernel \<Rightarrow> Kernel" where
  "thread_yield cpu k =
     schedule cpu
       (case current_thread k ! cpu of
          None \<Rightarrow> k
        | Some tid \<Rightarrow> set_thread tid (\<lambda>th. set_state Running (set_slice 0 th)) k)"

definition block_current :: "nat \<Rightarrow> ThreadState \<Rightarrow> Kernel \<Rightarrow> Kernel" where
  "block_current cpu st k =
     schedule cpu
       (case current_thread k ! cpu of None \<Rightarrow> k | Some tid \<Rightarrow> set_thread tid (set_state st) k)"

definition check_preemption :: "nat \<Rightarrow> Kernel \<Rightarrow> Kernel" where
  "check_preemption cpu k =
     (if \<not> need_resched k then k else if in_scheduler k ! cpu then k else schedule cpu k)"

text \<open>One round of the loop of \<open>enter_scheduler\<close>: the first dispatch on a CPU.\<close>

definition enter_scheduler_round :: "nat \<Rightarrow> Kernel \<Rightarrow> Kernel" where
  "enter_scheduler_round cpu k =
     (case pick_on_cpu cpu k of
        (None, k1) \<Rightarrow> k1
      | (Some tid, k1) \<Rightarrow>
          (case thread_of k1 tid of
             None \<Rightarrow> k1
           | Some _ \<Rightarrow> (set_thread tid (set_state Running) k1)
                         \<lparr>current_thread := (current_thread k1)[cpu := Some tid]\<rparr>))"

section \<open>unblock\<close>

definition unblock_target :: "nat \<Rightarrow> CpuSet \<Rightarrow> nat" where
  "unblock_target cpu aff =
     (if cpuset_contains aff cpu then cpu
      else case find (cpuset_contains aff) [0..<MAX_CORES] of Some c \<Rightarrow> c | None \<Rightarrow> 0)"

definition unblock :: "nat \<Rightarrow> ThreadId \<Rightarrow> Kernel \<Rightarrow> Kernel" where
  "unblock cpu tid k =
     (case thread_of k tid of
        None \<Rightarrow> k
      | Some th \<Rightarrow>
          if th_state (sched th) = Running \<or> th_state (sched th) = Runnable then k
          else
            let cls = effective_class (sched th) in
            enqueue_on_cpu (unblock_target cpu (affinity (sched th))) tid cls
              (set_thread tid (\<lambda>th. set_slice (default_slice cls) (set_state Runnable th)) k))"

section \<open>Load balancing\<close>

fun lb_scan :: "Kernel \<Rightarrow> nat list \<Rightarrow> nat \<times> nat \<times> nat \<times> nat \<Rightarrow> nat \<times> nat \<times> nat \<times> nat" where
  "lb_scan k [] acc = acc"
| "lb_scan k (cpu # cpus) (max_cpu, max_depth, min_cpu, min_depth) =
     (if busy k (L_RunQueues cpu) then lb_scan k cpus (max_cpu, max_depth, min_cpu, min_depth)
      else
        let depth = total_depth (run_queues k ! cpu);
            (max_cpu, max_depth) = (if depth > max_depth then (cpu, depth) else (max_cpu, max_depth));
            (min_cpu, min_depth) = (if depth < min_depth then (cpu, depth) else (min_cpu, min_depth))
        in lb_scan k cpus (max_cpu, max_depth, min_cpu, min_depth))"

definition lb_can_migrate :: "Kernel \<Rightarrow> ThreadId \<Rightarrow> nat \<Rightarrow> bool" where
  "lb_can_migrate k tid cpu =
     (case thread_of k tid of Some th \<Rightarrow> cpuset_contains (affinity (sched th)) cpu | None \<Rightarrow> False)"

text \<open>The migration of one thread from the Normal queue of \<open>src\<close> to that of \<open>dst\<close>.\<close>

definition lb_migrate :: "nat \<Rightarrow> nat \<Rightarrow> Kernel \<Rightarrow> Kernel" where
  "lb_migrate src dst k =
     (case pop_front (normal (run_queues k ! src)) of
        (None, _) \<Rightarrow> k
      | (Some tid, q) \<Rightarrow>
          let k1 = k\<lparr>run_queues := (run_queues k)[src := (run_queues k ! src)\<lparr>normal := q\<rparr>]\<rparr> in
          if lb_can_migrate k tid dst then enqueue_on_cpu dst tid Normal k1
          else enqueue_on_cpu src tid Normal k1)"

definition try_load_balance :: "nat \<Rightarrow> Kernel \<Rightarrow> Kernel" where
  "try_load_balance online k =
     (if online < 2 then k
      else case lb_scan k [0..<min online MAX_CORES] (0, 0, 0, usize_MAX) of
        (max_cpu, max_depth, min_cpu, min_depth) \<Rightarrow>
          if max_depth \<le> min usize_MAX (min_depth + 1) \<or> max_cpu = min_cpu then k
          else if busy k (L_RunQueues (min max_cpu min_cpu)) then k
          else if busy k (L_RunQueues (max max_cpu min_cpu)) then k
          else lb_migrate max_cpu min_cpu k)"

section \<open>The contents of run queues\<close>

text \<open>
  A run queue's threads in dispatch order, and its invariant. All four queues hold up to
  \<open>MAX_THREADS\<close> ids, the capacity at which \<open>Collections\<close> interprets its FIFO contract.
\<close>

definition rq_threads :: "RunQueue \<Rightarrow> ThreadId list" where
  "rq_threads rq = fq_list (rt rq) @ fq_list (interactive rq) @ fq_list (normal rq) @ fq_list (idle rq)"

definition rq_inv :: "RunQueue \<Rightarrow> bool" where
  "rq_inv rq \<longleftrightarrow> fq_inv SCHED_QUEUE_CAP (rt rq) \<and> fq_inv SCHED_QUEUE_CAP (interactive rq) \<and>
     fq_inv SCHED_QUEUE_CAP (normal rq) \<and> fq_inv SCHED_QUEUE_CAP (idle rq)"

definition class_list :: "SchedulerClass \<Rightarrow> RunQueue \<Rightarrow> ThreadId list" where
  "class_list cls rq =
     (case cls of RealTime \<Rightarrow> fq_list (rt rq) | Interactive \<Rightarrow> fq_list (interactive rq)
      | Normal \<Rightarrow> fq_list (normal rq) | Idle \<Rightarrow> fq_list (idle rq))"

lemma MAX_THREADS_SCHED_QUEUE_CAP: "MAX_THREADS = SCHED_QUEUE_CAP"
  by (simp add: MAX_THREADS_def)

lemma rq_inv_new [simp]: "rq_inv run_queue_new" and rq_threads_new [simp]: "rq_threads run_queue_new = []"
  by (simp_all add: rq_inv_def run_queue_new_def rq_threads_def MAX_THREADS_SCHED_QUEUE_CAP fq.invar_empty)

lemma rq_inv_enqueue: "rq_inv rq \<Longrightarrow> rq_inv (enqueue tid cls rq)"
  by (cases cls) (simp_all add: rq_inv_def enqueue_def fq.invar_push)

lemma class_list_enqueue:
  assumes "rq_inv rq"
  shows "class_list c (enqueue tid cls rq) =
           (if c = cls \<and> length (class_list c rq) < SCHED_QUEUE_CAP
            then class_list c rq @ [tid] else class_list c rq)"
  using assms
  by (cases cls; cases c) (simp_all add: rq_inv_def enqueue_def class_list_def fq.queued_push)

lemma rq_threads_class_list:
  "rq_threads rq = class_list RealTime rq @ class_list Interactive rq @ class_list Normal rq @ class_list Idle rq"
  by (simp add: rq_threads_def class_list_def)

lemma mset_enqueue:
  assumes "rq_inv rq" "length (class_list cls rq) < SCHED_QUEUE_CAP"
  shows "mset (rq_threads (enqueue tid cls rq)) = add_mset tid (mset (rq_threads rq))"
  using assms by (cases cls) (simp_all add: rq_threads_class_list class_list_enqueue)

lemma pop_front_cases:
  assumes "fq_inv SCHED_QUEUE_CAP q"
  obtains "fq_list q = []" "pop_front q = (None, q)"
    | x q' where "fq_list q = x # fq_list q'" "pop_front q = (Some x, q')" "fq_inv SCHED_QUEUE_CAP q'"
proof (cases "fq_list q")
  case Nil
  then have "fq_len q = 0" by (metis length_fq_list list.size(3))
  then show thesis using that(1)[OF Nil] by (simp add: pop_front_def Let_def)
next
  case (Cons x xs)
  then have "pop_front q = (Some x, snd (pop_front q))"
    using fq.pop_fst[OF assms] by (cases "pop_front q") simp
  moreover have "fq_list (snd (pop_front q)) = xs"
    using fq.queued_pop[OF assms] Cons by simp
  ultimately show thesis
    using that(2)[of x "snd (pop_front q)"] fq.invar_pop[OF assms] Cons by simp
qed

lemma pick_next_spec:
  assumes "rq_inv rq"
  shows "case pick_next rq of (t, rq') \<Rightarrow>
           rq_inv rq' \<and> map_prod id rq_threads (t, rq') = spec_pop (rq_threads rq)"
proof -
  have *: "fq_inv SCHED_QUEUE_CAP (rt rq)" "fq_inv SCHED_QUEUE_CAP (interactive rq)"
    "fq_inv SCHED_QUEUE_CAP (normal rq)" "fq_inv SCHED_QUEUE_CAP (idle rq)"
    using assms by (simp_all add: rq_inv_def)
  show ?thesis
    by (cases rule: pop_front_cases[OF *(1)]; cases rule: pop_front_cases[OF *(2)];
        cases rule: pop_front_cases[OF *(3)]; cases rule: pop_front_cases[OF *(4)])
      (simp_all add: pick_next_def rq_inv_def rq_threads_def spec_pop_def *)
qed

lemma pick_next_None:
  assumes "rq_inv rq" "pick_next rq = (None, rq')"
  shows "rq' = rq"
proof -
  have *: "fq_inv SCHED_QUEUE_CAP (rt rq)" "fq_inv SCHED_QUEUE_CAP (interactive rq)"
    "fq_inv SCHED_QUEUE_CAP (normal rq)" "fq_inv SCHED_QUEUE_CAP (idle rq)"
    using assms by (simp_all add: rq_inv_def)
  show ?thesis using assms(2)
    by (cases rule: pop_front_cases[OF *(1)]; cases rule: pop_front_cases[OF *(2)];
        cases rule: pop_front_cases[OF *(3)]; cases rule: pop_front_cases[OF *(4)])
      (simp_all add: pick_next_def)
qed

lemma for_each_threads: "rq_inv rq \<Longrightarrow> map fst (for_each rq) = rq_threads rq"
  by (simp add: for_each_def rq_threads_def rq_inv_def fq_iter_list[of SCHED_QUEUE_CAP] comp_def)

lemma total_depth_threads: "total_depth rq = length (rq_threads rq)"
  by (simp add: total_depth_def rq_threads_def)

text \<open>All queued threads of the machine.\<close>

definition queued_tids :: "Kernel \<Rightarrow> ThreadId list" where
  "queued_tids k = concat (map rq_threads (run_queues k))"

lemma mset_concat_update:
  assumes "i < length xs"
  shows "mset (concat (map f (xs[i := y]))) + mset (f (xs ! i)) = mset (concat (map f xs)) + mset (f y)"
proof -
  have "xs = take i xs @ xs ! i # drop (Suc i) xs"
    using assms by (rule id_take_nth_drop)
  then have "mset (concat (map f xs)) =
      mset (concat (map f (take i xs))) + mset (f (xs ! i)) + mset (concat (map f (drop (Suc i) xs)))"
    by (metis append_Cons concat.simps(2) concat_append list.simps(9) map_append mset_append union_assoc)
  then show ?thesis
    using assms by (simp add: upd_conv_take_nth_drop)
qed

lemma set_rq_threads_queued:
  "cpu < length (run_queues k) \<Longrightarrow> t \<in> set (rq_threads (run_queues k ! cpu)) \<Longrightarrow> t \<in> set (queued_tids k)"
  by (auto simp: queued_tids_def)

section \<open>The scheduler's invariant\<close>

text \<open>
  Every queued id is the index of a Runnable thread and occurs in one queue only, once. It
  follows that no queue is ever full when a thread is queued (\<open>enqfull\<close> stays 0).
\<close>

definition sched_inv :: "Kernel \<Rightarrow> bool" where
  "sched_inv k \<longleftrightarrow>
     length (threads k) = MAX_THREADS \<and> length (run_queues k) = MAX_CORES \<and>
     length (current_thread k) = MAX_CORES \<and> length (in_scheduler k) = MAX_CORES \<and>
     (\<forall>rq\<in>set (run_queues k). rq_inv rq) \<and> distinct (queued_tids k) \<and>
     (\<forall>tid\<in>set (queued_tids k). state_of k tid = Some Runnable)"

lemma concat_replicate_map_Nil: "f x = [] \<Longrightarrow> concat (map f (replicate n x)) = []"
  by (induction n) simp_all

lemma sched_inv_boot: "sched_inv boot_kernel"
  by (simp add: sched_inv_def boot_kernel_def queued_tids_def concat_replicate_map_Nil)

lemma state_of_SomeD: "state_of k tid = Some s \<Longrightarrow> unat tid < length (threads k)"
  by (auto simp: state_of_def slot_at_def split: if_splits)

lemma state_of_set_thread:
  "state_of (set_thread tid f k) t =
     (if t = tid then map_option (\<lambda>th. th_state (sched (f th))) (thread_of k t) else state_of k t)"
  by (auto simp: state_of_def thread_of_set_thread option.map_comp comp_def word_unat_eq_iff)

lemma queue_not_full:
  assumes "sched_inv k" "cpu < MAX_CORES" "tid \<notin> set (queued_tids k)" "unat tid < MAX_THREADS"
  shows "length (class_list cls (run_queues k ! cpu)) < SCHED_QUEUE_CAP"
proof -
  let ?xs = "class_list cls (run_queues k ! cpu)"
  have "set ?xs \<subseteq> set (rq_threads (run_queues k ! cpu))"
    by (cases cls) (auto simp: rq_threads_class_list)
  then have sub: "set ?xs \<subseteq> set (queued_tids k)"
    using assms(1,2) set_rq_threads_queued by (fastforce simp: sched_inv_def)
  have "rq_threads (run_queues k ! cpu) \<in> set (map rq_threads (run_queues k))"
    using assms(1,2) by (simp add: sched_inv_def)
  then have "distinct (rq_threads (run_queues k ! cpu))"
    using assms(1) unfolding sched_inv_def queued_tids_def distinct_concat_iff by blast
  then have dist: "distinct ?xs"
    by (cases cls) (simp_all add: rq_threads_class_list)
  have "unat ` set ?xs \<subseteq> {..<MAX_THREADS} - {unat tid}"
  proof
    fix x assume "x \<in> unat ` set ?xs"
    then obtain t where t: "x = unat t" "t \<in> set (queued_tids k)" using sub by blast
    then have "state_of k t = Some Runnable" "length (threads k) = MAX_THREADS"
      using assms(1) by (simp_all add: sched_inv_def)
    then have "x < MAX_THREADS" using state_of_SomeD t(1) by metis
    moreover have "t \<noteq> tid" using t(2) assms(3) by blast
    ultimately show "x \<in> {..<MAX_THREADS} - {unat tid}" by (simp add: t(1) word_unat_eq_iff)
  qed
  then have "card (unat ` set ?xs) \<le> card ({..<MAX_THREADS} - {unat tid})"
    by (rule card_mono[rotated]) simp
  moreover have "card (unat ` set ?xs) = length ?xs"
    using dist distinct_card card_image[of unat "set ?xs"]
    by (simp add: inj_on_def word_unat_eq_iff)
  ultimately show ?thesis
    using assms(4) by (simp add: MAX_THREADS_SCHED_QUEUE_CAP)
qed

lemma mset_queued_update:
  assumes "cpu < length (run_queues k)"
  shows "mset (queued_tids (k\<lparr>run_queues := (run_queues k)[cpu := rq]\<rparr>)) + mset (rq_threads (run_queues k ! cpu)) =
           mset (queued_tids k) + mset (rq_threads rq)"
  using mset_concat_update[OF assms, of rq_threads] by (simp add: queued_tids_def)

lemma mset_queued_enqueue:
  assumes "sched_inv k" "cpu < MAX_CORES" "tid \<notin> set (queued_tids k)" "unat tid < MAX_THREADS"
  shows "mset (queued_tids (enqueue_on_cpu cpu tid cls k)) = add_mset tid (mset (queued_tids k))"
proof -
  have "rq_inv (run_queues k ! cpu)" "cpu < length (run_queues k)"
    using assms(1,2) by (simp_all add: sched_inv_def)
  then show ?thesis
    using mset_queued_update[of cpu k "enqueue tid cls (run_queues k ! cpu)"]
      mset_enqueue[OF _ queue_not_full[OF assms]]
    by (simp add: enqueue_on_cpu_def)
qed

lemma mset_add_set: "mset xs = add_mset t (mset ys) \<Longrightarrow> set xs = insert t (set ys)"
  by (metis set_mset_add_mset_insert set_mset_mset)

lemma mset_add_distinct: "mset xs = add_mset t (mset ys) \<Longrightarrow> distinct xs \<longleftrightarrow> t \<notin> set ys \<and> distinct ys"
  by (metis distinct.simps(2) mset.simps(2) mset_eq_imp_distinct_iff)

text \<open>Changing a thread outside every queue, and queueing a Runnable thread.\<close>

lemma set_thread_simps [simp]:
  "run_queues (set_thread tid f k) = run_queues k"
  "current_thread (set_thread tid f k) = current_thread k"
  "in_scheduler (set_thread tid f k) = in_scheduler k"
  "length (threads (set_thread tid f k)) = length (threads k)"
  "queued_tids (set_thread tid f k) = queued_tids k"
  by (simp_all add: set_thread_def queued_tids_def)

lemma sched_inv_set_thread:
  assumes "sched_inv k" "tid \<notin> set (queued_tids k) \<or> (\<forall>th. th_state (sched (f th)) = th_state (sched th))"
  shows "sched_inv (set_thread tid f k)"
proof -
  have "state_of (set_thread tid f k) t = state_of k t" if "t \<in> set (queued_tids k)" for t
    using assms(2) that unfolding state_of_set_thread by (auto simp: state_of_def)
  then show ?thesis
    using assms(1) by (simp add: sched_inv_def)
qed

lemma sched_inv_enqueue:
  assumes "sched_inv k" "cpu < MAX_CORES" "tid \<notin> set (queued_tids k)" "state_of k tid = Some Runnable"
  shows "sched_inv (enqueue_on_cpu cpu tid cls k)"
proof -
  have "unat tid < MAX_THREADS"
    using assms(1) state_of_SomeD[OF assms(4)] by (simp add: sched_inv_def)
  note m = mset_queued_enqueue[OF assms(1-3) this, of cls]
  have st: "state_of (enqueue_on_cpu cpu tid cls k) t = state_of k t" for t
    by (simp add: state_of_def enqueue_on_cpu_def)
  have "rq_inv (run_queues k ! cpu)"
    using assms(1,2) by (simp add: sched_inv_def)
  then have "\<forall>rq\<in>set (run_queues (enqueue_on_cpu cpu tid cls k)). rq_inv rq"
    using assms(1) set_update_subset_insert[of "run_queues k" cpu] rq_inv_enqueue
    by (fastforce simp: sched_inv_def enqueue_on_cpu_def)
  moreover have "\<forall>t\<in>set (queued_tids (enqueue_on_cpu cpu tid cls k)). state_of k t = Some Runnable"
    using assms(1,4) mset_add_set[OF m] by (simp add: sched_inv_def)
  moreover have "distinct (queued_tids (enqueue_on_cpu cpu tid cls k))"
    using assms(1,3) mset_add_distinct[OF m] by (simp add: sched_inv_def)
  ultimately show ?thesis
    using assms(1) unfolding sched_inv_def st by (simp add: enqueue_on_cpu_def)
qed

lemma pick_on_cpu_cases:
  assumes "sched_inv k" "cpu < MAX_CORES"
  obtains (none) k' where "pick_on_cpu cpu k = (None, k')" "rq_threads (run_queues k ! cpu) = []"
      "run_queues k' = run_queues k" "k' = k\<lparr>run_queues := run_queues k'\<rparr>"
    | (some) tid k' rq where "pick_on_cpu cpu k = (Some tid, k')" "rq_inv rq"
      "rq_threads (run_queues k ! cpu) = tid # rq_threads rq"
      "k' = k\<lparr>run_queues := (run_queues k)[cpu := rq]\<rparr>"
      "mset (queued_tids k) = add_mset tid (mset (queued_tids k'))"
proof -
  let ?rq = "run_queues k ! cpu"
  have inv: "rq_inv ?rq" and len: "cpu < length (run_queues k)"
    using assms by (simp_all add: sched_inv_def)
  obtain t rq where p: "pick_next ?rq = (t, rq)" by fastforce
  then have k': "pick_on_cpu cpu k = (t, k\<lparr>run_queues := (run_queues k)[cpu := rq]\<rparr>)"
    by (simp add: pick_on_cpu_def)
  note sp = pick_next_spec[OF inv, unfolded p, simplified]
  note m = mset_queued_update[OF len, of rq]
  show thesis
  proof (cases t)
    case None
    then have "rq_threads ?rq = []"
      using sp by (cases "rq_threads ?rq") (auto simp: spec_pop_def)
    moreover have "rq = ?rq"
      using p None pick_next_None[OF inv] by simp
    ultimately show thesis
      using none[of "k\<lparr>run_queues := (run_queues k)[cpu := rq]\<rparr>"] k' None by simp
  next
    case (Some tid)
    then have "rq_threads ?rq = tid # rq_threads rq"
      using sp by (cases "rq_threads ?rq") (auto simp: spec_pop_def)
    then show thesis
      using some[of tid "k\<lparr>run_queues := (run_queues k)[cpu := rq]\<rparr>" rq] k' Some sp m by simp
  qed
qed

lemma sched_inv_pick:
  assumes "sched_inv k" "cpu < MAX_CORES" "pick_on_cpu cpu k = (Some tid, k')"
  shows "sched_inv k'" "threads k' = threads k" "current_thread k' = current_thread k"
    "tid \<in> set (queued_tids k)" "tid \<notin> set (queued_tids k')"
proof -
  from assms obtain rq where r: "rq_inv rq" "k' = k\<lparr>run_queues := (run_queues k)[cpu := rq]\<rparr>"
      "mset (queued_tids k) = add_mset tid (mset (queued_tids k'))"
    by (cases rule: pick_on_cpu_cases[OF assms(1,2)]) auto
  show thr: "threads k' = threads k" and "current_thread k' = current_thread k"
    by (simp_all add: r(2))
  have q: "set (queued_tids k) = insert tid (set (queued_tids k'))"
      "distinct (queued_tids k')" "tid \<notin> set (queued_tids k')"
    using mset_add_set[OF r(3)] mset_add_distinct[OF r(3)] assms(1) by (simp_all add: sched_inv_def)
  then show "tid \<in> set (queued_tids k)" "tid \<notin> set (queued_tids k')"
    by simp_all
  have "\<forall>rq\<in>set (run_queues k'). rq_inv rq"
    using assms(1) r(1) set_update_subset_insert[of "run_queues k" cpu rq]
    by (auto simp: sched_inv_def r(2))
  then show "sched_inv k'"
    using assms(1) q by (simp add: sched_inv_def state_of_def thr) (simp add: r(2))
qed

lemma sched_inv_in_scheduler [simp]:
  "length xs = MAX_CORES \<Longrightarrow> sched_inv k \<Longrightarrow> sched_inv (k\<lparr>in_scheduler := xs\<rparr>)"
  "sched_inv k \<Longrightarrow> sched_inv (k\<lparr>need_resched := b\<rparr>)"
  "length cs = MAX_CORES \<Longrightarrow> sched_inv k \<Longrightarrow> sched_inv (k\<lparr>current_thread := cs\<rparr>)"
  by (simp_all add: sched_inv_def queued_tids_def state_of_def)

lemma sched_inv_leave: "sched_inv k \<Longrightarrow> sched_inv (leave_scheduler cpu k)"
  by (simp add: leave_scheduler_def sched_inv_def queued_tids_def state_of_def)

lemma sched_inv_enter:
  "sched_inv k \<Longrightarrow> sched_inv (k\<lparr>in_scheduler := (in_scheduler k)[cpu := b], need_resched := c\<rparr>)"
  by (simp add: sched_inv_def queued_tids_def state_of_def)

lemma Runnable_queued:
  "sched_inv k \<Longrightarrow> tid \<in> set (queued_tids k) \<Longrightarrow> state_of k tid = Some Runnable"
  by (simp add: sched_inv_def)

lemma sched_inv_requeue:
  assumes "sched_inv k" "cpu < MAX_CORES" "requeue_current cpu k = (b, k')"
  shows "sched_inv k'" "current_thread k' = current_thread k"
proof -
  show "current_thread k' = current_thread k"
    using assms(3) by (auto simp: requeue_current_def enqueue_on_cpu_def split: option.splits if_splits)
  show "sched_inv k'"
  proof (cases "k' = k")
    case False
    then obtain tid th f where *: "thread_of k tid = Some th" "th_state (sched th) = Running"
        "f = (\<lambda>th. set_state Runnable (set_slice (default_slice (effective_class (sched th))) th))"
        "k' = enqueue_on_cpu cpu tid (effective_class (sched th)) (set_thread tid f k)"
      using assms(3) by (auto simp: requeue_current_def split: option.splits if_splits)
    have nq: "tid \<notin> set (queued_tids k)"
      using Runnable_queued[OF assms(1), of tid] *(1,2) by (auto simp: state_of_def)
    moreover have "state_of (set_thread tid f k) tid = Some Runnable"
      by (simp add: state_of_set_thread *(1,3))
    ultimately show ?thesis
      using sched_inv_enqueue[of "set_thread tid f k"] sched_inv_set_thread[OF assms(1)] assms(2)
      by (simp add: *(4))
  qed (use assms(1) in simp)
qed

lemma sched_inv_switch_to:
  assumes "sched_inv k" "tid \<notin> set (queued_tids k)"
  shows "sched_inv (switch_to cpu tid k)"
proof -
  define k1 where "k1 = (case current_thread k ! cpu of None \<Rightarrow> k | Some t \<Rightarrow> set_thread t preempt k)"
  have inv1: "sched_inv k1"
  proof (cases "current_thread k ! cpu")
    case (Some t)
    have "state_of (set_thread t preempt k) x = state_of k x" if "x \<in> set (queued_tids k)" for x
      using Runnable_queued[OF assms(1) that] unfolding state_of_set_thread
      by (auto simp: state_of_def preempt_def)
    then show ?thesis
      using assms(1) by (simp add: k1_def Some sched_inv_def)
  qed (use assms(1) in \<open>simp add: k1_def\<close>)
  have "queued_tids k1 = queued_tids k" "current_thread k1 = current_thread k"
    by (simp_all add: k1_def split: option.splits)
  then have "sched_inv (set_thread tid (set_state Running) k1)"
    using inv1 assms(2) by (simp add: sched_inv_set_thread)
  then show ?thesis
    using inv1 unfolding switch_to_def k1_def[symmetric]
    by (auto simp: Let_def split: option.splits) (simp add: sched_inv_def queued_tids_def state_of_def)
qed

theorem sched_inv_schedule:
  assumes "sched_inv k" "cpu < MAX_CORES"
  shows "sched_inv (schedule cpu k)"
proof (cases "in_scheduler k ! cpu")
  case False
  define k0 where "k0 = k\<lparr>in_scheduler := (in_scheduler k)[cpu := True], need_resched := False\<rparr>"
  obtain b k1 where 1: "requeue_current cpu k0 = (b, k1)" by fastforce
  obtain t k2 where 2: "pick_on_cpu cpu k1 = (t, k2)" by fastforce
  have i1: "sched_inv k1"
    using sched_inv_requeue(1)[OF _ assms(2) 1] sched_inv_enter[OF assms(1)] by (simp add: k0_def)
  show ?thesis
  proof (cases t)
    case None
    then have "k2 = k1"
      using 2 by (cases rule: pick_on_cpu_cases[OF i1 assms(2)]) auto
    then show ?thesis
      using False i1 None by (simp add: schedule_def k0_def[symmetric] 1 2 Let_def sched_inv_leave split: bool.splits)
  next
    case (Some tid)
    note i2 = sched_inv_pick[OF i1 assms(2) 2[unfolded Some]]
    show ?thesis
      using False i1 i2 Some
      by (auto simp: schedule_def k0_def[symmetric] 1 2 Let_def
          intro!: sched_inv_leave sched_inv_set_thread sched_inv_switch_to split: bool.splits)
  qed
qed (use assms in \<open>simp add: schedule_def\<close>)

lemma sched_inv_block_current:
  assumes "sched_inv k" "cpu < MAX_CORES" "\<And>tid. current_thread k ! cpu = Some tid \<Longrightarrow> tid \<notin> set (queued_tids k)"
  shows "sched_inv (block_current cpu st k)" "sched_inv (thread_yield cpu k)"
  using assms
  by (auto simp: block_current_def thread_yield_def intro!: sched_inv_schedule sched_inv_set_thread
      split: option.splits)

lemma unblock_target_less: "cpu < MAX_CORES \<Longrightarrow> unblock_target cpu aff < MAX_CORES"
  by (auto simp: unblock_target_def MAX_CORES_def find_Some_iff split: option.splits)

theorem sched_inv_unblock:
  assumes "sched_inv k" "cpu < MAX_CORES"
  shows "sched_inv (unblock cpu tid k)"
proof (cases "unblock cpu tid k = k")
  case False
  then obtain th where th: "thread_of k tid = Some th" "th_state (sched th) \<noteq> Runnable"
      "unblock cpu tid k = enqueue_on_cpu (unblock_target cpu (affinity (sched th))) tid
         (effective_class (sched th))
         (set_thread tid (\<lambda>t. set_slice (default_slice (effective_class (sched th))) (set_state Runnable t)) k)"
    by (auto simp: unblock_def Let_def split: option.splits if_splits)
  have "tid \<notin> set (queued_tids k)"
    using Runnable_queued[OF assms(1), of tid] th(1,2) by (auto simp: state_of_def)
  then show ?thesis
    unfolding th(3) using assms th(1)
    by (intro sched_inv_enqueue sched_inv_set_thread unblock_target_less)
      (auto simp: state_of_set_thread set_slice_def)
qed (use assms in simp)

lemma sched_inv_timer_tick: "sched_inv k \<Longrightarrow> sched_inv (timer_tick cpu k)"
  by (auto simp: timer_tick_def burn_slice_def set_slice_def intro!: sched_inv_set_thread split: option.splits)

lemma sched_inv_check_preemption: "sched_inv k \<Longrightarrow> cpu < MAX_CORES \<Longrightarrow> sched_inv (check_preemption cpu k)"
  by (simp add: check_preemption_def sched_inv_schedule)

section \<open>Load balancing\<close>

lemma lb_scan_step:
  obtains mc1 md1 nc1 nd1 where
    "lb_scan k (cpu # cpus) (mc, md, nc, nd) = lb_scan k cpus (mc1, md1, nc1, nd1)"
    "mc1 = mc \<and> md1 = md \<or> mc1 = cpu \<and> md1 = total_depth (run_queues k ! cpu)"
    "nc1 = nc \<and> nd1 = nd \<or> nc1 = cpu \<and> nd1 = total_depth (run_queues k ! cpu)"
proof -
  let ?d = "total_depth (run_queues k ! cpu)"
  consider "busy k (L_RunQueues cpu)" | "\<not> busy k (L_RunQueues cpu)" by blast
  then show thesis
  proof cases
    case 1
    then show thesis using that[of mc md nc nd] by simp
  next
    case 2
    then show thesis
      using that[of "if ?d > md then cpu else mc" "if ?d > md then ?d else md"
          "if ?d < nd then cpu else nc" "if ?d < nd then ?d else nd"]
      by (simp add: Let_def)
  qed
qed

lemma lb_scan_bounds:
  assumes "lb_scan k cpus (mc, md, nc, nd) = (mc', md', nc', nd')"
  shows "mc' = mc \<and> md' = md \<or> mc' \<in> set cpus \<and> md' = total_depth (run_queues k ! mc')"
    "nc' = nc \<and> nd' = nd \<or> nc' \<in> set cpus \<and> nd' = total_depth (run_queues k ! nc')"
  using assms
proof (induction cpus arbitrary: mc md nc nd)
  case (Cons cpu cpus)
  { case 1 then show ?case using Cons.IH(1) by (cases rule: lb_scan_step[of k cpu cpus mc md nc nd]) fastforce }
  { case 2 then show ?case using Cons.IH(2) by (cases rule: lb_scan_step[of k cpu cpus mc md nc nd]) fastforce }
qed simp_all

lemma lb_migrate_shape:
  assumes "sched_inv k" "src < MAX_CORES" "pop_front (normal (run_queues k ! src)) = (Some tid, q)"
    "k1 = k\<lparr>run_queues := (run_queues k)[src := (run_queues k ! src)\<lparr>normal := q\<rparr>]\<rparr>"
  shows "sched_inv k1" "mset (queued_tids k) = add_mset tid (mset (queued_tids k1))"
    "tid \<notin> set (queued_tids k1)" "state_of k1 tid = Some Runnable"
proof -
  let ?rq = "run_queues k ! src"
  have inv: "rq_inv ?rq" and len: "src < length (run_queues k)"
    using assms(1,2) by (simp_all add: sched_inv_def)
  have q: "fq_list (normal ?rq) = tid # fq_list q" "fq_inv SCHED_QUEUE_CAP q"
    using assms(3) pop_front_cases[of "normal ?rq"] inv by (auto simp: rq_inv_def)
  have inv': "rq_inv (?rq\<lparr>normal := q\<rparr>)"
    using inv q(2) by (simp add: rq_inv_def)
  show m: "mset (queued_tids k) = add_mset tid (mset (queued_tids k1))"
    using mset_queued_update[OF len, of "?rq\<lparr>normal := q\<rparr>", folded assms(4)] q(1)
    by (simp add: rq_threads_def)
  have st: "state_of k1 x = state_of k x" for x
    by (simp add: state_of_def assms(4))
  show "tid \<notin> set (queued_tids k1)"
    using assms(1) mset_add_distinct[OF m] by (simp add: sched_inv_def)
  show "state_of k1 tid = Some Runnable"
    using Runnable_queued[OF assms(1), of tid] mset_add_set[OF m] st by simp
  have "\<forall>rq\<in>set (run_queues k1). rq_inv rq"
    using assms(1) inv' set_update_subset_insert[of "run_queues k" src] by (auto simp: sched_inv_def assms(4))
  then show "sched_inv k1"
    using assms(1) mset_add_set[OF m] mset_add_distinct[OF m]
    by (simp add: sched_inv_def st) (simp add: assms(4))
qed

lemma lb_migrate_inv:
  assumes "sched_inv k" "src < MAX_CORES" "dst < MAX_CORES"
  shows "sched_inv (lb_migrate src dst k)"
    "mset (queued_tids (lb_migrate src dst k)) = mset (queued_tids k)"
proof -
  have "sched_inv (lb_migrate src dst k) \<and> mset (queued_tids (lb_migrate src dst k)) = mset (queued_tids k)"
  proof (cases "pop_front (normal (run_queues k ! src))")
    case (Pair t q)
    show ?thesis
    proof (cases t)
      case (Some tid)
      define k1 where "k1 = k\<lparr>run_queues := (run_queues k)[src := (run_queues k ! src)\<lparr>normal := q\<rparr>]\<rparr>"
      note s = lb_migrate_shape[OF assms(1,2) Pair[unfolded Some] k1_def]
      define d where "d = (if lb_can_migrate k tid dst then dst else src)"
      have "lb_migrate src dst k = enqueue_on_cpu d tid Normal k1" "d < MAX_CORES"
        using assms(2,3) Pair Some by (simp_all add: lb_migrate_def k1_def Let_def d_def)
      then show ?thesis
        using sched_inv_enqueue[OF s(1) _ s(3,4)] mset_queued_enqueue[OF s(1) _ s(3)] s(2)
          state_of_SomeD[OF s(4)] s(1) by (simp add: sched_inv_def)
    qed (use Pair assms in \<open>simp add: lb_migrate_def\<close>)
  qed
  then show "sched_inv (lb_migrate src dst k)"
    "mset (queued_tids (lb_migrate src dst k)) = mset (queued_tids k)" by simp_all
qed

lemma total_depth_bound: "rq_inv rq \<Longrightarrow> total_depth rq \<le> 4 * SCHED_QUEUE_CAP"
  by (simp add: rq_inv_def fq_inv_def total_depth_def)

text \<open>The balancer does nothing, or moves a thread between two CPUs whose depths differ by more than 1.\<close>

lemma try_load_balance_cases:
  assumes "sched_inv k"
  obtains "try_load_balance online k = k"
    | src dst where "try_load_balance online k = lb_migrate src dst k" "src < min online MAX_CORES"
      "dst < min online MAX_CORES" "total_depth (run_queues k ! dst) + 1 < total_depth (run_queues k ! src)"
proof (cases "try_load_balance online k = k")
  case False
  obtain mc md nc nd where sc: "lb_scan k [0..<min online MAX_CORES] (0, 0, 0, usize_MAX) = (mc, md, nc, nd)"
    by (metis prod_cases4)
  then have b: "\<not> md \<le> min usize_MAX (nd + 1)" "try_load_balance online k = lb_migrate mc nc k"
    using False by (auto simp: try_load_balance_def split: if_splits)
  have mc: "mc < min online MAX_CORES" "md = total_depth (run_queues k ! mc)"
    using lb_scan_bounds(1)[OF sc] b(1) by auto
  then have "md \<le> 4 * SCHED_QUEUE_CAP"
    using assms total_depth_bound[of "run_queues k ! mc"] by (simp add: sched_inv_def)
  then have md: "md < usize_MAX" by (simp add: usize_MAX_def)
  then have "nc < min online MAX_CORES \<and> nd = total_depth (run_queues k ! nc)"
    using lb_scan_bounds(2)[OF sc] b(1) by auto
  then show thesis
    using that(2)[OF b(2) mc(1)] b(1) md mc(2) by (auto simp: min_def split: if_splits)
qed (rule that(1))

lemma sched_inv_load_balance:
  assumes "sched_inv k"
  shows "sched_inv (try_load_balance online k)"
    "mset (queued_tids (try_load_balance online k)) = mset (queued_tids k)"
  by (cases rule: try_load_balance_cases[OF assms, of online]; use assms lb_migrate_inv in simp)+

section \<open>Reachable scheduler states\<close>

text \<open>
  The states the scheduler's operations reach from boot. A thread that blocks or yields is the
  one running on its CPU, so it is in no run queue; other components change the fields the
  scheduler does not read (\<open>other\<close>) and the contention on its locks.
\<close>

inductive sched_reach :: "Kernel \<Rightarrow> bool" where
  boot: "sched_reach boot_kernel"
| spawn: "sched_reach k \<Longrightarrow> allocate_thread th k = (Some i, k') \<Longrightarrow> th_state (sched th) = Runnable \<Longrightarrow>
    cpu < MAX_CORES \<Longrightarrow> sched_reach (enqueue_on_cpu cpu (of_nat i) cls k')"
| tick: "sched_reach k \<Longrightarrow> sched_reach (timer_tick cpu k)"
| resched: "sched_reach k \<Longrightarrow> sched_reach (k\<lparr>need_resched := True\<rparr>)"
| preempted: "sched_reach k \<Longrightarrow> cpu < MAX_CORES \<Longrightarrow> sched_reach (check_preemption cpu k)"
| first: "sched_reach k \<Longrightarrow> cpu < MAX_CORES \<Longrightarrow> sched_reach (enter_scheduler_round cpu k)"
| blocks: "sched_reach k \<Longrightarrow> cpu < MAX_CORES \<Longrightarrow> current_thread k ! cpu = Some tid \<Longrightarrow>
    tid \<notin> set (queued_tids k) \<Longrightarrow> sched_reach (block_current cpu st k)"
| yields: "sched_reach k \<Longrightarrow> cpu < MAX_CORES \<Longrightarrow> current_thread k ! cpu = Some tid \<Longrightarrow>
    tid \<notin> set (queued_tids k) \<Longrightarrow> sched_reach (thread_yield cpu k)"
| wakes: "sched_reach k \<Longrightarrow> cpu < MAX_CORES \<Longrightarrow> sched_reach (unblock cpu tid k)"
| balances: "sched_reach k \<Longrightarrow> sched_reach (try_load_balance online k)"
| contention: "sched_reach k \<Longrightarrow> sched_reach (k\<lparr>busy := b\<rparr>)"

lemma sched_inv_spawn:
  assumes "sched_inv k" "allocate_thread th k = (Some i, k')" "th_state (sched th) = Runnable" "cpu < MAX_CORES"
  shows "sched_inv (enqueue_on_cpu cpu (of_nat i) cls k')"
proof -
  have f: "first_free (threads k) = Some i" "k' = k\<lparr>threads := (threads k)[i := Some th]\<rparr>"
    using assms(2) by (auto simp: allocate_thread_def split: option.splits)
  then have i: "i < length (threads k)" "threads k ! i = None"
    using first_free_SomeD by metis+
  then have "i < 2 ^ LENGTH(32)"
    using assms(1) by (simp add: sched_inv_def MAX_THREADS_def)
  then have u: "unat (of_nat i :: ThreadId) = i"
    by (simp add: unat_of_nat)
  have nq: "of_nat i \<notin> set (queued_tids k)"
    using Runnable_queued[OF assms(1), of "of_nat i"] i by (auto simp: state_of_def slot_at_def u)
  have q: "queued_tids k' = queued_tids k"
    by (simp add: f(2) queued_tids_def)
  have "state_of k' t = state_of k t" if "t \<in> set (queued_tids k)" for t
  proof -
    have "t \<noteq> of_nat i" using that nq by blast
    then show ?thesis using u by (auto simp: f(2) state_of_def word_unat_eq_iff)
  qed
  then have "\<forall>t\<in>set (queued_tids k). state_of k' t = Some Runnable"
    using Runnable_queued[OF assms(1)] by simp
  then have "sched_inv k'"
    using assms(1) unfolding sched_inv_def q by (simp add: f(2))
  moreover have "state_of k' (of_nat i) = Some Runnable"
    using i assms(3) by (simp add: f(2) state_of_def u)
  ultimately show ?thesis
    using nq assms(4) by (simp add: sched_inv_enqueue q)
qed

lemma sched_inv_enter_round:
  assumes "sched_inv k" "cpu < MAX_CORES"
  shows "sched_inv (enter_scheduler_round cpu k)"
proof (cases "pick_on_cpu cpu k")
  case (Pair t k')
  show ?thesis
  proof (cases t)
    case None
    then show ?thesis
      using Pair assms(1) by (cases rule: pick_on_cpu_cases[OF assms]) (auto simp: enter_scheduler_round_def)
  next
    case (Some tid)
    note p = sched_inv_pick[OF assms Pair[unfolded Some]]
    then have "sched_inv (set_thread tid (set_state Running) k')"
      by (intro sched_inv_set_thread) simp_all
    then have "sched_inv ((set_thread tid (set_state Running) k')\<lparr>current_thread := (current_thread k')[cpu := Some tid]\<rparr>)"
      by (intro sched_inv_in_scheduler(3)) (use p in \<open>simp_all add: sched_inv_def\<close>)
    then show ?thesis
      using p(1) by (simp add: enter_scheduler_round_def Pair Some split: option.split)
  qed
qed

lemma sched_reach_inv: "sched_reach k \<Longrightarrow> sched_inv k"
proof (induction rule: sched_reach.induct)
  case (contention k b)
  then show ?case by (simp add: sched_inv_def queued_tids_def state_of_def)
next
  case (blocks k cpu tid st)
  then show ?case by (intro sched_inv_block_current(1)) auto
next
  case (yields k cpu tid)
  then show ?case by (intro sched_inv_block_current(2)) auto
qed (auto intro: sched_inv_boot sched_inv_spawn sched_inv_timer_tick sched_inv_check_preemption
    sched_inv_enter_round sched_inv_unblock sched_inv_load_balance)

section \<open>Properties\<close>


text \<open>
  C32. Dispatch order: \<open>pick_next\<close> takes the oldest thread of the highest class that has one, leaves
  all other queues as they are, and returns nothing only when all four queues are empty.
\<close>

theorem pick_next_by_class:
  assumes "rq_inv rq"
  shows "case pick_next rq of
      (Some tid, rq') \<Rightarrow> (\<exists>cls. class_list cls rq = tid # class_list cls rq' \<and>
         (\<forall>c. cls < c \<longrightarrow> class_list c rq = []) \<and> (\<forall>c. c \<noteq> cls \<longrightarrow> class_list c rq' = class_list c rq))
    | (None, rq') \<Rightarrow> rq_threads rq = [] \<and> rq' = rq"
proof -
  have inv: "fq_inv SCHED_QUEUE_CAP (rt rq)" "fq_inv SCHED_QUEUE_CAP (interactive rq)"
    "fq_inv SCHED_QUEUE_CAP (normal rq)" "fq_inv SCHED_QUEUE_CAP (idle rq)"
    using assms by (auto simp: rq_inv_def)
  have all: "(\<forall>c. P c) \<longleftrightarrow> P RealTime \<and> P Interactive \<and> P Normal \<and> P Idle" for P
    by (metis SchedulerClass.exhaust)
  have ex: "P RealTime \<or> P Interactive \<or> P Normal \<or> P Idle \<Longrightarrow> \<exists>c. P c" for P by blast
  note simps = pick_next_def class_list_def rq_threads_def all less_SchedulerClass_def
  show ?thesis
  proof (rule pop_front_cases[OF inv(1)], goal_cases)
    case 2 then show ?case by (auto simp: simps)
  next
    case e1: 1
    show ?case
    proof (rule pop_front_cases[OF inv(2)], goal_cases)
      case 2 then show ?case using e1 by (auto simp: simps)
    next
      case e2: 1
      show ?case
      proof (rule pop_front_cases[OF inv(3)], goal_cases)
        case 2 then show ?case using e1 e2 by (auto simp: simps)
      next
        case e3: 1
        show ?case
        proof (rule pop_front_cases[OF inv(4)], goal_cases)
          case 2 then show ?case using e1 e2 e3 by (auto simp: simps)
        qed (use e1 e2 e3 in \<open>simp add: simps\<close>)
      qed
    qed
  qed
qed


text \<open>
  C36. Load balancing loses and duplicates no thread, and it acts only between two CPUs whose
  queue depths differ by at least two.
\<close>

theorem load_balance_conserves:
  assumes "sched_reach k"
  shows "mset (queued_tids (try_load_balance online k)) = mset (queued_tids k) \<and>
    (try_load_balance online k \<noteq> k \<longrightarrow>
      (\<exists>src dst. src < online \<and> dst < online \<and> total_depth (run_queues k ! dst) + 1 < total_depth (run_queues k ! src)))"
proof -
  note inv = sched_reach_inv[OF assms]
  have "\<exists>src dst. src < online \<and> dst < online \<and> total_depth (run_queues k ! dst) + 1 < total_depth (run_queues k ! src)"
    if ne: "try_load_balance online k \<noteq> k"
    by (rule try_load_balance_cases[OF inv, of online]) (use ne in auto)
  then show ?thesis using sched_inv_load_balance(2)[OF inv] by blast
qed





subsection \<open>Concrete runs\<close>

text \<open>One spawned thread, the same thread dispatched and blocked, and two threads on one CPU.\<close>

definition demo_queued :: Kernel where
  "demo_queued = enqueue_on_cpu 0 (of_nat 0) Normal (snd (allocate_thread (new_kernel 0) boot_kernel))"

definition demo_running :: Kernel where
  "demo_running = enter_scheduler_round 0 demo_queued"

definition demo_blocked :: Kernel where
  "demo_blocked = block_current 0 BlockedIo demo_running"

definition demo_two :: Kernel where
  "demo_two = enqueue_on_cpu 0 (of_nat 1) Normal (snd (allocate_thread (new_kernel 1) demo_queued))"

lemma allocate_spawn:
  assumes "sched_reach k" "fst (allocate_thread th k) = Some i" "th_state (sched th) = Runnable" "cpu < MAX_CORES"
  shows "sched_reach (enqueue_on_cpu cpu (of_nat i) cls (snd (allocate_thread th k)))"
  using sched_reach.spawn[OF assms(1) _ assms(3,4)] assms(2) by (metis prod.collapse)

lemma demo_reach:
  "sched_reach demo_queued" "sched_reach demo_running" "sched_reach demo_blocked" "sched_reach demo_two"
proof -
  have cpu0: "0 < MAX_CORES" by (simp add: MAX_CORES_def)
  show q: "sched_reach demo_queued" unfolding demo_queued_def
    by (intro allocate_spawn sched_reach.boot cpu0) (code_simp, simp add: new_kernel_def)
  then show r: "sched_reach demo_running" unfolding demo_running_def by (intro sched_reach.first cpu0)
  have "current_thread demo_running ! 0 = Some 0 \<and> 0 \<notin> set (queued_tids demo_running)" by code_simp
  then show "sched_reach demo_blocked" unfolding demo_blocked_def by (intro sched_reach.blocks[OF r cpu0]) auto
  show "sched_reach demo_two" unfolding demo_two_def
    by (intro allocate_spawn q cpu0) (code_simp, simp add: new_kernel_def)
qed


theorem pick_next_by_class_witness:
  "rq_inv (enqueue 4 RealTime (enqueue 3 Normal run_queue_new)) \<and>
   fst (pick_next (enqueue 4 RealTime (enqueue 3 Normal run_queue_new))) = Some 4 \<and>
   (\<exists>cls. class_list cls (enqueue 4 RealTime (enqueue 3 Normal run_queue_new)) \<noteq> [])"
proof -
  let ?q = "enqueue 4 RealTime (enqueue 3 Normal run_queue_new)"
  have "rq_inv ?q" by (intro rq_inv_enqueue rq_inv_new)
  moreover have "fst (pick_next ?q) = Some 4" by code_simp
  moreover obtain r where "pick_next ?q = (Some 4, r)" using calculation(2) by (cases "pick_next ?q") auto
  ultimately obtain cls where "class_list cls ?q = 4 # class_list cls r"
    using pick_next_by_class[of ?q] by auto
  then have "class_list cls ?q \<noteq> []" by simp
  then show ?thesis using \<open>rq_inv ?q\<close> \<open>fst (pick_next ?q) = Some 4\<close> by blast
qed


theorem load_balance_conserves_witness:
  "try_load_balance 2 demo_two \<noteq> demo_two \<and> mset (queued_tids (try_load_balance 2 demo_two)) = {#0, 1#}"
proof -
  have busy: "busy demo_two = (\<lambda>_. False)"
    by (simp add: demo_two_def demo_queued_def enqueue_on_cpu_def allocate_thread_def boot_kernel_def split: option.split)
  have "total_depth (run_queues demo_two ! 0) = 2" "total_depth (run_queues demo_two ! 1) = 0" by code_simp+
  moreover have "[0..<min 2 MAX_CORES] = [0, 1]" by code_simp
  ultimately have "try_load_balance 2 demo_two = lb_migrate 0 1 demo_two"
    by (simp add: try_load_balance_def busy usize_MAX_def)
  moreover have "rq_threads (run_queues (lb_migrate 0 1 demo_two) ! 1) \<noteq> rq_threads (run_queues demo_two ! 1)" by code_simp
  ultimately have "try_load_balance 2 demo_two \<noteq> demo_two" by metis
  moreover have "queued_tids demo_two = [0, 1]" by code_simp
  ultimately show ?thesis using load_balance_conserves[OF demo_reach(4), of 2] by simp
qed


end
