(* ===== verification/Cap_Enforce.thy ===== *)
theory Cap_Enforce
  imports Kernel_State
begin

text \<open>
  Capability enforcement, \<open>kernel/src/cap/mod.rs\<close>, on the process table of
  \<open>kernel/src/task/process.rs\<close>: the range-checked table accessors, the fail-closed checks the
  IPC calls make, grants, and the Capability Kit's \<open>check\<close>, \<open>grant\<close>, \<open>attenuate\<close> and
  \<open>list_active\<close>. The operations that also destroy channels (revocation) are in
  \<open>Ipc_Channel\<close>, after the channels they destroy.
\<close>

section \<open>Process table accessors\<close>

definition process_ref :: "Kernel \<Rightarrow> ProcessId \<Rightarrow> (ProcessControl, int) result" where
  "process_ref k pid =
     (case process_index pid of
        Some idx \<Rightarrow> (case processes k ! idx of Some p \<Rightarrow> Ok p | None \<Rightarrow> Err (errno Eperm))
      | None \<Rightarrow> Err (errno Einval))"

text \<open>
  \<open>process_slot_mut\<close> and \<open>process_mut\<close> hand out a mutable reference: here the update is an
  argument, applied to the slot (to the process in it).
\<close>

definition process_slot_mut ::
  "(ProcessControl option \<Rightarrow> ProcessControl option) \<Rightarrow> ProcessId \<Rightarrow> Kernel \<Rightarrow> (unit, int) result \<times> Kernel" where
  "process_slot_mut f pid k =
     (case process_index pid of
        Some idx \<Rightarrow> (Ok (), k\<lparr>processes := (processes k)[idx := f (processes k ! idx)]\<rparr>)
      | None \<Rightarrow> (Err (errno Einval), k))"

definition process_mut ::
  "(ProcessControl \<Rightarrow> ('r, int) result \<times> ProcessControl) \<Rightarrow> ProcessId \<Rightarrow> Kernel \<Rightarrow> ('r, int) result \<times> Kernel" where
  "process_mut f pid k =
     (case process_index pid of
        Some idx \<Rightarrow>
          (case processes k ! idx of
             Some p \<Rightarrow> (case f p of (r, p') \<Rightarrow> (r, k\<lparr>processes := (processes k)[idx := Some p']\<rparr>))
           | None \<Rightarrow> (Err (errno Eperm), k))
      | None \<Rightarrow> (Err (errno Einval), k))"

section \<open>Checks\<close>

definition new_token_id :: "Kernel \<Rightarrow> CapabilityTokenId \<times> Kernel" where
  "new_token_id k = (next_token_id k, k\<lparr>next_token_id := next_token_id k + 1\<rparr>)"

definition process_of_thread :: "Kernel \<Rightarrow> ThreadId \<Rightarrow> ProcessId option" where
  "process_of_thread k tid =
     (let idx = unat tid in
      if idx \<ge> length (threads k) then None
      else case threads k ! idx of Some t \<Rightarrow> owner_pid t | None \<Rightarrow> None)"

definition current_process_id :: "nat \<Rightarrow> Kernel \<Rightarrow> ProcessId option" where
  "current_process_id cpu k =
     (case current_thread k ! cpu of Some tid \<Rightarrow> process_of_thread k tid | None \<Rightarrow> None)"

definition deny_missing_process :: "int \<Rightarrow> int" where
  "deny_missing_process _ = errno Eperm"

text \<open>
  The two shapes of check: \<open>find_authorizing_token\<close> for the creation capabilities, which hands
  the authorising token to the caller, and \<open>has_capability\<close> for access to an object.
\<close>

definition check_token :: "Kernel \<Rightarrow> ProcessId \<Rightarrow> Capability \<Rightarrow> (CapabilityTokenId, int) result" where
  "check_token k pid cap =
     (case process_ref k pid of
        Err e \<Rightarrow> Err (deny_missing_process e)
      | Ok proc \<Rightarrow>
          (case find_authorizing_token (cap_table proc) cap (tick_count k) of
             Some token_id \<Rightarrow> Ok token_id
           | None \<Rightarrow> Err (errno Eperm)))"

definition check_access :: "Kernel \<Rightarrow> ProcessId \<Rightarrow> Capability \<Rightarrow> (unit, int) result" where
  "check_access k pid cap =
     (case process_ref k pid of
        Err e \<Rightarrow> Err (deny_missing_process e)
      | Ok proc \<Rightarrow>
          if has_capability (cap_table proc) cap (tick_count k) then Ok () else Err (errno Eperm))"

definition check_channel_create :: "Kernel \<Rightarrow> ProcessId \<Rightarrow> (CapabilityTokenId, int) result" where
  "check_channel_create k pid = check_token k pid ChannelCreate"

definition check_channel_access :: "Kernel \<Rightarrow> ProcessId \<Rightarrow> ChannelId \<Rightarrow> (unit, int) result" where
  "check_channel_access k pid channel =
     (if channel_index channel = None then Err (errno Einval)
      else check_access k pid (ChannelAccess channel))"

definition check_shared_memory_create :: "Kernel \<Rightarrow> ProcessId \<Rightarrow> (CapabilityTokenId, int) result" where
  "check_shared_memory_create k pid = check_token k pid SharedMemoryCreate"

definition check_shared_memory_access :: "Kernel \<Rightarrow> ProcessId \<Rightarrow> u32 \<Rightarrow> (unit, int) result" where
  "check_shared_memory_access k pid region_id = check_access k pid (SharedMemoryAccess region_id)"

section \<open>Grants\<close>

definition fresh_token :: "CapabilityTokenId \<Rightarrow> Capability \<Rightarrow> ProcessId \<Rightarrow> bool \<Rightarrow> u64 \<Rightarrow> CapabilityToken" where
  "fresh_token i cap pid deleg now =
     \<lparr>tok_id = i, capability = cap, holder = pid, delegatable = deleg, revoked = False,
      parent_token = None, usage_count = 0, created_at_tick = now, expires_at_tick = None\<rparr>"

text \<open>
  \<open>grant_to_process\<close>: the process is looked up before the id counter is advanced, so a bad pid
  consumes no id; a full table does.
\<close>

definition grant_to_process ::
  "ProcessId \<Rightarrow> Capability \<Rightarrow> bool \<Rightarrow> Kernel \<Rightarrow> (CapabilityHandle, int) result \<times> Kernel" where
  "grant_to_process pid cap deleg k =
     (case process_ref k pid of
        Err e \<Rightarrow> (Err e, k)
      | Ok _ \<Rightarrow>
          (case new_token_id k of (i, k1) \<Rightarrow>
             process_mut
               (\<lambda>proc. case grant (fresh_token i cap pid deleg (tick_count k)) (cap_table proc) of
                  (r, ct) \<Rightarrow> (r, proc\<lparr>cap_table := ct\<rparr>)) pid k1))"

section \<open>The Capability Kit\<close>

text \<open>\<open>shared/src/kits/capability.rs\<close>: the kit's errors and their error codes.\<close>

datatype CapabilityError =
    NotGranted Capability
  | Revoked CapabilityTokenId
  | Expired CapabilityTokenId
  | TableFull
  | InvalidAttenuation string
  | InvalidHandle CapabilityHandle
  | NotDelegatable CapabilityTokenId

fun cap_error_code :: "CapabilityError \<Rightarrow> int" where
  "cap_error_code (NotGranted _) = - 4001"
| "cap_error_code (Revoked _) = - 4002"
| "cap_error_code (Expired _) = - 4003"
| "cap_error_code TableFull = - 4004"
| "cap_error_code (InvalidAttenuation _) = - 4005"
| "cap_error_code (InvalidHandle _) = - 4006"
| "cap_error_code (NotDelegatable _) = - 4007"

definition cap_error_try_from :: "int \<Rightarrow> (CapabilityError, int) result" where
  "cap_error_try_from code =
     (if code = - 4001 then Ok (NotGranted DebugPrint)
      else if code = - 4002 then Ok (Revoked 0)
      else if code = - 4003 then Ok (Expired 0)
      else if code = - 4004 then Ok TableFull
      else if code = - 4005 then Ok (InvalidAttenuation ''unknown'')
      else if code = - 4006 then Ok (InvalidHandle 0)
      else if code = - 4007 then Ok (NotDelegatable 0)
      else Err code)"

text \<open>The slot loop of \<open>check\<close>: the handle of the live token with the given id.\<close>

fun find_handle :: "CapabilityTokenId \<Rightarrow> nat \<Rightarrow> CapabilityToken option list \<Rightarrow> CapabilityHandle option" where
  "find_handle tid i [] = None"
| "find_handle tid i (None # ss) = find_handle tid (i + 1) ss"
| "find_handle tid i (Some t # ss) =
     (if tok_id t = tid \<and> \<not> revoked t then Some (word_of_nat i) else find_handle tid (i + 1) ss)"

definition kit_check ::
  "Kernel \<Rightarrow> ProcessId \<Rightarrow> Capability \<Rightarrow> (CapabilityHandle, CapabilityError) result" where
  "kit_check k hold action =
     (case process_ref k hold of
        Err _ \<Rightarrow> Err (NotGranted action)
      | Ok proc \<Rightarrow>
          (case find_authorizing_token (cap_table proc) action (tick_count k) of
             None \<Rightarrow> Err (NotGranted action)
           | Some token_id \<Rightarrow>
               (case find_handle token_id 0 (tokens (cap_table proc)) of
                  Some h \<Rightarrow> Ok h
                | None \<Rightarrow> Err (NotGranted action))))"

definition kit_grant ::
  "ProcessId \<Rightarrow> Capability \<Rightarrow> ProcessId \<Rightarrow> Kernel \<Rightarrow> (CapabilityHandle, CapabilityError) result \<times> Kernel" where
  "kit_grant hold cap granted_by k =
     (case process_ref k hold of
        Err _ \<Rightarrow> (Err (NotGranted cap), k)
      | Ok _ \<Rightarrow>
          (case grant_to_process hold cap True k of
             (Ok h, k') \<Rightarrow> (Ok h, k')
           | (Err _, k') \<Rightarrow> (Err TableFull, k')))"

definition kit_attenuate ::
  "ProcessId \<Rightarrow> CapabilityHandle \<Rightarrow> Capability \<Rightarrow> Kernel \<Rightarrow>
     (CapabilityHandle, CapabilityError) result \<times> Kernel" where
  "kit_attenuate hold h narrowed k =
     (case process_ref k hold of
        Err _ \<Rightarrow> (Err (InvalidHandle h), k)
      | Ok _ \<Rightarrow>
          (case new_token_id k of (i, k1) \<Rightarrow>
             (case process_mut
                     (\<lambda>proc. case attenuate h narrowed None hold i (cap_table proc) of
                        (r, ct) \<Rightarrow> (r, proc\<lparr>cap_table := ct\<rparr>)) hold k1 of
                (Ok r, k2) \<Rightarrow> (Ok r, k2)
              | (Err _, k2) \<Rightarrow>
                  (Err (InvalidAttenuation ''parent does not permit narrowing to requested capability''), k2))))"

definition kit_list_active :: "Kernel \<Rightarrow> ProcessId \<Rightarrow> CapabilityToken list" where
  "kit_list_active k hold =
     (case process_ref k hold of
        Err _ \<Rightarrow> []
      | Ok proc \<Rightarrow> filter (\<lambda>t. \<not> revoked t \<and> \<not> expired (tick_count k) t) (occupied (tokens (cap_table proc))))"

section \<open>Facts about the checks\<close>

text \<open>Whether the process with this id holds a live, unexpired token for the capability.\<close>

definition holds :: "Kernel \<Rightarrow> ProcessId \<Rightarrow> Capability \<Rightarrow> bool" where
  "holds k pid cap \<longleftrightarrow>
     (\<exists>idx proc tok. process_index pid = Some idx \<and> processes k ! idx = Some proc \<and>
        Some tok \<in> set (tokens (cap_table proc)) \<and> \<not> revoked tok \<and> \<not> expired (tick_count k) tok \<and>
        capability tok = cap)"

lemma process_ref_Ok:
  "process_ref k pid = Ok p \<longleftrightarrow> (\<exists>idx. process_index pid = Some idx \<and> processes k ! idx = Some p)"
  by (auto simp: process_ref_def split: option.splits)

lemma check_access_Ok: "check_access k pid cap = Ok u \<longleftrightarrow> holds k pid cap"
  by (auto simp: check_access_def holds_def has_capability_iff process_ref_def split: option.splits)

lemma check_access_Err: "check_access k pid cap = Err e \<longleftrightarrow> \<not> holds k pid cap \<and> e = errno Eperm"
  by (auto simp: check_access_def holds_def has_capability_iff process_ref_def deny_missing_process_def
      split: option.splits)

lemma check_channel_access_Ok:
  "check_channel_access k pid ch = Ok u \<longleftrightarrow> unat ch < MAX_CHANNELS \<and> holds k pid (ChannelAccess ch)"
  by (auto simp: check_channel_access_def check_access_Ok channel_index_def Let_def split: if_splits)

lemma check_channel_access_Err:
  "check_channel_access k pid ch = Err e \<longleftrightarrow>
     (if unat ch < MAX_CHANNELS then \<not> holds k pid (ChannelAccess ch) \<and> e = errno Eperm else e = errno Einval)"
  by (auto simp: check_channel_access_def check_access_Err channel_index_def Let_def)

lemma check_token_OkD:
  assumes "check_token k pid cap = Ok tid"
  shows "\<exists>proc tok. process_ref k pid = Ok proc \<and> Some tok \<in> set (tokens (cap_table proc)) \<and>
    tok_id tok = tid \<and> \<not> revoked tok \<and> \<not> expired (tick_count k) tok \<and> capability tok = cap"
  using assms find_authorizing_token_SomeD
  by (auto simp: check_token_def split: sum.splits option.splits)

lemma cap_error_roundtrip:
  "case cap_error_try_from (cap_error_code e) of Ok e' \<Rightarrow> cap_error_code e' = cap_error_code e | Err _ \<Rightarrow> False"
  by (cases e) (simp_all add: cap_error_try_from_def)

end
