(* ===== verification/Ipc_Wake.thy ===== *)
theory Ipc_Wake
  imports Sched Cap_Enforce
begin

text \<open>
  The parts of IPC that make blocked threads run again: timeout entries and wakeup errors
  (\<open>kernel/src/ipc/timeout.rs\<close>), the select wakers (\<open>kernel/src/ipc/select.rs\<close>) and the direct
  switch between a caller and its receiver with priority inheritance
  (\<open>kernel/src/ipc/direct.rs\<close>). The per-thread tables are indexed by thread ids that name a
  slot of the thread table.
\<close>

section \<open>Timeouts and wakeup errors\<close>

definition current_thread_id :: "nat \<Rightarrow> Kernel \<Rightarrow> ThreadId option" where
  "current_thread_id cpu k = current_thread k ! cpu"

text \<open>\<open>clear_timeout\<close>; its result feeds the counters only.\<close>

definition clear_timeout :: "ThreadId \<Rightarrow> Kernel \<Rightarrow> Kernel" where
  "clear_timeout tid k =
     (if busy k L_TimeoutQueue then k
      else k\<lparr>timeout_queue := (timeout_queue k)[unat tid := None]\<rparr>)"

definition wake_with_error :: "nat \<Rightarrow> ThreadId \<Rightarrow> int \<Rightarrow> Kernel \<Rightarrow> Kernel" where
  "wake_with_error cpu tid err k =
     unblock cpu tid
       (clear_timeout tid (k\<lparr>wakeup_errors := (wakeup_errors k)[unat tid := err]\<rparr>))"

definition get_wakeup_error :: "ThreadId \<Rightarrow> Kernel \<Rightarrow> int \<times> Kernel" where
  "get_wakeup_error tid k =
     (wakeup_errors k ! unat tid, k\<lparr>wakeup_errors := (wakeup_errors k)[unat tid := 0]\<rparr>)"

definition deadline_from_now :: "Kernel \<Rightarrow> u64 \<Rightarrow> u64 option" where
  "deadline_from_now k timeout_ticks = deadline_after (tick_count k) timeout_ticks"

definition arm_timeout :: "ThreadId \<Rightarrow> u64 option \<Rightarrow> Kernel \<Rightarrow> Kernel" where
  "arm_timeout tid dl k =
     (case dl of
        Some t \<Rightarrow> k\<lparr>timeout_queue := (timeout_queue k)[unat tid :=
                     Some \<lparr>te_tid = tid, wake_at_tick = t, error_code = errno Etimedout\<rparr>]\<rparr>
      | None \<Rightarrow> k)"

text \<open>The part of \<open>sleep_ticks\<close> before the thread is switched out; it returns nothing after.\<close>

definition sleep_ticks :: "nat \<Rightarrow> u64 \<Rightarrow> Kernel \<Rightarrow> Kernel" where
  "sleep_ticks cpu ticks k =
     (if ticks = 0 then k
      else case current_thread_id cpu k of
        None \<Rightarrow> k
      | Some tid \<Rightarrow>
          let dl = (case deadline_after (tick_count k) ticks of Some d \<Rightarrow> d | None \<Rightarrow> u64_MAX) in
          block_current cpu (BlockedIpc u64_MAX)
            (k\<lparr>timeout_queue := (timeout_queue k)[unat tid :=
                 Some \<lparr>te_tid = tid, wake_at_tick = dl, error_code = 0\<rparr>]\<rparr>))"

section \<open>Select wakers\<close>

fun select_matches :: "SelectKind \<Rightarrow> SelectKind \<Rightarrow> bool" where
  "select_matches (SelChannel a) (SelChannel b) = (a = b)"
| "select_matches (SelNotification a _) (SelNotification b _) = (a = b)"
| "select_matches _ _ = False"

text \<open>The loop \<open>for i in 0..sw.entry_count\<close>: the first entry for the source.\<close>

definition find_ready :: "SelectWaiter \<Rightarrow> SelectKind \<Rightarrow> nat option" where
  "find_ready sw src =
     find (\<lambda>i. case sw_entries sw ! i of Some e \<Rightarrow> select_matches e src | None \<Rightarrow> False) [0..<entry_count sw]"

definition mark_ready :: "ThreadId \<Rightarrow> SelectWaiter \<Rightarrow> nat \<Rightarrow> u64 \<Rightarrow> Kernel \<Rightarrow> Kernel" where
  "mark_ready tid sw i bits k =
     k\<lparr>select_waiters := (select_waiters k)[unat tid := Some (sw\<lparr>ready_index := Some i, ready_bits := bits\<rparr>)]\<rparr>"

definition set_select_ready :: "ThreadId \<Rightarrow> SelectKind \<Rightarrow> u64 \<Rightarrow> Kernel \<Rightarrow> Kernel" where
  "set_select_ready tid src bits k =
     (case slot_at (select_waiters k) (unat tid) of
        None \<Rightarrow> k
      | Some sw \<Rightarrow> (case find_ready sw src of None \<Rightarrow> k | Some i \<Rightarrow> mark_ready tid sw i bits k))"

definition try_wake_select :: "nat \<Rightarrow> ThreadId \<Rightarrow> SelectKind \<Rightarrow> u64 \<Rightarrow> Kernel \<Rightarrow> bool \<times> Kernel" where
  "try_wake_select cpu tid src bits k =
     (if state_of k tid \<noteq> Some BlockedSelect then (False, k)
      else case slot_at (select_waiters k) (unat tid) of
        None \<Rightarrow> (False, k)
      | Some sw \<Rightarrow>
          (case find_ready sw src of
             None \<Rightarrow> (False, k)
           | Some i \<Rightarrow> (True, unblock cpu tid (mark_ready tid sw i bits k))))"

text \<open>How \<open>ipc_send\<close>, \<open>ipc_call\<close> and \<open>notification_signal\<close> wake a thread.\<close>

definition wake_receiver :: "nat \<Rightarrow> ThreadId \<Rightarrow> SelectKind \<Rightarrow> u64 \<Rightarrow> Kernel \<Rightarrow> Kernel" where
  "wake_receiver cpu tid src bits k =
     (case try_wake_select cpu tid src bits k of
        (True, k1) \<Rightarrow> k1
      | (False, k1) \<Rightarrow> unblock cpu tid k1)"

section \<open>Direct switch and priority inheritance\<close>

fun is_BlockedIpc :: "ThreadState \<Rightarrow> bool" where
  "is_BlockedIpc (BlockedIpc _) = True"
| "is_BlockedIpc _ = False"

text \<open>What the receiver inherits from the sender, and what the reply gives back.\<close>

definition inherit :: "Thread \<Rightarrow> Thread \<Rightarrow> Thread" where
  "inherit snder recv =
     (let s = sched snder;
          r = (sched recv)\<lparr>inherited_class := Some (effective_class s),
                inherited_priority := Some (effective_priority s), inherited_deadline := deadline s\<rparr>;
          r = (if effective_class s > sclass r
               then r\<lparr>effective_class := effective_class s, effective_priority := effective_priority s\<rparr> else r)
      in recv\<lparr>sched := r\<lparr>time_slice_remaining := time_slice_remaining s, th_state := Runnable\<rparr>,
              inheritance_depth := min (inheritance_depth snder + 1) MAX_INHERITANCE_DEPTH\<rparr>)"

definition disinherit :: "Thread \<Rightarrow> Thread" where
  "disinherit th =
     th\<lparr>sched := (sched th)\<lparr>effective_class := sclass (sched th), effective_priority := priority (sched th),
          inherited_class := None, inherited_priority := None, inherited_deadline := None\<rparr>,
        inheritance_depth := (if inheritance_depth th = 0 then 0 else inheritance_depth th - 1)\<rparr>"

definition try_direct_switch :: "nat \<Rightarrow> ThreadId \<Rightarrow> ThreadId \<Rightarrow> Kernel \<Rightarrow> bool \<times> Kernel" where
  "try_direct_switch cpu sender_tid receiver_tid k =
     (case (thread_of k sender_tid, thread_of k receiver_tid) of
        (Some snder, Some recv) \<Rightarrow>
          if is_BlockedIpc (th_state (sched recv)) then
            let k1 = set_thread receiver_tid (inherit snder) k;
                k2 = set_thread sender_tid (\<lambda>th. set_slice 0 (set_state (BlockedIpc 0) th)) k1
            in (True, k2\<lparr>current_thread := (current_thread k2)[cpu := Some receiver_tid]\<rparr>)
          else (False, k)
      | _ \<Rightarrow> (False, k))"

definition try_reply_switch :: "nat \<Rightarrow> ThreadId \<Rightarrow> ThreadId \<Rightarrow> Kernel \<Rightarrow> bool \<times> Kernel" where
  "try_reply_switch cpu replier_tid caller_tid k =
     (case (thread_of k replier_tid, thread_of k caller_tid) of
        (Some _, Some callr) \<Rightarrow>
          if is_BlockedIpc (th_state (sched callr)) then
            let k1 = set_thread replier_tid disinherit k;
                donated_slice = time_slice_remaining (sched (the (thread_of k1 replier_tid)));
                k2 = set_thread caller_tid (\<lambda>th. set_state Running (set_slice donated_slice th)) k1;
                k3 = set_thread replier_tid (\<lambda>th. set_slice 0 (set_state Runnable th)) k2;
                replier_class = effective_class (sched (the (thread_of k3 replier_tid)));
                k4 = k3\<lparr>current_thread := (current_thread k3)[cpu := Some caller_tid]\<rparr>
            in (True, enqueue_on_cpu cpu replier_tid replier_class k4)
          else (False, k)
      | _ \<Rightarrow> (False, k))"

section \<open>What the wakers leave alone\<close>

text \<open>
  The scheduler's operations change the scheduler's fields only: \<open>k_rest\<close> is the state without
  them. From \<open>k_rest (f k) = k_rest k\<close> follow the equations for all other tables, collected in
  \<open>frame_simps\<close> with those for the wakers.
\<close>

named_theorems frame_simps \<open>fields an operation does not change\<close>

definition k_rest :: "Kernel \<Rightarrow> Kernel" where
  "k_rest k = k\<lparr>threads := [], current_thread := [], run_queues := [], in_scheduler := [], need_resched := False\<rparr>"

lemma k_rest_sel:
  "channels (k_rest k) = channels k"
  "processes (k_rest k) = processes k"
  "notifications (k_rest k) = notifications k"
  "reply_slots (k_rest k) = reply_slots k"
  "wakeup_errors (k_rest k) = wakeup_errors k"
  "timeout_queue (k_rest k) = timeout_queue k"
  "notify_results (k_rest k) = notify_results k"
  "notify_deadlines (k_rest k) = notify_deadlines k"
  "select_waiters (k_rest k) = select_waiters k"
  "tick_count (k_rest k) = tick_count k"
  "busy (k_rest k) = busy k"
  "process_waiters (k_rest k) = process_waiters k"
  "exit_codes (k_rest k) = exit_codes k"
  "services (k_rest k) = services k"
  "service_count (k_rest k) = service_count k"
  "next_token_id (k_rest k) = next_token_id k"
  "audit_ring (k_rest k) = audit_ring k"
  "audit_head (k_rest k) = audit_head k"
  "frame_alloc (k_rest k) = frame_alloc k"
  "shared_regions (k_rest k) = shared_regions k"
  "private_allocs (k_rest k) = private_allocs k"
  by (simp_all add: k_rest_def)

lemma k_restD:
  assumes "k_rest k' = k_rest k"
  shows "channels k' = channels k"
    "processes k' = processes k"
    "notifications k' = notifications k"
    "reply_slots k' = reply_slots k"
    "wakeup_errors k' = wakeup_errors k"
    "timeout_queue k' = timeout_queue k"
    "notify_results k' = notify_results k"
    "notify_deadlines k' = notify_deadlines k"
    "select_waiters k' = select_waiters k"
    "tick_count k' = tick_count k"
    "busy k' = busy k"
    "process_waiters k' = process_waiters k"
    "exit_codes k' = exit_codes k"
    "services k' = services k"
    "service_count k' = service_count k"
    "next_token_id k' = next_token_id k"
    "audit_ring k' = audit_ring k"
    "audit_head k' = audit_head k"
    "frame_alloc k' = frame_alloc k"
    "shared_regions k' = shared_regions k"
    "private_allocs k' = private_allocs k"
  using arg_cong[OF assms, of channels] arg_cong[OF assms, of processes] arg_cong[OF assms, of notifications] arg_cong[OF assms, of reply_slots] arg_cong[OF assms, of wakeup_errors] arg_cong[OF assms, of timeout_queue] arg_cong[OF assms, of notify_results] arg_cong[OF assms, of notify_deadlines] arg_cong[OF assms, of select_waiters] arg_cong[OF assms, of tick_count] arg_cong[OF assms, of busy] arg_cong[OF assms, of process_waiters] arg_cong[OF assms, of exit_codes] arg_cong[OF assms, of services] arg_cong[OF assms, of service_count] arg_cong[OF assms, of next_token_id] arg_cong[OF assms, of audit_ring] arg_cong[OF assms, of audit_head] arg_cong[OF assms, of frame_alloc] arg_cong[OF assms, of shared_regions] arg_cong[OF assms, of private_allocs]
  by (simp_all add: k_rest_sel)

lemma k_rest_sched_fields [simp]:
  "k_rest (k\<lparr>threads := x\<rparr>) = k_rest k" "k_rest (k\<lparr>current_thread := c\<rparr>) = k_rest k"
  "k_rest (k\<lparr>run_queues := r\<rparr>) = k_rest k" "k_rest (k\<lparr>in_scheduler := s\<rparr>) = k_rest k"
  "k_rest (k\<lparr>in_scheduler := s, need_resched := n\<rparr>) = k_rest k" "k_rest (k\<lparr>need_resched := n\<rparr>) = k_rest k"
  by (simp_all add: k_rest_def)

lemma k_rest_primitives [simp]:
  "k_rest (set_thread tid f k) = k_rest k" "k_rest (enqueue_on_cpu cpu tid cls k) = k_rest k"
  "k_rest (leave_scheduler cpu k) = k_rest k"
  by (simp_all add: set_thread_def enqueue_on_cpu_def leave_scheduler_def)

lemma k_rest_pick [simp]: "k_rest (snd (pick_on_cpu cpu k)) = k_rest k"
  by (simp add: pick_on_cpu_def split: prod.split)

lemma k_rest_switch_to [simp]: "k_rest (switch_to cpu nxt k) = k_rest k"
  by (simp add: switch_to_def Let_def split: option.split)

lemma k_rest_requeue [simp]: "k_rest (snd (requeue_current cpu k)) = k_rest k"
  by (simp add: requeue_current_def split: option.split)

lemma k_rest_schedule [simp]: "k_rest (schedule cpu k) = k_rest k"
proof (cases "in_scheduler k ! cpu")
  case False
  define k0 where "k0 = k\<lparr>in_scheduler := (in_scheduler k)[cpu := True], need_resched := False\<rparr>"
  obtain b k1 where r: "requeue_current cpu k0 = (b, k1)" by fastforce
  obtain t k2 where p: "pick_on_cpu cpu k1 = (t, k2)" by fastforce
  have "k_rest k1 = k_rest k" "k_rest k2 = k_rest k1"
    using k_rest_requeue[of cpu k0, unfolded r snd_conv] k_rest_pick[of cpu k1, unfolded p snd_conv]
    by (simp_all add: k0_def)
  then show ?thesis
    using False r p unfolding schedule_def k0_def[symmetric] by (auto simp: Let_def split: bool.split option.split)
qed (simp add: schedule_def)

lemma k_rest_block [simp]: "k_rest (block_current cpu st k) = k_rest k"
  by (simp add: block_current_def split: option.split)

lemma k_rest_unblock [simp]: "k_rest (unblock cpu tid k) = k_rest k"
  by (simp add: unblock_def Let_def split: option.split)

lemma k_rest_direct [simp]: "k_rest (snd (try_direct_switch cpu s r k)) = k_rest k"
  by (simp add: try_direct_switch_def Let_def split: option.split)

lemma k_rest_reply [simp]: "k_rest (snd (try_reply_switch cpu s r k)) = k_rest k"
  by (simp add: try_reply_switch_def Let_def split: option.split)

lemmas unblock_frame [frame_simps] = k_restD[OF k_rest_unblock]
lemmas block_frame [frame_simps] = k_restD[OF k_rest_block]
lemmas schedule_frame [frame_simps] = k_restD[OF k_rest_schedule]
lemmas direct_frame [frame_simps] = k_restD[OF k_rest_direct]
lemmas reply_frame [frame_simps] = k_restD[OF k_rest_reply]

text \<open>The wakers touch, besides the scheduler, only the waiting thread's own entries.\<close>

lemma clear_timeout_frame [frame_simps]:
  "channels (clear_timeout tid k) = channels k"
  "processes (clear_timeout tid k) = processes k"
  "notifications (clear_timeout tid k) = notifications k"
  "reply_slots (clear_timeout tid k) = reply_slots k"
  "wakeup_errors (clear_timeout tid k) = wakeup_errors k"
  "notify_results (clear_timeout tid k) = notify_results k"
  "notify_deadlines (clear_timeout tid k) = notify_deadlines k"
  "select_waiters (clear_timeout tid k) = select_waiters k"
  "tick_count (clear_timeout tid k) = tick_count k"
  "busy (clear_timeout tid k) = busy k"
  "process_waiters (clear_timeout tid k) = process_waiters k"
  "exit_codes (clear_timeout tid k) = exit_codes k"
  "services (clear_timeout tid k) = services k"
  "service_count (clear_timeout tid k) = service_count k"
  "next_token_id (clear_timeout tid k) = next_token_id k"
  "audit_ring (clear_timeout tid k) = audit_ring k"
  "audit_head (clear_timeout tid k) = audit_head k"
  "frame_alloc (clear_timeout tid k) = frame_alloc k"
  "shared_regions (clear_timeout tid k) = shared_regions k"
  "private_allocs (clear_timeout tid k) = private_allocs k"
  "threads (clear_timeout tid k) = threads k"
  "current_thread (clear_timeout tid k) = current_thread k"
  "run_queues (clear_timeout tid k) = run_queues k"
  "in_scheduler (clear_timeout tid k) = in_scheduler k"
  "need_resched (clear_timeout tid k) = need_resched k"
  by (simp_all add: clear_timeout_def)

lemma arm_timeout_frame [frame_simps]:
  "channels (arm_timeout tid dl k) = channels k"
  "processes (arm_timeout tid dl k) = processes k"
  "notifications (arm_timeout tid dl k) = notifications k"
  "reply_slots (arm_timeout tid dl k) = reply_slots k"
  "wakeup_errors (arm_timeout tid dl k) = wakeup_errors k"
  "notify_results (arm_timeout tid dl k) = notify_results k"
  "notify_deadlines (arm_timeout tid dl k) = notify_deadlines k"
  "select_waiters (arm_timeout tid dl k) = select_waiters k"
  "tick_count (arm_timeout tid dl k) = tick_count k"
  "busy (arm_timeout tid dl k) = busy k"
  "process_waiters (arm_timeout tid dl k) = process_waiters k"
  "exit_codes (arm_timeout tid dl k) = exit_codes k"
  "services (arm_timeout tid dl k) = services k"
  "service_count (arm_timeout tid dl k) = service_count k"
  "next_token_id (arm_timeout tid dl k) = next_token_id k"
  "audit_ring (arm_timeout tid dl k) = audit_ring k"
  "audit_head (arm_timeout tid dl k) = audit_head k"
  "frame_alloc (arm_timeout tid dl k) = frame_alloc k"
  "shared_regions (arm_timeout tid dl k) = shared_regions k"
  "private_allocs (arm_timeout tid dl k) = private_allocs k"
  "threads (arm_timeout tid dl k) = threads k"
  "current_thread (arm_timeout tid dl k) = current_thread k"
  "run_queues (arm_timeout tid dl k) = run_queues k"
  "in_scheduler (arm_timeout tid dl k) = in_scheduler k"
  "need_resched (arm_timeout tid dl k) = need_resched k"
  by (simp_all add: arm_timeout_def split: option.split)

lemma wake_with_error_frame [frame_simps]:
  "channels (wake_with_error cpu tid e k) = channels k"
  "processes (wake_with_error cpu tid e k) = processes k"
  "notifications (wake_with_error cpu tid e k) = notifications k"
  "reply_slots (wake_with_error cpu tid e k) = reply_slots k"
  "notify_results (wake_with_error cpu tid e k) = notify_results k"
  "notify_deadlines (wake_with_error cpu tid e k) = notify_deadlines k"
  "select_waiters (wake_with_error cpu tid e k) = select_waiters k"
  "tick_count (wake_with_error cpu tid e k) = tick_count k"
  "busy (wake_with_error cpu tid e k) = busy k"
  "process_waiters (wake_with_error cpu tid e k) = process_waiters k"
  "exit_codes (wake_with_error cpu tid e k) = exit_codes k"
  "services (wake_with_error cpu tid e k) = services k"
  "service_count (wake_with_error cpu tid e k) = service_count k"
  "next_token_id (wake_with_error cpu tid e k) = next_token_id k"
  "audit_ring (wake_with_error cpu tid e k) = audit_ring k"
  "audit_head (wake_with_error cpu tid e k) = audit_head k"
  "frame_alloc (wake_with_error cpu tid e k) = frame_alloc k"
  "shared_regions (wake_with_error cpu tid e k) = shared_regions k"
  "private_allocs (wake_with_error cpu tid e k) = private_allocs k"
  by (simp_all add: wake_with_error_def frame_simps)

lemma mark_ready_frame [frame_simps]:
  "channels (mark_ready tid sw i bits k) = channels k"
  "processes (mark_ready tid sw i bits k) = processes k"
  "notifications (mark_ready tid sw i bits k) = notifications k"
  "reply_slots (mark_ready tid sw i bits k) = reply_slots k"
  "wakeup_errors (mark_ready tid sw i bits k) = wakeup_errors k"
  "timeout_queue (mark_ready tid sw i bits k) = timeout_queue k"
  "notify_results (mark_ready tid sw i bits k) = notify_results k"
  "notify_deadlines (mark_ready tid sw i bits k) = notify_deadlines k"
  "tick_count (mark_ready tid sw i bits k) = tick_count k"
  "busy (mark_ready tid sw i bits k) = busy k"
  "process_waiters (mark_ready tid sw i bits k) = process_waiters k"
  "exit_codes (mark_ready tid sw i bits k) = exit_codes k"
  "services (mark_ready tid sw i bits k) = services k"
  "service_count (mark_ready tid sw i bits k) = service_count k"
  "next_token_id (mark_ready tid sw i bits k) = next_token_id k"
  "audit_ring (mark_ready tid sw i bits k) = audit_ring k"
  "audit_head (mark_ready tid sw i bits k) = audit_head k"
  "frame_alloc (mark_ready tid sw i bits k) = frame_alloc k"
  "shared_regions (mark_ready tid sw i bits k) = shared_regions k"
  "private_allocs (mark_ready tid sw i bits k) = private_allocs k"
  "threads (mark_ready tid sw i bits k) = threads k"
  "current_thread (mark_ready tid sw i bits k) = current_thread k"
  "run_queues (mark_ready tid sw i bits k) = run_queues k"
  "in_scheduler (mark_ready tid sw i bits k) = in_scheduler k"
  "need_resched (mark_ready tid sw i bits k) = need_resched k"
  by (simp_all add: mark_ready_def)

lemma set_select_ready_frame [frame_simps]:
  "channels (set_select_ready tid src bits k) = channels k"
  "processes (set_select_ready tid src bits k) = processes k"
  "notifications (set_select_ready tid src bits k) = notifications k"
  "reply_slots (set_select_ready tid src bits k) = reply_slots k"
  "wakeup_errors (set_select_ready tid src bits k) = wakeup_errors k"
  "timeout_queue (set_select_ready tid src bits k) = timeout_queue k"
  "notify_results (set_select_ready tid src bits k) = notify_results k"
  "notify_deadlines (set_select_ready tid src bits k) = notify_deadlines k"
  "tick_count (set_select_ready tid src bits k) = tick_count k"
  "busy (set_select_ready tid src bits k) = busy k"
  "process_waiters (set_select_ready tid src bits k) = process_waiters k"
  "exit_codes (set_select_ready tid src bits k) = exit_codes k"
  "services (set_select_ready tid src bits k) = services k"
  "service_count (set_select_ready tid src bits k) = service_count k"
  "next_token_id (set_select_ready tid src bits k) = next_token_id k"
  "audit_ring (set_select_ready tid src bits k) = audit_ring k"
  "audit_head (set_select_ready tid src bits k) = audit_head k"
  "frame_alloc (set_select_ready tid src bits k) = frame_alloc k"
  "shared_regions (set_select_ready tid src bits k) = shared_regions k"
  "private_allocs (set_select_ready tid src bits k) = private_allocs k"
  "threads (set_select_ready tid src bits k) = threads k"
  "current_thread (set_select_ready tid src bits k) = current_thread k"
  "run_queues (set_select_ready tid src bits k) = run_queues k"
  "in_scheduler (set_select_ready tid src bits k) = in_scheduler k"
  "need_resched (set_select_ready tid src bits k) = need_resched k"
  by (simp_all add: set_select_ready_def frame_simps split: option.split)

lemma try_wake_select_frame [frame_simps]:
  "channels (snd (try_wake_select cpu tid src bits k)) = channels k"
  "processes (snd (try_wake_select cpu tid src bits k)) = processes k"
  "notifications (snd (try_wake_select cpu tid src bits k)) = notifications k"
  "reply_slots (snd (try_wake_select cpu tid src bits k)) = reply_slots k"
  "wakeup_errors (snd (try_wake_select cpu tid src bits k)) = wakeup_errors k"
  "timeout_queue (snd (try_wake_select cpu tid src bits k)) = timeout_queue k"
  "notify_results (snd (try_wake_select cpu tid src bits k)) = notify_results k"
  "notify_deadlines (snd (try_wake_select cpu tid src bits k)) = notify_deadlines k"
  "tick_count (snd (try_wake_select cpu tid src bits k)) = tick_count k"
  "busy (snd (try_wake_select cpu tid src bits k)) = busy k"
  "process_waiters (snd (try_wake_select cpu tid src bits k)) = process_waiters k"
  "exit_codes (snd (try_wake_select cpu tid src bits k)) = exit_codes k"
  "services (snd (try_wake_select cpu tid src bits k)) = services k"
  "service_count (snd (try_wake_select cpu tid src bits k)) = service_count k"
  "next_token_id (snd (try_wake_select cpu tid src bits k)) = next_token_id k"
  "audit_ring (snd (try_wake_select cpu tid src bits k)) = audit_ring k"
  "audit_head (snd (try_wake_select cpu tid src bits k)) = audit_head k"
  "frame_alloc (snd (try_wake_select cpu tid src bits k)) = frame_alloc k"
  "shared_regions (snd (try_wake_select cpu tid src bits k)) = shared_regions k"
  "private_allocs (snd (try_wake_select cpu tid src bits k)) = private_allocs k"
  by (simp_all add: try_wake_select_def frame_simps split: option.split)

lemma wake_receiver_frame [frame_simps]:
  "channels (wake_receiver cpu tid src bits k) = channels k"
  "processes (wake_receiver cpu tid src bits k) = processes k"
  "notifications (wake_receiver cpu tid src bits k) = notifications k"
  "reply_slots (wake_receiver cpu tid src bits k) = reply_slots k"
  "wakeup_errors (wake_receiver cpu tid src bits k) = wakeup_errors k"
  "timeout_queue (wake_receiver cpu tid src bits k) = timeout_queue k"
  "notify_results (wake_receiver cpu tid src bits k) = notify_results k"
  "notify_deadlines (wake_receiver cpu tid src bits k) = notify_deadlines k"
  "tick_count (wake_receiver cpu tid src bits k) = tick_count k"
  "busy (wake_receiver cpu tid src bits k) = busy k"
  "process_waiters (wake_receiver cpu tid src bits k) = process_waiters k"
  "exit_codes (wake_receiver cpu tid src bits k) = exit_codes k"
  "services (wake_receiver cpu tid src bits k) = services k"
  "service_count (wake_receiver cpu tid src bits k) = service_count k"
  "next_token_id (wake_receiver cpu tid src bits k) = next_token_id k"
  "audit_ring (wake_receiver cpu tid src bits k) = audit_ring k"
  "audit_head (wake_receiver cpu tid src bits k) = audit_head k"
  "frame_alloc (wake_receiver cpu tid src bits k) = frame_alloc k"
  "shared_regions (wake_receiver cpu tid src bits k) = shared_regions k"
  "private_allocs (wake_receiver cpu tid src bits k) = private_allocs k"
proof -
  obtain b k1 where r: "try_wake_select cpu tid src bits k = (b, k1)" by fastforce
  note f = try_wake_select_frame[of cpu tid src bits k, unfolded r snd_conv]
  show "channels (wake_receiver cpu tid src bits k) = channels k"
    "processes (wake_receiver cpu tid src bits k) = processes k"
    "notifications (wake_receiver cpu tid src bits k) = notifications k"
    "reply_slots (wake_receiver cpu tid src bits k) = reply_slots k"
    "wakeup_errors (wake_receiver cpu tid src bits k) = wakeup_errors k"
    "timeout_queue (wake_receiver cpu tid src bits k) = timeout_queue k"
    "notify_results (wake_receiver cpu tid src bits k) = notify_results k"
    "notify_deadlines (wake_receiver cpu tid src bits k) = notify_deadlines k"
    "tick_count (wake_receiver cpu tid src bits k) = tick_count k"
    "busy (wake_receiver cpu tid src bits k) = busy k"
    "process_waiters (wake_receiver cpu tid src bits k) = process_waiters k"
    "exit_codes (wake_receiver cpu tid src bits k) = exit_codes k"
    "services (wake_receiver cpu tid src bits k) = services k"
    "service_count (wake_receiver cpu tid src bits k) = service_count k"
    "next_token_id (wake_receiver cpu tid src bits k) = next_token_id k"
    "audit_ring (wake_receiver cpu tid src bits k) = audit_ring k"
    "audit_head (wake_receiver cpu tid src bits k) = audit_head k"
    "frame_alloc (wake_receiver cpu tid src bits k) = frame_alloc k"
    "shared_regions (wake_receiver cpu tid src bits k) = shared_regions k"
    "private_allocs (wake_receiver cpu tid src bits k) = private_allocs k"
    by (simp_all add: wake_receiver_def r f unblock_frame split: bool.split)
qed

lemma wakeup_errors_wake [simp]:
  "wakeup_errors (wake_with_error cpu tid e k) = (wakeup_errors k)[unat tid := e]"
  by (simp add: wake_with_error_def frame_simps)

end
