(* ===== verification/Ipc_Channel.thy ===== *)
theory Ipc_Channel
  imports Ipc_Wake
begin

text \<open>
  IPC channels: creation and destruction (\<open>kernel/src/ipc/mod.rs\<close>), call, receive, reply, send
  and cancel (\<open>kernel/src/ipc/channel.rs\<close>), and the revocation of capabilities, which destroys
  channels (\<open>kernel/src/cap/mod.rs\<close>). \<open>ipc_call\<close> and \<open>ipc_recv\<close> are in two parts: the call up to
  the switch, whose outcome is \<open>Blocked\<close> or a result, and the rest, run when the thread is
  resumed.
\<close>

datatype 'r outcome = Done 'r | Blocked

section \<open>The channel table\<close>

definition channel_slot :: "Kernel \<Rightarrow> ChannelId \<Rightarrow> (Channel option, int) result" where
  "channel_slot k i =
     (case channel_index i of Some idx \<Rightarrow> Ok (channels k ! idx) | None \<Rightarrow> Err (errno Einval))"

definition channel_mut :: "Kernel \<Rightarrow> ChannelId \<Rightarrow> (Channel, int) result" where
  "channel_mut k i =
     (case channel_slot k i of
        Err e \<Rightarrow> Err e
      | Ok None \<Rightarrow> Err (errno Epipe)
      | Ok (Some ch) \<Rightarrow> Ok ch)"

definition set_channel :: "ChannelId \<Rightarrow> Channel option \<Rightarrow> Kernel \<Rightarrow> Kernel" where
  "set_channel i ch k = k\<lparr>channels := (channels k)[unat i := ch]\<rparr>"

definition channel_create :: "ThreadId \<Rightarrow> Kernel \<Rightarrow> (ChannelId, int) result \<times> Kernel" where
  "channel_create creator_tid k =
     (case process_of_thread k creator_tid of
        None \<Rightarrow> (Err (errno Eperm), k)
      | Some pid \<Rightarrow>
          (case check_channel_create k pid of
             Err e \<Rightarrow> (Err e, k)
           | Ok auth_token \<Rightarrow>
               (case first_free (channels k) of
                  None \<Rightarrow> (Err (errno Enospc), k)
                | Some idx \<Rightarrow>
                    let i = word_of_nat idx;
                        ch = (channel_new i pid)\<lparr>creation_cap := Some auth_token\<rparr>
                    in (Ok i, k\<lparr>channels := (channels k)[idx := Some ch]\<rparr>))))"

definition channel_set_peer :: "ChannelId \<Rightarrow> ProcessId \<Rightarrow> Kernel \<Rightarrow> (unit, int) result \<times> Kernel" where
  "channel_set_peer channel peer k =
     (case channel_mut k channel of
        Err e \<Rightarrow> (Err e, k)
      | Ok ch \<Rightarrow> (Ok (), set_channel channel (Some (ch\<lparr>owner_b := Some peer\<rparr>)) k))"

definition wake_opt :: "nat \<Rightarrow> ThreadId option \<Rightarrow> int \<Rightarrow> Kernel \<Rightarrow> Kernel" where
  "wake_opt cpu t err k = (case t of Some tid \<Rightarrow> wake_with_error cpu tid err k | None \<Rightarrow> k)"

definition channel_destroy_unchecked :: "nat \<Rightarrow> ChannelId \<Rightarrow> Kernel \<Rightarrow> (unit, int) result \<times> Kernel" where
  "channel_destroy_unchecked cpu channel k =
     (case channel_slot k channel of
        Err e \<Rightarrow> (Err e, k)
      | Ok None \<Rightarrow> (Err (errno Epipe), k)
      | Ok (Some ch) \<Rightarrow>
          (Ok (), wake_opt cpu (pending_caller ch) (errno Epipe)
                    (wake_opt cpu (waiting_receiver ch) (errno Epipe) (set_channel channel None k))))"

text \<open>The checks with which every operation on a channel starts.\<close>

definition authorize :: "nat \<Rightarrow> ChannelId \<Rightarrow> Kernel \<Rightarrow> (unit, int) result" where
  "authorize cpu channel k =
     (case current_process_id cpu k of
        None \<Rightarrow> Err (errno Eperm)
      | Some pid \<Rightarrow> check_channel_access k pid channel)"

definition channel_destroy :: "nat \<Rightarrow> ChannelId \<Rightarrow> Kernel \<Rightarrow> (unit, int) result \<times> Kernel" where
  "channel_destroy cpu channel k =
     (case authorize cpu channel k of
        Err e \<Rightarrow> (Err e, k)
      | Ok _ \<Rightarrow> channel_destroy_unchecked cpu channel k)"

section \<open>ipc_call\<close>

text \<open>The code after the channel's lock is released, with and without a waiting receiver.\<close>

definition register_call :: "ThreadId \<Rightarrow> u8 list \<Rightarrow> u64 option \<Rightarrow> Kernel \<Rightarrow> Kernel" where
  "register_call caller_tid recv_buf dl k =
     arm_timeout caller_tid dl
       (k\<lparr>reply_slots := (reply_slots k)[unat caller_tid := Some \<lparr>rs_buf = recv_buf, bytes_written = 0\<rparr>]\<rparr>)"

definition ipc_call_switch ::
  "nat \<Rightarrow> ThreadId \<Rightarrow> ChannelId \<Rightarrow> ThreadId option \<Rightarrow> u8 list \<Rightarrow> u64 option \<Rightarrow> Kernel \<Rightarrow> Kernel" where
  "ipc_call_switch cpu caller_tid channel target recv_buf dl k =
     (case target of
        Some recv_tid \<Rightarrow>
          let k1 = set_select_ready recv_tid (SelChannel channel) 0 (clear_timeout recv_tid k);
              k2 = register_call caller_tid recv_buf dl k1
          in (case try_direct_switch cpu caller_tid recv_tid k2 of
                (True, k3) \<Rightarrow> k3
              | (False, k3) \<Rightarrow>
                  block_current cpu (BlockedIpc (ucast channel))
                    (wake_receiver cpu recv_tid (SelChannel channel) 0 k3))
      | None \<Rightarrow>
          block_current cpu (BlockedIpc (ucast channel)) (register_call caller_tid recv_buf dl k))"

definition ipc_call ::
  "nat \<Rightarrow> ChannelId \<Rightarrow> u8 list \<Rightarrow> u8 list \<Rightarrow> u64 \<Rightarrow> Kernel \<Rightarrow> int outcome \<times> Kernel" where
  "ipc_call cpu channel send_buf recv_buf timeout_ticks k =
     (if length send_buf > MAX_MESSAGE_SIZE then (Done (errno Enospc), k)
      else case current_thread_id cpu k of
        None \<Rightarrow> (Done (errno Eperm), k)
      | Some caller_tid \<Rightarrow>
     (case process_of_thread k caller_tid of
        None \<Rightarrow> (Done (errno Eperm), k)
      | Some pid \<Rightarrow>
     (case check_channel_access k pid channel of
        Err e \<Rightarrow> (Done e, k)
      | Ok _ \<Rightarrow>
     (case channel_mut k channel of
        Err e \<Rightarrow> (Done e, k)
      | Ok ch \<Rightarrow>
          if endpoint_dead ch then (Done (errno Epipe), k)
          else if pending_caller ch \<noteq> None then (Done (errno Eagain), k)
          else (case ring_push (build_message caller_tid send_buf) (ring ch) of
            (False, _) \<Rightarrow> (Done (errno Enospc), k)
          | (True, rg) \<Rightarrow>
              let dl = (if timeout_ticks = 0 then None else deadline_from_now k timeout_ticks);
                  ch' = ch\<lparr>ring := rg, pending_caller := Some caller_tid, waiting_receiver := None\<rparr>
              in (Blocked, ipc_call_switch cpu caller_tid channel (waiting_receiver ch) recv_buf dl
                             (set_channel channel (Some ch') k)))))))"

text \<open>
  The rest of \<open>ipc_call\<close>, on the thread \<open>caller_tid\<close>: the returned code and the contents of
  \<open>recv_buf\<close>.
\<close>

definition ipc_call_resume :: "ThreadId \<Rightarrow> ChannelId \<Rightarrow> u8 list \<Rightarrow> Kernel \<Rightarrow> (int \<times> u8 list) \<times> Kernel" where
  "ipc_call_resume caller_tid channel recv_buf k =
     (let k1 = k\<lparr>timeout_queue := (timeout_queue k)[unat caller_tid := None]\<rparr>;
          (res, buf) = (case slot_at (reply_slots k1) (unat caller_tid) of
                          Some slot \<Rightarrow> (int (bytes_written slot), rs_buf slot)
                        | None \<Rightarrow> (0, recv_buf));
          k2 = k1\<lparr>reply_slots := (reply_slots k1)[unat caller_tid := None]\<rparr>
      in case get_wakeup_error caller_tid k2 of
           (err, k3) \<Rightarrow>
             if err \<noteq> 0 then
               ((err, buf),
                case channel_mut k3 channel of
                  Ok ch \<Rightarrow> if pending_caller ch = Some caller_tid
                           then set_channel channel (Some (ch\<lparr>pending_caller := None\<rparr>)) k3 else k3
                | Err _ \<Rightarrow> k3)
             else ((res, buf), k3))"

section \<open>ipc_recv\<close>

definition take_message :: "RawMessage \<Rightarrow> u8 list \<Rightarrow> nat \<times> u8 list" where
  "take_message msg recv_buf =
     (let copy_len = min (msg_len msg) (length recv_buf)
      in (copy_len, take copy_len (data msg) @ drop copy_len recv_buf))"

definition ipc_recv ::
  "nat \<Rightarrow> ChannelId \<Rightarrow> u8 list \<Rightarrow> u64 \<Rightarrow> Kernel \<Rightarrow>
     ((nat \<times> ThreadId, int) result \<times> u8 list) outcome \<times> Kernel" where
  "ipc_recv cpu channel recv_buf timeout_ticks k =
     (case current_thread_id cpu k of
        None \<Rightarrow> (Done (Err (errno Eperm), recv_buf), k)
      | Some receiver_tid \<Rightarrow>
     (case process_of_thread k receiver_tid of
        None \<Rightarrow> (Done (Err (errno Eperm), recv_buf), k)
      | Some pid \<Rightarrow>
     (case check_channel_access k pid channel of
        Err e \<Rightarrow> (Done (Err e, recv_buf), k)
      | Ok _ \<Rightarrow>
     (case channel_mut k channel of
        Err e \<Rightarrow> (Done (Err e, recv_buf), k)
      | Ok ch \<Rightarrow>
          if endpoint_dead ch then (Done (Err (errno Epipe), recv_buf), k)
          else (case ring_pop (ring ch) of
            (Some msg, rg) \<Rightarrow>
              (case take_message msg recv_buf of (n, buf) \<Rightarrow>
                 (Done (Ok (n, sender msg), buf), set_channel channel (Some (ch\<lparr>ring := rg\<rparr>)) k))
          | (None, _) \<Rightarrow>
              if timeout_ticks = 0 then (Done (Err (errno Eagain), recv_buf), k)
              else if waiting_receiver ch \<noteq> None then (Done (Err (errno Eagain), recv_buf), k)
              else (Blocked,
                    block_current cpu (BlockedIpc (ucast channel))
                      (arm_timeout receiver_tid (deadline_from_now k timeout_ticks)
                        (set_channel channel (Some (ch\<lparr>waiting_receiver := Some receiver_tid\<rparr>)) k))))))))"

definition ipc_recv_resume ::
  "ThreadId \<Rightarrow> ChannelId \<Rightarrow> u8 list \<Rightarrow> Kernel \<Rightarrow> ((nat \<times> ThreadId, int) result \<times> u8 list) \<times> Kernel" where
  "ipc_recv_resume receiver_tid channel recv_buf k =
     (let k1 = k\<lparr>timeout_queue := (timeout_queue k)[unat receiver_tid := None]\<rparr>;
          k2 = (case channel_mut k1 channel of
                  Ok ch \<Rightarrow> if waiting_receiver ch = Some receiver_tid
                           then set_channel channel (Some (ch\<lparr>waiting_receiver := None\<rparr>)) k1 else k1
                | Err _ \<Rightarrow> k1)
      in case get_wakeup_error receiver_tid k2 of
           (err, k3) \<Rightarrow>
             if err \<noteq> 0 then ((Err err, recv_buf), k3)
             else (case channel_mut k3 channel of
               Err e \<Rightarrow> ((Err e, recv_buf), k3)
             | Ok ch \<Rightarrow>
                 (case ring_pop (ring ch) of
                    (Some msg, rg) \<Rightarrow>
                      (case take_message msg recv_buf of (n, buf) \<Rightarrow>
                         ((Ok (n, sender msg), buf), set_channel channel (Some (ch\<lparr>ring := rg\<rparr>)) k3))
                  | (None, _) \<Rightarrow> ((Err (errno Eagain), recv_buf), k3))))"

section \<open>ipc_reply, ipc_send, ipc_cancel\<close>

definition write_reply :: "u8 list \<Rightarrow> ReplySlot \<Rightarrow> ReplySlot" where
  "write_reply reply_buf slot =
     (let copy_len = min (length reply_buf) (length (rs_buf slot))
      in \<lparr>rs_buf = take copy_len reply_buf @ drop copy_len (rs_buf slot), bytes_written = copy_len\<rparr>)"

definition ipc_reply :: "nat \<Rightarrow> ChannelId \<Rightarrow> u8 list \<Rightarrow> Kernel \<Rightarrow> int \<times> Kernel" where
  "ipc_reply cpu channel reply_buf k =
     (if length reply_buf > MAX_MESSAGE_SIZE then (errno Enospc, k)
      else case current_thread_id cpu k of
        None \<Rightarrow> (errno Eperm, k)
      | Some replier_tid \<Rightarrow>
     (case channel_mut k channel of
        Err e \<Rightarrow> (e, k)
      | Ok ch \<Rightarrow>
     (case pending_caller ch of
        None \<Rightarrow> (errno Eproto, k)
      | Some caller_tid \<Rightarrow>
          let k1 = set_channel channel (Some (ch\<lparr>pending_caller := None\<rparr>)) k;
              k2 = k1\<lparr>reply_slots := (reply_slots k1)[unat caller_tid :=
                        map_option (write_reply reply_buf) (slot_at (reply_slots k1) (unat caller_tid))]\<rparr>;
              k3 = clear_timeout caller_tid k2
          in (case try_reply_switch cpu replier_tid caller_tid k3 of
                (True, k4) \<Rightarrow> (0, k4)
              | (False, k4) \<Rightarrow> (0, unblock cpu caller_tid k4)))))"

definition ipc_send :: "nat \<Rightarrow> ChannelId \<Rightarrow> u8 list \<Rightarrow> Kernel \<Rightarrow> int \<times> Kernel" where
  "ipc_send cpu channel send_buf k =
     (if length send_buf > MAX_MESSAGE_SIZE then (errno Enospc, k)
      else case current_thread_id cpu k of
        None \<Rightarrow> (errno Eperm, k)
      | Some sender_tid \<Rightarrow>
     (case process_of_thread k sender_tid of
        None \<Rightarrow> (errno Eperm, k)
      | Some pid \<Rightarrow>
     (case check_channel_access k pid channel of
        Err e \<Rightarrow> (e, k)
      | Ok _ \<Rightarrow>
     (case channel_mut k channel of
        Err e \<Rightarrow> (e, k)
      | Ok ch \<Rightarrow>
          if endpoint_dead ch then (errno Epipe, k)
          else (case ring_push (build_message sender_tid send_buf) (ring ch) of
            (False, _) \<Rightarrow> (errno Eagain, k)
          | (True, rg) \<Rightarrow>
              let k1 = set_channel channel (Some (ch\<lparr>ring := rg, waiting_receiver := None\<rparr>)) k
              in (case waiting_receiver ch of
                    None \<Rightarrow> (0, k1)
                  | Some recv_tid \<Rightarrow>
                      (0, wake_receiver cpu recv_tid (SelChannel channel) 0 (clear_timeout recv_tid k1))))))))"

definition ipc_cancel :: "nat \<Rightarrow> ChannelId \<Rightarrow> Kernel \<Rightarrow> int \<times> Kernel" where
  "ipc_cancel cpu channel k =
     (case authorize cpu channel k of
        Err e \<Rightarrow> (e, k)
      | Ok _ \<Rightarrow>
     (case channel_mut k channel of
        Err e \<Rightarrow> (e, k)
      | Ok ch \<Rightarrow>
     (case pending_caller ch of
        None \<Rightarrow> (0, k)
      | Some caller_tid \<Rightarrow>
          (0, wake_with_error cpu caller_tid (errno Ecanceled)
                (set_channel channel (Some (ch\<lparr>pending_caller := None\<rparr>)) k)))))"

section \<open>Revocation\<close>

text \<open>
  \<open>revoke_channels_for_cap\<close>: the ids are collected first (the array holds one per channel, so
  it never fills up), then the channels are destroyed one after the other.
\<close>

definition channels_of_cap :: "CapabilityTokenId \<Rightarrow> Kernel \<Rightarrow> ChannelId list" where
  "channels_of_cap token_id k =
     map word_of_nat
       (filter (\<lambda>i. case channels k ! i of
                      Some ch \<Rightarrow> creation_cap ch = Some token_id
                    | None \<Rightarrow> False) [0..<length (channels k)])"

definition revoke_channels_for_cap :: "nat \<Rightarrow> CapabilityTokenId \<Rightarrow> Kernel \<Rightarrow> Kernel" where
  "revoke_channels_for_cap cpu token_id k =
     fold (\<lambda>ch k. snd (channel_destroy_unchecked cpu ch k)) (channels_of_cap token_id k) k"


definition kit_revoke ::
  "nat \<Rightarrow> ProcessId \<Rightarrow> CapabilityHandle \<Rightarrow> Kernel \<Rightarrow> (unit, CapabilityError) result \<times> Kernel" where
  "kit_revoke cpu hold h k =
     (case process_ref k hold of
        Err _ \<Rightarrow> (Err (InvalidHandle h), k)
      | Ok proc \<Rightarrow>
          if unat h \<ge> length (tokens (cap_table proc)) then (Err (InvalidHandle h), k)
          else case tokens (cap_table proc) ! unat h of
            None \<Rightarrow> (Err (InvalidHandle h), k)
          | Some token \<Rightarrow>
              if revoked token then (Err (Revoked (tok_id token)), k)
              else
                let k1 = k\<lparr>processes := (processes k)[unat hold :=
                           Some (proc\<lparr>cap_table := revoke (tok_id token) (cap_table proc)\<rparr>)]\<rparr>
                in (Ok (), revoke_channels_for_cap cpu (tok_id token) k1))"

section \<open>Well-formed channel tables\<close>

abbreviation tid_ok :: "ThreadId \<Rightarrow> bool" where
  "tid_ok tid \<equiv> unat tid < MAX_THREADS"

definition msg_ok :: "RawMessage \<Rightarrow> bool" where
  "msg_ok m \<longleftrightarrow> length (data m) = MAX_MESSAGE_SIZE \<and> msg_len m \<le> MAX_MESSAGE_SIZE"

definition chan_ok :: "nat \<Rightarrow> Channel \<Rightarrow> bool" where
  "chan_ok i ch \<longleftrightarrow>
     unat (ch_id ch) = i \<and> ring_inv (ring ch) \<and> (\<forall>m\<in>set (ring_list (ring ch)). msg_ok m) \<and>
     (\<forall>t. waiting_receiver ch = Some t \<longrightarrow> tid_ok t) \<and> (\<forall>t. pending_caller ch = Some t \<longrightarrow> tid_ok t)"

text \<open>Each channel sits in the slot of its id, its ring is sound, and the threads it names exist.\<close>

definition chans_ok :: "Channel option list \<Rightarrow> bool" where
  "chans_ok cs \<longleftrightarrow> length cs = MAX_CHANNELS \<and> (\<forall>i < MAX_CHANNELS. \<forall>ch. cs ! i = Some ch \<longrightarrow> chan_ok i ch)"

lemma chans_okD: "chans_ok cs \<Longrightarrow> i < MAX_CHANNELS \<Longrightarrow> cs ! i = Some ch \<Longrightarrow> chan_ok i ch"
  by (simp add: chans_ok_def)

lemma chans_ok_length: "chans_ok cs \<Longrightarrow> length cs = MAX_CHANNELS"
  by (simp add: chans_ok_def)

lemma chans_ok_set:
  "chans_ok cs \<Longrightarrow> (\<And>ch. c = Some ch \<Longrightarrow> i < MAX_CHANNELS \<Longrightarrow> chan_ok i ch) \<Longrightarrow> chans_ok (cs[i := c])"
  by (cases "i < length cs") (auto simp: chans_ok_def nth_list_update list_update_beyond split: if_splits)

lemma chans_ok_put [simp]: "chans_ok cs \<Longrightarrow> chan_ok i ch \<Longrightarrow> chans_ok (cs[i := Some ch])"
  by (rule chans_ok_set) simp_all

lemma chans_ok_clear [simp]: "chans_ok cs \<Longrightarrow> chans_ok (cs[i := None])"
  by (rule chans_ok_set) simp_all

lemma channel_mut_Ok:
  "channel_mut k i = Ok ch \<longleftrightarrow> unat i < MAX_CHANNELS \<and> channels k ! unat i = Some ch"
  by (auto simp: channel_mut_def channel_slot_def channel_index_def Let_def split: option.splits if_splits)

lemma channels_set_channel [simp]: "channels (set_channel i c k) = (channels k)[unat i := c]"
  by (simp add: set_channel_def)

lemma set_channel_frame [frame_simps]:
  "threads (set_channel i c k) = threads k" "current_thread (set_channel i c k) = current_thread k"
  "run_queues (set_channel i c k) = run_queues k" "processes (set_channel i c k) = processes k"
  "wakeup_errors (set_channel i c k) = wakeup_errors k" "reply_slots (set_channel i c k) = reply_slots k"
  "timeout_queue (set_channel i c k) = timeout_queue k" "tick_count (set_channel i c k) = tick_count k"
  "busy (set_channel i c k) = busy k" "notifications (set_channel i c k) = notifications k"
  "select_waiters (set_channel i c k) = select_waiters k" "notify_results (set_channel i c k) = notify_results k"
  "notify_deadlines (set_channel i c k) = notify_deadlines k" "in_scheduler (set_channel i c k) = in_scheduler k"
  by (simp_all add: set_channel_def)

lemma channels_set_set [simp]: "channel_mut (set_channel i (Some ch) k) i = Ok ch" if "unat i < length (channels k)" "length (channels k) = MAX_CHANNELS"
  using that by (simp add: channel_mut_Ok)

lemma msg_ok_build: "length buf \<le> MAX_MESSAGE_SIZE \<Longrightarrow> msg_ok (build_message tid buf)"
  by (simp add: msg_ok_def build_message_def raw_message_EMPTY_def)

lemma ring_push_True:
  assumes "ring_push m r = (True, r')" "ring_inv r"
  shows "ring_inv r'" "ring_list r' = ring_list r @ [m]"
  using ring_inv_push[OF assms(2), of m] ring_push_spec[OF assms(2), of m] assms(1)
  by (auto simp: spec_push_def split: if_splits)

lemma ring_pop_Some:
  assumes "ring_pop r = (Some m, r')" "ring_inv r"
  shows "ring_inv r'" "ring_list r = m # ring_list r'"
  using ring_inv_pop[OF assms(2)] ring_pop_spec[OF assms(2)] assms(1)
  by (auto simp: spec_pop_def split: list.splits)

lemma chan_ok_push:
  assumes "chan_ok i ch" "ring_push m (ring ch) = (True, rg)" "msg_ok m"
  shows "chan_ok i (ch\<lparr>ring := rg\<rparr>)"
  using assms ring_push_True[OF assms(2)] by (auto simp: chan_ok_def)

lemma chan_ok_pop:
  assumes "chan_ok i ch" "ring_pop (ring ch) = (Some m, rg)"
  shows "chan_ok i (ch\<lparr>ring := rg\<rparr>)" "msg_ok m"
  using assms ring_pop_Some[OF assms(2)] by (auto simp: chan_ok_def)

lemma chan_ok_new: "i < MAX_CHANNELS \<Longrightarrow> chan_ok i (channel_new (word_of_nat i) p)"
  by (simp add: chan_ok_def channel_new_def ring_inv_new MAX_CHANNELS_def unat_of_nat)

lemma chan_ok_update [simp]:
  "chan_ok i (ch\<lparr>waiting_receiver := None\<rparr>)" "chan_ok i (ch\<lparr>pending_caller := None\<rparr>)"
  "tid_ok t \<Longrightarrow> chan_ok i (ch\<lparr>waiting_receiver := Some t\<rparr>)" "tid_ok t \<Longrightarrow> chan_ok i (ch\<lparr>pending_caller := Some t\<rparr>)"
  "chan_ok i (ch\<lparr>owner_b := p\<rparr>)" "chan_ok i (ch\<lparr>creation_cap := cc\<rparr>)"
  if "chan_ok i ch" for t
  using that by (auto simp: chan_ok_def)

text \<open>The operations keep the table well formed. \<open>cur_ok\<close>: the thread running on the CPU is in the table.\<close>

definition cur_ok :: "nat \<Rightarrow> Kernel \<Rightarrow> bool" where
  "cur_ok cpu k \<longleftrightarrow> (\<forall>t. current_thread k ! cpu = Some t \<longrightarrow> tid_ok t)"

lemma chans_ok_create: "chans_ok (channels k) \<Longrightarrow> chans_ok (channels (snd (channel_create tid k)))"
  by (auto simp: channel_create_def Let_def chans_ok_length intro!: chans_ok_set chan_ok_new chan_ok_update
      dest!: first_free_SomeD split: option.splits sum.splits)

lemma chans_ok_set_peer: "chans_ok (channels k) \<Longrightarrow> chans_ok (channels (snd (channel_set_peer c p k)))"
  by (auto simp: channel_set_peer_def channel_mut_Ok intro!: chans_ok_set dest: chans_okD split: sum.splits)

lemma wake_opt_frame [frame_simps]: "channels (wake_opt cpu t e k) = channels k"
  by (simp add: wake_opt_def frame_simps split: option.split)

lemma chans_ok_destroy_unchecked:
  "chans_ok (channels k) \<Longrightarrow> chans_ok (channels (snd (channel_destroy_unchecked cpu c k)))"
  by (auto simp: channel_destroy_unchecked_def frame_simps intro!: chans_ok_set split: sum.splits option.splits)

lemma chans_ok_destroy: "chans_ok (channels k) \<Longrightarrow> chans_ok (channels (snd (channel_destroy cpu c k)))"
  by (auto simp: channel_destroy_def intro!: chans_ok_destroy_unchecked split: sum.splits)

lemma register_call_frame [frame_simps]: "channels (register_call t b d k) = channels k"
  by (simp add: register_call_def frame_simps)

lemma ipc_call_switch_frame [frame_simps]: "channels (ipc_call_switch cpu t c tgt b d k) = channels k"
  by (simp add: ipc_call_switch_def Let_def frame_simps case_bool_pair split: option.split)

lemma cur_ok_caller: "cur_ok cpu k \<Longrightarrow> current_thread_id cpu k = Some t \<Longrightarrow> tid_ok t"
  by (simp add: cur_ok_def current_thread_id_def)

text \<open>
  Case analysis of the handlers: refused, with the state unchanged and a negative result, or
  authorised and carried out.
\<close>

definition allowed :: "nat \<Rightarrow> ChannelId \<Rightarrow> Kernel \<Rightarrow> ThreadId \<Rightarrow> Channel \<Rightarrow> bool" where
  "allowed cpu c k tid ch \<longleftrightarrow>
     current_thread k ! cpu = Some tid \<and> unat c < MAX_CHANNELS \<and> channels k ! unat c = Some ch \<and>
     (\<exists>pid. process_of_thread k tid = Some pid \<and> holds k pid (ChannelAccess c))"

lemma check_channel_access_neg: "check_channel_access k pid c = Err e \<Longrightarrow> e < 0"
  by (auto simp: check_channel_access_Err split: if_splits)

lemma channel_mut_neg: "channel_mut k c = Err e \<Longrightarrow> e < 0"
  by (auto simp: channel_mut_def channel_slot_def split: option.splits)

lemma ipc_send_cases:
  assumes "ipc_send cpu c buf k = (r, k')"
  obtains (refused) "r < 0" "k' = k"
    | (sent) tid ch rg where "r = 0" "allowed cpu c k tid ch" "\<not> endpoint_dead ch" "length buf \<le> MAX_MESSAGE_SIZE"
        "ring_push (build_message tid buf) (ring ch) = (True, rg)"
        "k' = (case waiting_receiver ch of
                 None \<Rightarrow> set_channel c (Some (ch\<lparr>ring := rg, waiting_receiver := None\<rparr>)) k
               | Some w \<Rightarrow> wake_receiver cpu w (SelChannel c) 0 (clear_timeout w
                   (set_channel c (Some (ch\<lparr>ring := rg, waiting_receiver := None\<rparr>)) k)))"
proof (cases "r < 0 \<and> k' = k")
  case False
  with assms show thesis
    by (auto simp: ipc_send_def Let_def allowed_def current_thread_id_def channel_mut_Ok check_channel_access_Ok
        dest: check_channel_access_neg channel_mut_neg
        split: option.splits sum.splits prod.splits bool.splits if_splits intro!: sent)
qed (use refused in auto)

lemma ipc_call_cases:
  assumes "ipc_call cpu c sb rb t k = (r, k')"
  obtains (refused) e where "r = Done e" "e < 0" "k' = k"
    | (called) tid ch rg dl where "r = Blocked" "allowed cpu c k tid ch" "\<not> endpoint_dead ch"
        "length sb \<le> MAX_MESSAGE_SIZE" "pending_caller ch = None"
        "ring_push (build_message tid sb) (ring ch) = (True, rg)"
        "dl = (if t = 0 then None else deadline_from_now k t)"
        "k' = ipc_call_switch cpu tid c (waiting_receiver ch) rb dl
                (set_channel c (Some (ch\<lparr>ring := rg, pending_caller := Some tid, waiting_receiver := None\<rparr>)) k)"
proof (cases "(case r of Done e \<Rightarrow> e < 0 | Blocked \<Rightarrow> False) \<and> k' = k")
  case True
  then show thesis using refused by (auto split: outcome.splits)
next
  case False
  with assms obtain tid pid ch where a: "current_thread k ! cpu = Some tid" "process_of_thread k tid = Some pid"
    "check_channel_access k pid c = Ok ()" "channel_mut k c = Ok ch" "\<not> endpoint_dead ch" "\<not> length sb > MAX_MESSAGE_SIZE"
    by (auto simp: ipc_call_def current_thread_id_def dest: check_channel_access_neg channel_mut_neg
        split: option.splits sum.splits if_splits)
  then have al: "allowed cpu c k tid ch" by (auto simp: allowed_def check_channel_access_Ok channel_mut_Ok)
  note step = assms[unfolded ipc_call_def current_thread_id_def, simplified a option.case sum.case, simplified a(5,6) if_False]
  show thesis
  proof (cases "pending_caller ch")
    case (Some x)
    then show thesis using step False by auto
  next
    case None
    obtain b rg where p: "ring_push (build_message tid sb) (ring ch) = (b, rg)" by fastforce
    show thesis
    proof (cases b)
      case True
      then show thesis using step None p called[OF _ al a(5) _ None, of rg] a(6) by (simp add: Let_def)
    next
      case False': False
      then show thesis using step None p False by auto
    qed
  qed
qed

lemma ipc_recv_cases:
  assumes "ipc_recv cpu c rb t k = (r, k')"
  obtains (refused) e where "r = Done (Err e, rb)" "e < 0" "k' = k"
    | (received) tid ch m rg where "allowed cpu c k tid ch" "\<not> endpoint_dead ch" "ring_pop (ring ch) = (Some m, rg)"
        "r = (case take_message m rb of (n, b) \<Rightarrow> Done (Ok (n, sender m), b))"
        "k' = set_channel c (Some (ch\<lparr>ring := rg\<rparr>)) k"
    | (waits) tid ch where "allowed cpu c k tid ch" "\<not> endpoint_dead ch" "r = Blocked" "ring_len (ring ch) = 0"
        "waiting_receiver ch = None" "t \<noteq> 0"
        "k' = block_current cpu (BlockedIpc (ucast c)) (arm_timeout tid (deadline_from_now k t)
                (set_channel c (Some (ch\<lparr>waiting_receiver := Some tid\<rparr>)) k))"
proof (cases "(case r of Done (Err e, b) \<Rightarrow> e < 0 \<and> b = rb | _ \<Rightarrow> False) \<and> k' = k")
  case True
  then show thesis using refused by (auto split: outcome.splits prod.splits sum.splits)
next
  case False
  with assms obtain tid pid ch where a: "current_thread k ! cpu = Some tid" "process_of_thread k tid = Some pid"
    "check_channel_access k pid c = Ok ()" "channel_mut k c = Ok ch" "\<not> endpoint_dead ch"
    by (auto simp: ipc_recv_def current_thread_id_def dest: check_channel_access_neg channel_mut_neg
        split: option.splits sum.splits if_splits)
  then have al: "allowed cpu c k tid ch" by (auto simp: allowed_def check_channel_access_Ok channel_mut_Ok)
  note step = assms[unfolded ipc_recv_def current_thread_id_def, simplified a option.case sum.case, simplified a(5) if_False]
  show thesis
  proof (cases "ring_pop (ring ch)")
    case (Pair mo rg)
    show thesis
    proof (cases mo)
      case None
      then have "ring_len (ring ch) = 0" using Pair by (simp add: ring_pop_def split: if_splits)
      then show thesis using step False None Pair waits[OF al a(5)] by (auto split: if_splits)
    next
      case (Some m)
      then show thesis using step Pair received[OF al a(5), of m rg] by (auto split: prod.splits)
    qed
  qed
qed

lemma ipc_reply_cases:
  assumes "ipc_reply cpu c buf k = (r, k')"
  obtains (refused) "r < 0" "k' = k"
    | (replied) tid ch caller where "r = 0" "current_thread k ! cpu = Some tid" "unat c < MAX_CHANNELS"
        "channels k ! unat c = Some ch" "pending_caller ch = Some caller" "length buf \<le> MAX_MESSAGE_SIZE"
        "k' = (let k1 = set_channel c (Some (ch\<lparr>pending_caller := None\<rparr>)) k;
                   k2 = k1\<lparr>reply_slots := (reply_slots k1)[unat caller :=
                          map_option (write_reply buf) (slot_at (reply_slots k1) (unat caller))]\<rparr>;
                   p = try_reply_switch cpu tid caller (clear_timeout caller k2)
               in if fst p then snd p else unblock cpu caller (snd p))"
proof (cases "r < 0 \<and> k' = k")
  case False
  with assms show thesis
    by (auto simp: ipc_reply_def Let_def current_thread_id_def channel_mut_Ok dest: channel_mut_neg
        split: option.splits sum.splits prod.splits bool.splits if_splits intro!: replied)
qed (use refused in auto)

lemma authorize_Ok:
  "authorize cpu c k = Ok u \<longleftrightarrow> (\<exists>tid pid. current_thread k ! cpu = Some tid \<and> process_of_thread k tid = Some pid \<and>
     unat c < MAX_CHANNELS \<and> holds k pid (ChannelAccess c))"
  by (auto simp: authorize_def current_process_id_def check_channel_access_Ok split: option.splits)

lemma authorize_neg: "authorize cpu c k = Err e \<Longrightarrow> e < 0"
  by (auto simp: authorize_def dest: check_channel_access_neg split: option.splits)

lemma ipc_cancel_cases:
  assumes "ipc_cancel cpu c k = (r, k')"
  obtains (unchanged) "r \<le> 0" "k' = k"
    | (cancelled) tid ch caller where "r = 0" "allowed cpu c k tid ch" "pending_caller ch = Some caller"
        "k' = wake_with_error cpu caller (errno Ecanceled) (set_channel c (Some (ch\<lparr>pending_caller := None\<rparr>)) k)"
proof (cases "r \<le> 0 \<and> k' = k")
  case False
  with assms show thesis
    by (auto simp: ipc_cancel_def authorize_Ok allowed_def channel_mut_Ok dest: channel_mut_neg authorize_neg
        split: option.splits sum.splits intro!: cancelled)
qed (use unchanged in auto)

lemma channel_destroy_cases:
  assumes "channel_destroy cpu c k = (r, k')"
  obtains (refused) e where "r = Err e" "e < 0" "k' = k"
    | (destroyed) tid ch where "r = Ok ()" "allowed cpu c k tid ch"
        "k' = wake_opt cpu (pending_caller ch) (errno Epipe)
                (wake_opt cpu (waiting_receiver ch) (errno Epipe) (set_channel c None k))"
proof (cases "authorize cpu c k")
  case (Inl e)
  then show thesis using assms refused[of e] authorize_neg[OF Inl] by (simp add: channel_destroy_def)
next
  case (Inr u)
  then obtain tid pid where a: "current_thread k ! cpu = Some tid" "process_of_thread k tid = Some pid"
    "unat c < MAX_CHANNELS" "holds k pid (ChannelAccess c)" using authorize_Ok by blast
  have d: "channel_destroy_unchecked cpu c k = (r, k')" using assms Inr by (simp add: channel_destroy_def)
  show thesis
  proof (cases "channels k ! unat c")
    case None
    then show thesis using d a(3) refused[of "errno Epipe"]
      by (simp add: channel_destroy_unchecked_def channel_slot_def channel_index_def)
  next
    case (Some ch)
    then show thesis using d a destroyed[of tid ch]
      by (auto simp: channel_destroy_unchecked_def channel_slot_def channel_index_def allowed_def)
  qed
qed

lemma allowed_chan:
  "allowed cpu c k tid ch \<Longrightarrow> chans_ok (channels k) \<Longrightarrow> chan_ok (unat c) ch"
  by (auto simp: allowed_def dest: chans_okD)

lemma chans_ok_call:
  assumes "chans_ok (channels k)" "cur_ok cpu k"
  shows "chans_ok (channels (snd (ipc_call cpu c sb rb t k)))"
proof -
  obtain r k' where e: "ipc_call cpu c sb rb t k = (r, k')" by fastforce
  from e show ?thesis
  proof (cases rule: ipc_call_cases)
    case (called tid ch rg dl)
    have "chan_ok (unat c) (ch\<lparr>ring := rg\<rparr>)"
      using chan_ok_push[OF allowed_chan[OF called(2) assms(1)] called(6) msg_ok_build[OF called(4)]] .
    moreover have "tid_ok tid" using assms(2) called(2) by (auto simp: cur_ok_def allowed_def)
    ultimately have "chan_ok (unat c) (ch\<lparr>ring := rg, pending_caller := Some tid, waiting_receiver := None\<rparr>)"
      by (intro chan_ok_update)
    then show ?thesis using assms(1) by (auto simp: e called(8) frame_simps intro: chans_ok_set)
  qed (use assms e in simp_all)
qed

lemma chans_ok_send:
  assumes "chans_ok (channels k)"
  shows "chans_ok (channels (snd (ipc_send cpu c buf k)))"
proof -
  obtain r k' where e: "ipc_send cpu c buf k = (r, k')" by fastforce
  from e show ?thesis
  proof (cases rule: ipc_send_cases)
    case (sent tid ch rg)
    have "chan_ok (unat c) (ch\<lparr>ring := rg, waiting_receiver := None\<rparr>)"
      using chan_ok_push[OF allowed_chan[OF sent(2) assms] sent(5) msg_ok_build[OF sent(4)]] by (intro chan_ok_update)
    then show ?thesis using assms by (auto simp: e sent(6) frame_simps intro: chans_ok_set split: option.split)
  qed (use assms e in simp_all)
qed

lemma chans_ok_recv:
  assumes "chans_ok (channels k)" "cur_ok cpu k"
  shows "chans_ok (channels (snd (ipc_recv cpu c rb t k)))"
proof -
  obtain r k' where e: "ipc_recv cpu c rb t k = (r, k')" by fastforce
  from e show ?thesis
  proof (cases rule: ipc_recv_cases)
    case (received tid ch m rg)
    then show ?thesis using chan_ok_pop(1)[OF allowed_chan[OF received(1) assms(1)] received(3)] assms(1)
      by (auto simp: e intro: chans_ok_set)
  next
    case (waits tid ch)
    moreover have "tid_ok tid" using assms(2) waits(1) by (auto simp: cur_ok_def allowed_def)
    ultimately show ?thesis using allowed_chan[OF waits(1) assms(1)] assms(1)
      by (auto simp: e frame_simps intro!: chans_ok_set chan_ok_update)
  qed (use assms e in simp_all)
qed

lemma chans_ok_reply:
  assumes "chans_ok (channels k)"
  shows "chans_ok (channels (snd (ipc_reply cpu c buf k)))"
proof -
  obtain r k' where e: "ipc_reply cpu c buf k = (r, k')" by fastforce
  from e show ?thesis
  proof (cases rule: ipc_reply_cases)
    case (replied tid ch caller)
    have "channels k' = (channels k)[unat c := Some (ch\<lparr>pending_caller := None\<rparr>)]"
      unfolding replied(7) by (simp add: frame_simps Let_def)
    then show ?thesis using chans_okD[OF assms replied(3,4)] assms
      by (simp add: e)
  qed (use assms e in simp_all)
qed

lemma chans_ok_cancel:
  assumes "chans_ok (channels k)"
  shows "chans_ok (channels (snd (ipc_cancel cpu c k)))"
proof -
  obtain r k' where e: "ipc_cancel cpu c k = (r, k')" by fastforce
  from e show ?thesis
  proof (cases rule: ipc_cancel_cases)
    case (cancelled tid ch caller)
    then show ?thesis using allowed_chan[OF cancelled(2) assms] assms
      by (auto simp: e frame_simps intro!: chans_ok_set chan_ok_update)
  qed (use assms e in simp_all)
qed

section \<open>Authority\<close>

text \<open>
  The contract of an operation on a channel: without authority for the channel it fails and has
  no effect.
\<close>

locale guarded_channel_op =
  fixes opn :: "nat \<Rightarrow> ChannelId \<Rightarrow> Kernel \<Rightarrow> 'r \<times> Kernel"
    and failed :: "'r \<Rightarrow> bool"
  assumes refuses: "authorize cpu c k = Err e \<Longrightarrow> snd (opn cpu c k) = k \<and> failed (fst (opn cpu c k))"
begin

lemma needs_capability:
  assumes "current_process_id cpu k = Some pid" "\<not> holds k pid (ChannelAccess c)"
  shows "snd (opn cpu c k) = k \<and> failed (fst (opn cpu c k))"
proof (cases "authorize cpu c k")
  case (Inl e)
  then show ?thesis by (rule refuses)
next
  case (Inr u)
  then show ?thesis using assms by (auto simp: authorize_Ok current_process_id_def)
qed

lemma needs_process:
  assumes "current_process_id cpu k = None"
  shows "snd (opn cpu c k) = k \<and> failed (fst (opn cpu c k))"
  using assms by (intro refuses[of cpu c k "errno Eperm"]) (simp add: authorize_def)

end

lemma authorize_cases:
  assumes "authorize cpu c k = Err e"
  obtains "current_thread k ! cpu = None"
    | tid where "current_thread k ! cpu = Some tid" "process_of_thread k tid = None"
    | tid pid where "current_thread k ! cpu = Some tid" "process_of_thread k tid = Some pid" "check_channel_access k pid c = Err e"
  using assms by (auto simp: authorize_def current_process_id_def split: option.splits)

interpretation grd_send: guarded_channel_op "\<lambda>cpu c k. ipc_send cpu c buf k" "\<lambda>r. r < 0" for buf
proof
  fix cpu c k e
  assume "authorize cpu c k = Err e"
  then show "snd (ipc_send cpu c buf k) = k \<and> fst (ipc_send cpu c buf k) < 0"
    by (cases rule: authorize_cases) (auto simp: ipc_send_def current_thread_id_def dest: check_channel_access_neg)
qed

interpretation grd_call: guarded_channel_op "\<lambda>cpu c k. ipc_call cpu c sb rb t k"
    "\<lambda>r. case r of Done e \<Rightarrow> e < 0 | Blocked \<Rightarrow> False" for sb rb t
proof
  fix cpu c k e
  assume "authorize cpu c k = Err e"
  then show "snd (ipc_call cpu c sb rb t k) = k \<and>
      (case fst (ipc_call cpu c sb rb t k) of Done e \<Rightarrow> e < 0 | Blocked \<Rightarrow> False)"
    by (cases rule: authorize_cases) (auto simp: ipc_call_def current_thread_id_def dest: check_channel_access_neg)
qed

interpretation grd_recv: guarded_channel_op "\<lambda>cpu c k. ipc_recv cpu c rb t k"
    "\<lambda>r. \<exists>e < 0. r = Done (Err e, rb)" for rb t
proof
  fix cpu c k e
  assume "authorize cpu c k = Err e"
  then show "snd (ipc_recv cpu c rb t k) = k \<and>
      (\<exists>e < 0. fst (ipc_recv cpu c rb t k) = Done (Err e, rb))"
    by (cases rule: authorize_cases) (auto simp: ipc_recv_def current_thread_id_def dest: check_channel_access_neg)
qed

interpretation grd_cancel: guarded_channel_op ipc_cancel "\<lambda>r. r < 0"
  by unfold_locales (auto simp: ipc_cancel_def dest: authorize_neg)

interpretation grd_destroy: guarded_channel_op channel_destroy "\<lambda>r. \<exists>e. r = Err e \<and> e < 0"
  by unfold_locales (auto simp: channel_destroy_def dest: authorize_neg)

text \<open>
  C19. No channel access without the capability: when the process of the running thread holds no live
  \<open>ChannelAccess\<close> token for the channel, send, call, receive, cancel and destroy fail with an error
  code, leave the receive buffer as it was, and change nothing in the kernel.
\<close>

theorem channel_needs_capability:
  assumes "current_process_id cpu k = Some pid" "\<not> holds k pid (ChannelAccess c)"
  shows "(\<exists>e < 0. ipc_send cpu c buf k = (e, k)) \<and>
    (\<exists>e < 0. ipc_call cpu c buf rb t k = (Done e, k)) \<and>
    (\<exists>e < 0. ipc_recv cpu c rb t k = (Done (Err e, rb), k)) \<and>
    (\<exists>e < 0. ipc_cancel cpu c k = (e, k)) \<and>
    (\<exists>e < 0. channel_destroy cpu c k = (Err e, k))"
proof -
  have "\<exists>e < 0. ipc_send cpu c buf k = (e, k)"
    using grd_send.needs_capability[OF assms, of buf] by (cases "ipc_send cpu c buf k") auto
  moreover have "\<exists>e < 0. ipc_call cpu c buf rb t k = (Done e, k)"
    using grd_call.needs_capability[OF assms, of buf rb t]
    by (cases "ipc_call cpu c buf rb t k") (auto split: outcome.splits)
  moreover have "\<exists>e < 0. ipc_recv cpu c rb t k = (Done (Err e, rb), k)"
    using grd_recv.needs_capability[OF assms, of rb t]
    by (cases "ipc_recv cpu c rb t k") auto
  moreover have "\<exists>e < 0. ipc_cancel cpu c k = (e, k)"
    using grd_cancel.needs_capability[OF assms] by (cases "ipc_cancel cpu c k") auto
  moreover have "\<exists>e < 0. channel_destroy cpu c k = (Err e, k)"
    using grd_destroy.needs_capability[OF assms] by (cases "channel_destroy cpu c k") auto
  ultimately show ?thesis by blast
qed

section \<open>Messages from sender to receiver\<close>

lemma get_wakeup_error_eq [simp]:
  "fst (get_wakeup_error tid k) = wakeup_errors k ! unat tid"
  "snd (get_wakeup_error tid k) = k\<lparr>wakeup_errors := (wakeup_errors k)[unat tid := 0]\<rparr>"
  by (simp_all add: get_wakeup_error_def)

lemma take_built_message:
  assumes "length sb \<le> MAX_MESSAGE_SIZE"
  shows "take_message (build_message tid sb) rb =
    (min (length sb) (length rb), take (length rb) sb @ drop (length sb) rb)"
  using assms by (auto simp: take_message_def build_message_def raw_message_EMPTY_def Let_def min_def)

lemma ring_pop_cons:
  assumes "ring_inv r" "ring_list r = m # q"
  obtains r' where "ring_pop r = (Some m, r')" "ring_inv r'" "ring_list r' = q"
proof -
  obtain mo r' where p: "ring_pop r = (mo, r')" by fastforce
  then have "mo = Some m \<and> ring_list r' = q"
    using ring_pop_spec[OF assms(1)] assms(2) by (simp add: spec_pop_def)
  then show thesis using that p ring_inv_pop[OF assms(1)] by simp
qed

text \<open>What a receiver that finds message \<open>m\<close> at the head gets, in either part of \<open>ipc_recv\<close>.\<close>

lemma ipc_recv_resume_head:
  assumes "unat c < MAX_CHANNELS" "channels k ! unat c = Some ch" "length (channels k) = MAX_CHANNELS"
    "waiting_receiver ch \<noteq> Some tid" "wakeup_errors k ! unat tid = 0" "ring_pop (ring ch) = (Some m, rg)"
    "take_message m rb = (n, b)"
  shows "fst (ipc_recv_resume tid c rb k) = (Ok (n, sender m), b) \<and>
    channels (snd (ipc_recv_resume tid c rb k)) = (channels k)[unat c := Some (ch\<lparr>ring := rg\<rparr>)] \<and>
    reply_slots (snd (ipc_recv_resume tid c rb k)) = reply_slots k \<and>
    wakeup_errors (snd (ipc_recv_resume tid c rb k)) = (wakeup_errors k)[unat tid := 0]"
  using assms by (simp add: ipc_recv_resume_def Let_def channel_mut_def channel_slot_def channel_index_def
      get_wakeup_error_def frame_simps)

lemma allowedD:
  "allowed cpu c k tid ch \<Longrightarrow>
     unat c < MAX_CHANNELS \<and> channels k ! unat c = Some ch \<and> current_thread k ! cpu = Some tid"
  by (simp add: allowed_def)

text \<open>A blocked receiver: its channel has an empty ring and names it as the waiting receiver.\<close>

lemma ipc_recv_blocked:
  assumes "ipc_recv cpu c rb t k = (Blocked, k1)" "chans_ok (channels k)"
  obtains tid ch where "current_thread k ! cpu = Some tid" "unat c < MAX_CHANNELS" "ring_inv (ring ch)"
    "ring_list (ring ch) = []" "channels k1 = (channels k)[unat c := Some ch]" "waiting_receiver ch = Some tid"
    "wakeup_errors k1 = wakeup_errors k" "reply_slots k1 = reply_slots k"
  using assms(1)
proof (cases rule: ipc_recv_cases)
  case (received tid ch m rg)
  then show thesis by (simp split: prod.splits)
next
  case (waits tid ch)
  have "chan_ok (unat c) ch" by (rule allowed_chan[OF waits(1) assms(2)])
  moreover have "ring_list (ring ch) = []" using waits(4) by (simp add: ring_list_def)
  ultimately show thesis
    using that[of tid "ch\<lparr>waiting_receiver := Some tid\<rparr>"] allowedD[OF waits(1)]
    by (simp add: waits(7) frame_simps chan_ok_def)
qed simp

lemma sender_build [simp]: "sender (build_message tid buf) = tid"
  by (simp add: build_message_def)

text \<open>A message sent: at the end of the channel's queue.\<close>

lemma ipc_send_queued:
  assumes "ipc_send cpu c sb k = (0, k')" "\<And>ch. channels k ! unat c = Some ch \<Longrightarrow> ring_inv (ring ch)"
  obtains tid ch rg where "allowed cpu c k tid ch" "length sb \<le> MAX_MESSAGE_SIZE"
    "ring_inv rg" "ring_list rg = ring_list (ring ch) @ [build_message tid sb]"
    "channels k' = (channels k)[unat c := Some (ch\<lparr>ring := rg, waiting_receiver := None\<rparr>)]"
    "wakeup_errors k' = wakeup_errors k" "reply_slots k' = reply_slots k"
  using assms(1)
proof (cases rule: ipc_send_cases)
  case (sent tid ch rg)
  have "ring_inv (ring ch)" using allowedD[OF sent(2)] assms(2) by simp
  note p = ring_push_True[OF sent(5) this]
  show thesis
    using that[OF sent(2,4) p] by (simp add: sent(6) frame_simps split: option.split)
qed simp

text \<open>
  C21. A receiver that blocks gets the next message sent: when a thread blocks in \<open>ipc_recv\<close> and a
  sender's \<open>ipc_send\<close> then succeeds, the resumed receive returns the sender's bytes (as many as fit
  the buffer), their number and the sender's thread id, and the channel's queue is empty again.
\<close>

theorem blocked_recv_gets_sent:
  assumes "chans_ok (channels k)" "ipc_recv cpu c rb t k = (Blocked, k1)" "current_thread k ! cpu = Some tid"
    and "wakeup_errors k ! unat tid = 0" "ipc_send cpu' c sb k1 = (0, k2)" "current_thread k1 ! cpu' = Some sdr"
  shows "fst (ipc_recv_resume tid c rb k2) =
      (Ok (min (length sb) (length rb), sdr), take (length rb) sb @ drop (length sb) rb) \<and>
    (\<exists>ch. channels (snd (ipc_recv_resume tid c rb k2)) ! unat c = Some ch \<and> ring_list (ring ch) = [] \<and>
      waiting_receiver ch = None)"
proof -
  have len: "length (channels k) = MAX_CHANNELS" by (rule chans_ok_length[OF assms(1)])
  obtain tid0 ch where r: "current_thread k ! cpu = Some tid0" "unat c < MAX_CHANNELS" "ring_inv (ring ch)"
    "ring_list (ring ch) = []" "channels k1 = (channels k)[unat c := Some ch]" "waiting_receiver ch = Some tid0"
    "wakeup_errors k1 = wakeup_errors k"
    by (rule ipc_recv_blocked[OF assms(2,1)])
  have at: "channels k1 ! unat c = Some ch" using r len by simp
  obtain tid' ch' rg where s: "allowed cpu' c k1 tid' ch'" "length sb \<le> MAX_MESSAGE_SIZE"
    "ring_inv rg" "ring_list rg = ring_list (ring ch') @ [build_message tid' sb]"
    "channels k2 = (channels k1)[unat c := Some (ch'\<lparr>ring := rg, waiting_receiver := None\<rparr>)]"
    "wakeup_errors k2 = wakeup_errors k1"
    by (rule ipc_send_queued[OF assms(5)]) (use at r(3) in auto)
  have ch': "ch' = ch" "tid' = sdr" using allowedD[OF s(1)] at assms(6) by auto
  obtain rg' where p: "ring_pop rg = (Some (build_message sdr sb), rg')" "ring_list rg' = []"
    by (rule ring_pop_cons[OF s(3)]) (use s(4) ch' r(4) in auto)
  have "channels k2 ! unat c = Some (ch\<lparr>ring := rg, waiting_receiver := None\<rparr>)" "length (channels k2) = MAX_CHANNELS"
    using s(5) r(2,5) len ch' by simp_all
  from ipc_recv_resume_head[OF r(2) this _ _ _ take_built_message[OF s(2)], of tid sdr rg']
  show ?thesis using p s(5,6) r(2,5,7) assms(4) len ch' by simp
qed

text \<open>The request of a call: queued last, with the caller registered for the reply.\<close>

lemma ipc_call_switch_tables [frame_simps]:
  "reply_slots (ipc_call_switch cpu t c tgt b d k) =
     (reply_slots k)[unat t := Some \<lparr>rs_buf = b, bytes_written = 0\<rparr>]"
  "wakeup_errors (ipc_call_switch cpu t c tgt b d k) = wakeup_errors k"
  by (simp_all add: ipc_call_switch_def register_call_def Let_def frame_simps case_bool_pair split: option.split)

lemma ipc_call_blocked:
  assumes "ipc_call cpu c req rb t k = (Blocked, k')" "chans_ok (channels k)"
  obtains tid ch rg where "allowed cpu c k tid ch" "length req \<le> MAX_MESSAGE_SIZE" "ring_inv rg"
    "ring_list rg = ring_list (ring ch) @ [build_message tid req]"
    "channels k' = (channels k)[unat c := Some (ch\<lparr>ring := rg, pending_caller := Some tid, waiting_receiver := None\<rparr>)]"
    "reply_slots k' = (reply_slots k)[unat tid := Some \<lparr>rs_buf = rb, bytes_written = 0\<rparr>]"
    "wakeup_errors k' = wakeup_errors k"
  using assms(1)
proof (cases rule: ipc_call_cases)
  case (called tid ch rg dl)
  have "ring_inv (ring ch)" using allowed_chan[OF called(2) assms(2)] by (simp add: chan_ok_def)
  note p = ring_push_True[OF called(6) this]
  show thesis using that[OF called(2,4) p] by (simp add: called(8) frame_simps)
qed simp

text \<open>A message taken by a receiver, at once or after it was blocked.\<close>

definition takes_message ::
  "ChannelId \<Rightarrow> u8 list \<Rightarrow> Kernel \<Rightarrow> nat \<times> ThreadId \<Rightarrow> u8 list \<Rightarrow> Kernel \<Rightarrow> bool" where
  "takes_message c sb k r b k' \<longleftrightarrow>
     (\<exists>cpu t. ipc_recv cpu c sb t k = (Done (Ok r, b), k')) \<or>
     (\<exists>tid. ipc_recv_resume tid c sb k = ((Ok r, b), k') \<and> wakeup_errors k ! unat tid = 0)"

lemma takes_message_head:
  assumes "takes_message c sb k r b k'" "unat c < MAX_CHANNELS" "channels k ! unat c = Some ch"
    "length (channels k) = MAX_CHANNELS" "ring_inv (ring ch)" "ring_list (ring ch) = m # q" "waiting_receiver ch = None"
  obtains rg where "take_message m sb = (fst r, b)" "snd r = sender m" "ring_inv rg" "ring_list rg = q"
    "channels k' = (channels k)[unat c := Some (ch\<lparr>ring := rg\<rparr>)]" "reply_slots k' = reply_slots k"
    "\<forall>i. wakeup_errors k ! i = 0 \<longrightarrow> i < length (wakeup_errors k) \<longrightarrow> wakeup_errors k' ! i = 0"
proof -
  obtain rg where p: "ring_pop (ring ch) = (Some m, rg)" "ring_inv rg" "ring_list rg = q"
    by (rule ring_pop_cons[OF assms(5,6)])
  obtain n b' where tm: "take_message m sb = (n, b')" by fastforce
  from assms(1) show thesis unfolding takes_message_def
  proof (elim disjE exE conjE)
    fix cpu t
    assume "ipc_recv cpu c sb t k = (Done (Ok r, b), k')"
    then show thesis
    proof (cases rule: ipc_recv_cases)
      case (received tid ch' m' rg')
      have "ch' = ch" using allowedD[OF received(1)] assms(3) by simp
      then show thesis using that[of rg] received p tm by (simp add: frame_simps)
    qed simp_all
  next
    fix tid
    assume r: "ipc_recv_resume tid c sb k = ((Ok r, b), k')" "wakeup_errors k ! unat tid = 0"
    have "waiting_receiver ch \<noteq> Some tid" using assms(7) by simp
    from ipc_recv_resume_head[OF assms(2-4) this r(2) p(1) tm]
    moreover have "(wakeup_errors k)[unat tid := 0] ! i = 0" if "wakeup_errors k ! i = 0" for i
      using that r(2) by (cases "i = unat tid"; cases "i < length (wakeup_errors k)") (simp_all add: list_update_beyond)
    ultimately show thesis using that[of rg] r(1) p tm by simp
  qed
qed

lemma ipc_reply_done:
  assumes "ipc_reply cpu c rep k = (0, k')"
  obtains ch caller where "unat c < MAX_CHANNELS" "channels k ! unat c = Some ch" "pending_caller ch = Some caller"
    "channels k' = (channels k)[unat c := Some (ch\<lparr>pending_caller := None\<rparr>)]"
    "reply_slots k' = (reply_slots k)[unat caller := map_option (write_reply rep) (slot_at (reply_slots k) (unat caller))]"
    "wakeup_errors k' = wakeup_errors k"
  using assms
proof (cases rule: ipc_reply_cases)
  case (replied tid ch caller)
  then show thesis using that[of ch caller] by (simp add: frame_simps Let_def)
qed simp

text \<open>
  C20. The call round trip: a caller blocks in \<open>ipc_call\<close> on an idle channel; the server that takes the
  next message gets the request bytes and the caller's id; when a reply on the channel succeeds,
  the resumed call returns the reply's length and bytes (as many as fit the caller's buffer), and
  the channel is idle again.
\<close>

theorem call_reply_roundtrip:
  assumes "chans_ok (channels k)" "length (reply_slots k) = MAX_THREADS" "length (wakeup_errors k) = MAX_THREADS"
    and "current_thread k ! cpu = Some caller" "tid_ok caller" "wakeup_errors k ! unat caller = 0"
    and "channels k ! unat c = Some ch" "ring_list (ring ch) = []"
    and "ipc_call cpu c req rb t k = (Blocked, k1)" "takes_message c sb k1 r b k2" "ipc_reply cpu' c rep k2 = (0, k3)"
  shows "r = (min (length req) (length sb), caller) \<and> b = take (length sb) req @ drop (length req) sb \<and>
    fst (ipc_call_resume caller c rb k3) =
      (int (min (length rep) (length rb)), take (length rb) rep @ drop (length rep) rb) \<and>
    (\<exists>ch'. channels (snd (ipc_call_resume caller c rb k3)) ! unat c = Some ch' \<and> ring_list (ring ch') = [] \<and>
      pending_caller ch' = None)"
proof -
  have len: "length (channels k) = MAX_CHANNELS" by (rule chans_ok_length[OF assms(1)])
  obtain tid ch0 rg where c: "allowed cpu c k tid ch0" "length req \<le> MAX_MESSAGE_SIZE" "ring_inv rg"
    "ring_list rg = ring_list (ring ch0) @ [build_message tid req]"
    "channels k1 = (channels k)[unat c := Some (ch0\<lparr>ring := rg, pending_caller := Some tid, waiting_receiver := None\<rparr>)]"
    "reply_slots k1 = (reply_slots k)[unat tid := Some \<lparr>rs_buf = rb, bytes_written = 0\<rparr>]"
    "wakeup_errors k1 = wakeup_errors k"
    by (rule ipc_call_blocked[OF assms(9,1)])
  have eq: "ch0 = ch" "tid = caller" "unat c < MAX_CHANNELS" using allowedD[OF c(1)] assms(4,7) by auto
  let ?ch1 = "ch\<lparr>ring := rg, pending_caller := Some caller, waiting_receiver := None\<rparr>"
  have k1: "channels k1 ! unat c = Some ?ch1" "length (channels k1) = MAX_CHANNELS" using c(5) eq len by simp_all
  obtain rg' where m: "take_message (build_message caller req) sb = (fst r, b)" "snd r = caller" "ring_list rg' = []"
    "channels k2 = (channels k1)[unat c := Some (?ch1\<lparr>ring := rg'\<rparr>)]" "reply_slots k2 = reply_slots k1"
    "\<forall>i. wakeup_errors k1 ! i = 0 \<longrightarrow> i < length (wakeup_errors k1) \<longrightarrow> wakeup_errors k2 ! i = 0"
    using takes_message_head[OF assms(10) eq(3) k1, of "build_message caller req" "[]"] c(3,4) eq assms(8) by auto
  have k2: "channels k2 ! unat c = Some (?ch1\<lparr>ring := rg'\<rparr>)" using m(4) k1(2) eq(3) by simp
  obtain ch2 cl where p: "channels k2 ! unat c = Some ch2" "pending_caller ch2 = Some cl"
    "channels k3 = (channels k2)[unat c := Some (ch2\<lparr>pending_caller := None\<rparr>)]"
    "reply_slots k3 = (reply_slots k2)[unat cl := map_option (write_reply rep) (slot_at (reply_slots k2) (unat cl))]"
    "wakeup_errors k3 = wakeup_errors k2"
    by (rule ipc_reply_done[OF assms(11)])
  have e: "ch2 = ?ch1\<lparr>ring := rg'\<rparr>" "cl = caller" using p(1,2) k2 by auto
  have "wakeup_errors k3 ! unat caller = 0" using m(6) assms(3,5,6) c(7) p(5) by simp
  moreover have "slot_at (reply_slots k3) (unat caller) = Some (write_reply rep \<lparr>rs_buf = rb, bytes_written = 0\<rparr>)"
    using p(4) m(5) c(6) eq e(2) assms(2,5) by (simp add: slot_at_def)
  ultimately have res: "fst (ipc_call_resume caller c rb k3) =
      (int (min (length rep) (length rb)), take (length rb) rep @ drop (length rep) rb)"
    and ch3: "channels (snd (ipc_call_resume caller c rb k3)) = channels k3"
    by (auto simp: ipc_call_resume_def Let_def write_reply_def get_wakeup_error_def min_def)
  have "channels k3 ! unat c = Some (?ch1\<lparr>ring := rg', pending_caller := None\<rparr>)"
    using p(3) e m(4) k1(2) eq(3) by simp
  then show ?thesis
    using res ch3 m(1-3) take_built_message[OF c(2), of caller sb] by (auto simp: prod_eq_iff)
qed

section \<open>Destruction and revocation\<close>

lemma state_of_enqueue [simp]: "state_of (enqueue_on_cpu cpu tid cls k) t = state_of k t"
  by (simp add: state_of_def enqueue_on_cpu_def)

lemma state_of_unblock:
  "state_of (unblock cpu tid k) t =
     (if t = tid \<and> state_of k t \<notin> {None, Some Running, Some Runnable} then Some Runnable else state_of k t)"
proof (cases "thread_of k tid")
  case None
  then show ?thesis by (auto simp: unblock_def state_of_def)
next
  case (Some th)
  then have "state_of k tid = Some (th_state (sched th))" by (simp add: state_of_def)
  then show ?thesis
    using Some by (simp add: unblock_def Let_def state_of_set_thread set_slice_def set_state_def)
qed

lemma state_of_wake_with_error:
  "state_of (wake_with_error cpu tid e k) t =
     (if t = tid \<and> state_of k t \<notin> {None, Some Running, Some Runnable} then Some Runnable else state_of k t)"
proof -
  have "state_of (clear_timeout tid (k\<lparr>wakeup_errors := x\<rparr>)) t = state_of k t" for x t
    by (simp add: state_of_def frame_simps)
  then show ?thesis by (simp add: wake_with_error_def state_of_unblock)
qed

lemma state_of_wake_opt:
  "state_of (wake_opt cpu w e k) t =
     (if w = Some t \<and> state_of k t \<notin> {None, Some Running, Some Runnable} then Some Runnable else state_of k t)"
  by (auto simp: wake_opt_def state_of_wake_with_error split: option.split)

lemma wakeup_errors_wake_opt:
  "wakeup_errors (wake_opt cpu w e k) = (case w of Some t \<Rightarrow> (wakeup_errors k)[unat t := e] | None \<Rightarrow> wakeup_errors k)"
  by (simp add: wake_opt_def split: option.split)

lemma ipc_recv_resume_error:
  assumes "wakeup_errors k ! unat tid = e" "e \<noteq> 0"
  shows "fst (ipc_recv_resume tid c rb k) = (Err e, rb)"
  using assms by (auto simp: ipc_recv_resume_def Let_def get_wakeup_error_def frame_simps split: sum.split)

lemma ipc_call_resume_error:
  assumes "wakeup_errors k ! unat tid = e" "e \<noteq> 0"
  shows "fst (fst (ipc_call_resume tid c rb k)) = e"
  using assms by (auto simp: ipc_call_resume_def Let_def get_wakeup_error_def split: option.split)

text \<open>
  C24. Destroying a channel strands nobody: the slot is empty, every other channel is untouched, and
  the waiting receiver and the pending caller are made runnable if they were blocked, and their
  interrupted calls return \<open>EPIPE\<close>.
\<close>

theorem destroy_wakes_waiters:
  assumes "chans_ok (channels k)" "length (wakeup_errors k) = MAX_THREADS" "channel_destroy cpu c k = (Ok (), k')"
  shows "\<exists>ch. channels k ! unat c = Some ch \<and> channels k' = (channels k)[unat c := None] \<and>
    (\<forall>t. waiting_receiver ch = Some t \<or> pending_caller ch = Some t \<longrightarrow>
       state_of k' t = (if state_of k t \<in> {None, Some Running, Some Runnable} then state_of k t else Some Runnable) \<and>
       fst (ipc_recv_resume t c rb k') = (Err (errno Epipe), rb) \<and>
       fst (fst (ipc_call_resume t c rb k')) = errno Epipe)"
  using assms(3)
proof (cases rule: channel_destroy_cases)
  case (destroyed tid ch)
  note ok = allowed_chan[OF destroyed(2) assms(1)]
  have st: "state_of (set_channel c None k) t = state_of k t" for t by (simp add: state_of_def frame_simps)
  have "wakeup_errors k' ! unat t = errno Epipe" if "waiting_receiver ch = Some t \<or> pending_caller ch = Some t" for t
    using that ok assms(2) unfolding destroyed(3) chan_ok_def
    by (auto simp: wakeup_errors_wake_opt frame_simps nth_list_update split: option.split)
  then show ?thesis
    using allowedD[OF destroyed(2)] ipc_recv_resume_error ipc_call_resume_error
    by (auto simp: destroyed(3) frame_simps state_of_wake_opt st)
qed simp




lemma process_slot_mut_channels [simp]: "channels (snd (process_slot_mut f pid k)) = channels k"
  by (simp add: process_slot_mut_def split: option.split)


section \<open>Progress\<close>

text \<open>Who runs on the other CPUs, and whose thread it is, does not change when a CPU reschedules.\<close>

lemma process_of_thread_alt:
  "process_of_thread k tid = (case thread_of k tid of Some th \<Rightarrow> owner_pid th | None \<Rightarrow> None)"
  by (simp add: process_of_thread_def slot_at_def Let_def)

lemma process_of_set_thread:
  "(\<And>th. owner_pid (f th) = owner_pid th) \<Longrightarrow> process_of_thread (set_thread t f k) u = process_of_thread k u"
  by (simp add: process_of_thread_alt thread_of_set_thread split: option.split)

lemma owner_pid_set [simp]:
  "owner_pid (set_state st th) = owner_pid th" "owner_pid (set_slice s th) = owner_pid th" "owner_pid (preempt th) = owner_pid th"
  by (simp_all add: set_state_def set_slice_def preempt_def)

lemma process_of_fields [simp]:
  "process_of_thread (k\<lparr>run_queues := r\<rparr>) u = process_of_thread k u"
  "process_of_thread (k\<lparr>current_thread := c\<rparr>) u = process_of_thread k u"
  "process_of_thread (k\<lparr>in_scheduler := s\<rparr>) u = process_of_thread k u"
  "process_of_thread (k\<lparr>in_scheduler := s, need_resched := b\<rparr>) u = process_of_thread k u"
  by (simp_all add: process_of_thread_alt)

definition stays :: "nat \<Rightarrow> Kernel \<Rightarrow> Kernel \<Rightarrow> bool" where
  "stays cpu k k' \<longleftrightarrow>
     (\<forall>c. c \<noteq> cpu \<longrightarrow> current_thread k' ! c = current_thread k ! c) \<and>
     (\<forall>t. process_of_thread k' t = process_of_thread k t)"

lemma stays_refl [simp]: "stays cpu k k"
  by (simp add: stays_def)

lemma stays_trans: "stays cpu k k' \<Longrightarrow> stays cpu k' k'' \<Longrightarrow> stays cpu k k''"
  by (simp add: stays_def)

lemma stays_steps:
  "stays cpu k (snd (requeue_current cpu k))" "stays cpu k (snd (pick_on_cpu cpu k))"
  "stays cpu k (leave_scheduler cpu k)" "stays cpu k (switch_to cpu n k)"
  "stays cpu k (set_thread t (set_state st) k)"
  by (auto simp: stays_def requeue_current_def pick_on_cpu_def leave_scheduler_def switch_to_def enqueue_on_cpu_def
      process_of_set_thread Let_def split: option.splits prod.splits)

lemma stays_enter: "stays cpu k (k\<lparr>in_scheduler := s, need_resched := b\<rparr>)"
  by (simp add: stays_def)

lemma stays_schedule: "stays cpu k (schedule cpu k)"
proof -
  define k0 where "k0 = k\<lparr>in_scheduler := (in_scheduler k)[cpu := True], need_resched := False\<rparr>"
  obtain b k1 where r: "requeue_current cpu k0 = (b, k1)" by fastforce
  obtain n k2 where p: "pick_on_cpu cpu k1 = (n, k2)" by fastforce
  have "stays cpu k k0" unfolding k0_def by (rule stays_enter)
  then have k1: "stays cpu k k1" using stays_steps(1)[of cpu k0, unfolded r snd_conv] by (rule stays_trans)
  then have "stays cpu k k2" using stays_steps(2)[of cpu k1, unfolded p snd_conv] by (rule stays_trans)
  note 1 = k1 this
  have leave: "stays cpu k (leave_scheduler cpu k3)" if "stays cpu k k3" for k3
    using that stays_steps(3) by (rule stays_trans)
  have "stays cpu k (leave_scheduler cpu k1)" "stays cpu k (leave_scheduler cpu k2)"
    "stays cpu k (leave_scheduler cpu (set_thread t (set_state Running) k2))" "stays cpu k (leave_scheduler cpu (switch_to cpu t k2))" for t
    by (intro leave stays_trans[OF 1(2)] stays_steps 1)+
  then show ?thesis
    by (simp add: schedule_def Let_def k0_def[symmetric] r p split: bool.split option.split)
qed

lemma stays_block: "stays cpu k (block_current cpu st k)"
  unfolding block_current_def
  by (rule stays_trans[OF _ stays_schedule]) (auto simp: stays_steps(5) split: option.split)

lemma process_of_unblock [simp]: "process_of_thread (unblock cpu t k) u = process_of_thread k u"
  by (auto simp: unblock_def Let_def enqueue_on_cpu_def process_of_set_thread split: option.split)

text \<open>An authorised operation on a healthy channel with room succeeds.\<close>

lemma holds_frame:
  "processes k' = processes k \<Longrightarrow> tick_count k' = tick_count k \<Longrightarrow> holds k' pid cap = holds k pid cap"
  by (simp add: holds_def)

lemma allowed_stays:
  assumes "allowed cpu' c k tid ch" "cpu' \<noteq> cpu" "stays cpu k0 k'" "threads k0 = threads k" "current_thread k0 = current_thread k"
    "processes k' = processes k" "tick_count k' = tick_count k" "channels k' ! unat c = Some ch'"
  shows "allowed cpu' c k' tid ch'"
proof -
  have "process_of_thread k0 t = process_of_thread k t" for t using assms(4) by (simp add: process_of_thread_alt)
  then show ?thesis
    using assms(1-3,5-8) holds_frame[OF assms(6,7)] by (auto simp: allowed_def stays_def)
qed

lemma ring_push_room: "ring_len r < RING_CAPACITY \<Longrightarrow> \<exists>r'. ring_push m r = (True, r')"
  by (simp add: ring_push_def)

lemma allowed_checks:
  assumes "allowed cpu c k tid ch"
  obtains pid where "current_thread_id cpu k = Some tid" "process_of_thread k tid = Some pid"
    "check_channel_access k pid c = Ok ()" "channel_mut k c = Ok ch"
  using assms by (auto simp: allowed_def current_thread_id_def check_channel_access_Ok channel_mut_Ok)

lemma ipc_send_succeeds:
  assumes "allowed cpu c k tid ch" "\<not> endpoint_dead ch" "length buf \<le> MAX_MESSAGE_SIZE" "ring_len (ring ch) < RING_CAPACITY"
  shows "\<exists>k'. ipc_send cpu c buf k = (0, k')"
proof -
  obtain pid where "current_thread_id cpu k = Some tid" "process_of_thread k tid = Some pid"
    "check_channel_access k pid c = Ok ()" "channel_mut k c = Ok ch" by (rule allowed_checks[OF assms(1)])
  moreover obtain rg where "ring_push (build_message tid buf) (ring ch) = (True, rg)" using ring_push_room[OF assms(4)] by blast
  ultimately show ?thesis using assms(2,3) by (simp add: ipc_send_def Let_def split: option.split)
qed

lemma ipc_call_blocks:
  assumes "allowed cpu c k tid ch" "\<not> endpoint_dead ch" "length req \<le> MAX_MESSAGE_SIZE" "ring_len (ring ch) < RING_CAPACITY"
    "pending_caller ch = None"
  shows "\<exists>k'. ipc_call cpu c req rb t k = (Blocked, k')"
proof -
  obtain pid where "current_thread_id cpu k = Some tid" "process_of_thread k tid = Some pid"
    "check_channel_access k pid c = Ok ()" "channel_mut k c = Ok ch" by (rule allowed_checks[OF assms(1)])
  moreover obtain rg where "ring_push (build_message tid req) (ring ch) = (True, rg)" using ring_push_room[OF assms(4)] by blast
  ultimately show ?thesis using assms(2,3,5) by (simp add: ipc_call_def Let_def)
qed

lemma ipc_recv_takes:
  assumes "allowed cpu c k tid ch" "\<not> endpoint_dead ch" "0 < ring_len (ring ch)"
  shows "\<exists>r b k'. ipc_recv cpu c rb t k = (Done (Ok r, b), k')"
proof -
  obtain pid where "current_thread_id cpu k = Some tid" "process_of_thread k tid = Some pid"
    "check_channel_access k pid c = Ok ()" "channel_mut k c = Ok ch" by (rule allowed_checks[OF assms(1)])
  moreover obtain m rg where "ring_pop (ring ch) = (Some m, rg)" using assms(3) by (auto simp: ring_pop_def)
  ultimately show ?thesis using assms(2) by (simp add: ipc_recv_def split: prod.split)
qed

lemma ipc_recv_waits:
  assumes "allowed cpu c k tid ch" "\<not> endpoint_dead ch" "ring_len (ring ch) = 0" "waiting_receiver ch = None" "t \<noteq> 0"
  shows "\<exists>k'. ipc_recv cpu c rb t k = (Blocked, k')"
proof -
  obtain pid where "current_thread_id cpu k = Some tid" "process_of_thread k tid = Some pid"
    "check_channel_access k pid c = Ok ()" "channel_mut k c = Ok ch" by (rule allowed_checks[OF assms(1)])
  then show ?thesis using assms(2-5) by (simp add: ipc_recv_def ring_pop_def)
qed

lemma ipc_reply_succeeds:
  assumes "current_thread k ! cpu = Some tid" "unat c < MAX_CHANNELS" "channels k ! unat c = Some ch"
    "pending_caller ch = Some caller" "length rep \<le> MAX_MESSAGE_SIZE"
  shows "\<exists>k'. ipc_reply cpu c rep k = (0, k')"
proof -
  have "channel_mut k c = Ok ch" using assms(2,3) by (simp add: channel_mut_Ok)
  then show ?thesis
    using assms(1,4,5) by (simp add: ipc_reply_def current_thread_id_def Let_def case_bool_pair)
qed

text \<open>
  C40. A reply needs no authority: any running thread, also one whose process holds no capability for
  the channel and never received the request, can answer the pending call of any channel; the call
  then completes with the forged bytes.
\<close>

theorem reply_needs_no_authority:
  assumes "current_thread k ! cpu = Some tid" "process_of_thread k tid = Some pid" "\<not> holds k pid (ChannelAccess c)"
    and "unat c < MAX_CHANNELS" "channels k ! unat c = Some ch" "pending_caller ch = Some caller" "tid_ok caller"
    and "length (reply_slots k) = MAX_THREADS" "reply_slots k ! unat caller = Some slot" "wakeup_errors k ! unat caller = 0"
    and "length rep \<le> MAX_MESSAGE_SIZE" "length rep \<le> length (rs_buf slot)"
  shows "\<exists>k'. ipc_reply cpu c rep k = (0, k') \<and>
    fst (ipc_call_resume caller c rb k') = (int (length rep), rep @ drop (length rep) (rs_buf slot))"
proof -
  obtain r k' where r: "ipc_reply cpu c rep k = (r, k')" by fastforce
  have "r = 0" using r assms(1,4-7,11)
    by (auto simp: ipc_reply_def current_thread_id_def channel_mut_def channel_slot_def channel_index_def Let_def
        split: prod.splits bool.splits)
  with r have r0: "ipc_reply cpu c rep k = (0, k')" by simp
  obtain ch' cl where p: "channels k ! unat c = Some ch'" "pending_caller ch' = Some cl"
    "reply_slots k' = (reply_slots k)[unat cl := map_option (write_reply rep) (slot_at (reply_slots k) (unat cl))]"
    "wakeup_errors k' = wakeup_errors k"
    by (rule ipc_reply_done[OF r0])
  have "slot_at (reply_slots k') (unat caller) = Some (write_reply rep slot)"
    using p assms(5-9) by (simp add: slot_at_def)
  then have "fst (ipc_call_resume caller c rb k') = (int (length rep), rep @ drop (length rep) (rs_buf slot))"
    using p(4) assms(10,12) by (simp add: ipc_call_resume_def Let_def write_reply_def get_wakeup_error_def min_def)
  then show ?thesis using r0 by blast
qed

section \<open>Concrete exchanges\<close>

text \<open>
  Two CPUs run two threads of a process that may use channel 0; a third CPU runs a thread of a
  process without capabilities.
\<close>

definition demo_process :: "ProcessId \<Rightarrow> CapabilityTable \<Rightarrow> ProcessControl" where
  "demo_process pid t = \<lparr>pc_pid = pid, resource_limits = limits_system, cap_table = t\<rparr>"

definition demo_thread :: "ThreadId \<Rightarrow> ProcessId \<Rightarrow> Thread" where
  "demo_thread tid pid = set_state Running ((new_kernel tid)\<lparr>owner_pid := Some pid\<rparr>)"

definition demo_caps :: CapabilityTable where
  "demo_caps = snd (grant (fresh_token 1 (ChannelAccess 0) 0 True 0) cap_table_new)"

definition demo_channel :: Channel where
  "demo_channel = (channel_new 0 0)\<lparr>creation_cap := Some 1\<rparr>"

definition demo_ipc :: Kernel where
  "demo_ipc = boot_kernel\<lparr>
     processes := (replicate MAX_PROCESSES None)[0 := Some (demo_process 0 demo_caps), 1 := Some (demo_process 1 cap_table_new)],
     threads := (replicate MAX_THREADS None)[0 := Some (demo_thread 0 0), 1 := Some (demo_thread 1 0), 2 := Some (demo_thread 2 1)],
     current_thread := (replicate MAX_CORES None)[0 := Some 0, 1 := Some 1, 2 := Some 2],
     channels := (replicate MAX_CHANNELS None)[0 := Some demo_channel]\<rparr>"

lemma demo_caps_has: "has_capability demo_caps (ChannelAccess 0) 0" "\<not> has_capability cap_table_new (ChannelAccess 0) 0"
  by code_simp+

lemma demo_ipc_fields:
  "length (processes demo_ipc) = 32" "processes demo_ipc ! 0 = Some (demo_process 0 demo_caps)"
  "processes demo_ipc ! 1 = Some (demo_process 1 cap_table_new)" "tick_count demo_ipc = 0"
  "thread_of demo_ipc 0 = Some (demo_thread 0 0)" "thread_of demo_ipc 1 = Some (demo_thread 1 0)"
  "thread_of demo_ipc 2 = Some (demo_thread 2 1)" "current_thread demo_ipc ! 0 = Some 0"
  "current_thread demo_ipc ! 1 = Some 1" "current_thread demo_ipc ! 2 = Some 2"
  "length (wakeup_errors demo_ipc) = MAX_THREADS" "length (reply_slots demo_ipc) = MAX_THREADS"
  "wakeup_errors demo_ipc ! 0 = 0" "channels demo_ipc ! 0 = Some demo_channel"
  by (simp_all add: demo_ipc_def boot_kernel_def MAX_PROCESSES_def MAX_THREADS_def MAX_CORES_def MAX_CHANNELS_def slot_at_def)

lemma demo_owners:
  "process_of_thread demo_ipc 0 = Some 0" "process_of_thread demo_ipc 1 = Some 0" "process_of_thread demo_ipc 2 = Some 1"
  using demo_ipc_fields(5-7) by (simp_all add: process_of_thread_alt demo_thread_def)

lemma demo_holds: "holds demo_ipc 0 (ChannelAccess 0)" "\<not> holds demo_ipc 1 (ChannelAccess 0)"
proof -
  have "check_access demo_ipc 0 (ChannelAccess 0) = Ok ()" "check_access demo_ipc 1 (ChannelAccess 0) = Err (errno Eperm)"
    using demo_ipc_fields demo_caps_has
    by (simp_all add: check_access_def process_ref_def process_index_def MAX_PROCESSES_def demo_process_def)
  then show "holds demo_ipc 0 (ChannelAccess 0)" "\<not> holds demo_ipc 1 (ChannelAccess 0)"
    by (simp_all add: check_access_Ok check_access_Err)
qed

lemma demo_allowed: "allowed 0 0 demo_ipc 0 demo_channel" "allowed 1 0 demo_ipc 1 demo_channel"
  using demo_holds demo_owners demo_ipc_fields by (auto simp: allowed_def MAX_CHANNELS_def)

lemma demo_ipc_ok: "chans_ok (channels demo_ipc)"
proof -
  have "chans_ok (replicate MAX_CHANNELS None)" by (simp add: chans_ok_def)
  moreover have "chan_ok 0 (channel_new (word_of_nat 0) 0)" by (rule chan_ok_new) (simp add: MAX_CHANNELS_def)
  ultimately show ?thesis by (simp add: demo_ipc_def demo_channel_def)
qed

lemma demo_channel_fields [simp]:
  "\<not> endpoint_dead demo_channel" "ring demo_channel = ring_new" "waiting_receiver demo_channel = None"
  "pending_caller demo_channel = None" "ring_len ring_new = 0" "creation_cap demo_channel = Some 1"
  by (simp_all add: demo_channel_def channel_new_def endpoint_dead_def ring_new_def)

text \<open>Thread 0 has called, and threads 1 and 2 go on running.\<close>

lemma demo_called:
  obtains k ch where "ipc_call 0 0 [1, 2] [0, 0, 0] 0 demo_ipc = (Blocked, k)" "allowed 1 0 k 1 ch"
    "\<not> endpoint_dead ch" "0 < ring_len (ring ch)" "pending_caller ch = Some 0" "current_thread k ! 2 = Some 2"
    "process_of_thread k 2 = Some 1" "\<not> holds k 1 (ChannelAccess 0)" "wakeup_errors k = wakeup_errors demo_ipc"
    "reply_slots k = (reply_slots demo_ipc)[0 := Some \<lparr>rs_buf = [0, 0, 0], bytes_written = 0\<rparr>]"
proof -
  obtain k where k: "ipc_call 0 0 [1, 2] [0, 0, 0] 0 demo_ipc = (Blocked, k)"
    using ipc_call_blocks[OF demo_allowed(1), of "[1, 2]" "[0, 0, 0]" 0] by (auto simp: MAX_MESSAGE_SIZE_def)
  from k show thesis
  proof (cases rule: ipc_call_cases)
    case (called tid ch rg dl)
    have eq: "ch = demo_channel" "tid = 0" using called(2) demo_ipc_fields by (auto simp: allowed_def)
    let ?ch = "demo_channel\<lparr>ring := rg, pending_caller := Some 0, waiting_receiver := None\<rparr>"
    define k0 where "k0 = register_call 0 [0, 0, 0] dl (set_channel 0 (Some ?ch) demo_ipc)"
    have kb: "k = block_current 0 (BlockedIpc (ucast (0 :: ChannelId))) k0"
      using called(8) by (simp add: eq ipc_call_switch_def k0_def)
    have f: "threads k0 = threads demo_ipc" "current_thread k0 = current_thread demo_ipc" "processes k = processes demo_ipc"
      "tick_count k = tick_count demo_ipc" "channels k ! 0 = Some ?ch" "wakeup_errors k = wakeup_errors demo_ipc"
      "reply_slots k = (reply_slots demo_ipc)[0 := Some \<lparr>rs_buf = [0, 0, 0], bytes_written = 0\<rparr>]"
      using chans_ok_length[OF demo_ipc_ok] unfolding kb k0_def register_call_def
      by (simp_all add: frame_simps MAX_CHANNELS_def)
    have st: "stays 0 k0 k" unfolding kb by (rule stays_block)
    have al: "allowed 1 0 k 1 ?ch" by (rule allowed_stays[OF demo_allowed(2) _ st f(1,2,3,4)]) (simp_all add: f(5))
    have "process_of_thread k0 2 = process_of_thread demo_ipc 2" using f(1) by (simp add: process_of_thread_alt)
    then have "current_thread k ! 2 = Some 2" "process_of_thread k 2 = Some 1"
      using st f(2) demo_ipc_fields(10) demo_owners(3) by (auto simp: stays_def)
    moreover have "\<not> holds k 1 (ChannelAccess 0)" using holds_frame[OF f(3,4)] demo_holds(2) by simp
    moreover have "0 < ring_len rg" using called(6) by (auto simp: eq ring_push_def split: if_splits)
    ultimately show thesis using that[OF k al] f(6,7) by (simp add: demo_channel_def endpoint_dead_def channel_new_def)
  qed simp
qed

theorem channel_needs_capability_witness:
  "current_process_id 2 demo_ipc = Some 1 \<and> \<not> holds demo_ipc 1 (ChannelAccess 0) \<and>
     (\<exists>e < 0. ipc_send 2 0 [1, 2] demo_ipc = (e, demo_ipc))"
proof -
  have "current_process_id 2 demo_ipc = Some 1"
    using demo_ipc_fields(10) demo_owners(3) by (simp add: current_process_id_def)
  then show ?thesis using demo_holds(2) channel_needs_capability[of 2 demo_ipc 1 0] by blast
qed

theorem blocked_recv_gets_sent_witness:
  "\<exists>k1 k2. ipc_recv 0 0 [0, 0, 0] 5 demo_ipc = (Blocked, k1) \<and> ipc_send 1 0 [1, 2] k1 = (0, k2) \<and>
     fst (ipc_recv_resume 0 0 [0, 0, 0] k2) = (Ok (2, 1), [1, 2, 0])"
proof -
  obtain k1 where k1: "ipc_recv 0 0 [0, 0, 0] 5 demo_ipc = (Blocked, k1)"
    using ipc_recv_waits[OF demo_allowed(1), of 5 "[0, 0, 0]"] by auto
  from k1 obtain ch where al: "allowed 1 0 k1 1 ch" "\<not> endpoint_dead ch" "ring_len (ring ch) = 0"
  proof (cases rule: ipc_recv_cases)
    case (waits tid ch)
    have eq: "ch = demo_channel" "tid = 0" using waits(1) demo_ipc_fields by (auto simp: allowed_def)
    let ?ch = "demo_channel\<lparr>waiting_receiver := Some 0\<rparr>"
    define k0 where "k0 = arm_timeout 0 (deadline_from_now demo_ipc 5) (set_channel 0 (Some ?ch) demo_ipc)"
    have kb: "k1 = block_current 0 (BlockedIpc (ucast (0 :: ChannelId))) k0" using waits(7) by (simp add: eq k0_def)
    have f: "threads k0 = threads demo_ipc" "current_thread k0 = current_thread demo_ipc" "processes k1 = processes demo_ipc"
      "tick_count k1 = tick_count demo_ipc" "channels k1 ! unat (0 :: ChannelId) = Some ?ch"
      using chans_ok_length[OF demo_ipc_ok] unfolding kb k0_def by (simp_all add: frame_simps MAX_CHANNELS_def)
    have "stays 0 k0 k1" unfolding kb by (rule stays_block)
    then have "allowed 1 0 k1 1 ?ch" by (rule allowed_stays[OF demo_allowed(2) _ _ f, rotated]) simp
    then show thesis using that by (simp add: demo_channel_def endpoint_dead_def channel_new_def ring_new_def)
  qed (simp_all split: prod.splits)
  obtain k2 where k2: "ipc_send 1 0 [1, 2] k1 = (0, k2)"
    using ipc_send_succeeds[OF al(1,2), of "[1, 2]"] al(3) by (auto simp: MAX_MESSAGE_SIZE_def)
  from blocked_recv_gets_sent[OF demo_ipc_ok k1 demo_ipc_fields(8) _ k2, of 1] allowedD[OF al(1)] k1 k2
  show ?thesis using demo_ipc_fields(13) by auto
qed

theorem call_reply_roundtrip_witness:
  "\<exists>k1 r b k2 k3. ipc_call 0 0 [1, 2] [0, 0, 0] 0 demo_ipc = (Blocked, k1) \<and> takes_message 0 [0, 0, 0] k1 r b k2 \<and>
     ipc_reply 1 0 [7, 8, 9, 10] k2 = (0, k3) \<and> snd r = 0 \<and> b = [1, 2, 0] \<and>
     fst (ipc_call_resume 0 0 [0, 0, 0] k3) = (3, [7, 8, 9])"
proof -
  obtain k1 ch where c: "ipc_call 0 0 [1, 2] [0, 0, 0] 0 demo_ipc = (Blocked, k1)" "allowed 1 0 k1 1 ch"
    "\<not> endpoint_dead ch" "0 < ring_len (ring ch)" "pending_caller ch = Some 0" by (rule demo_called)
  obtain r b k2 where t: "ipc_recv 1 0 [0, 0, 0] 0 k1 = (Done (Ok r, b), k2)" using ipc_recv_takes[OF c(2-4)] by blast
  then have tm: "takes_message 0 [0, 0, 0] k1 r b k2" unfolding takes_message_def by blast
  from t have "current_thread k2 ! 1 = Some 1 \<and> (\<exists>ch'. channels k2 ! unat (0 :: ChannelId) = Some ch' \<and> pending_caller ch' = Some 0)"
  proof (cases rule: ipc_recv_cases)
    case (received tid ch' m rg)
    have "length (channels k1) = MAX_CHANNELS"
      using chans_ok_call[OF demo_ipc_ok, of 0 0 "[1, 2]" "[0, 0, 0]" 0] c(1) demo_ipc_fields(8)
      by (simp add: cur_ok_def MAX_THREADS_def chans_ok_length)
    then show ?thesis using received allowedD[OF c(2)] allowedD[OF received(1)] c(5) by (auto simp: frame_simps)
  qed (simp_all split: prod.splits)
  then obtain k3 where k3: "ipc_reply 1 0 [7, 8, 9, 10] k2 = (0, k3)"
    using ipc_reply_succeeds[of k2 1 1 0 _ 0 "[7, 8, 9, 10]"] by (auto simp: MAX_CHANNELS_def MAX_MESSAGE_SIZE_def)
  have "channels demo_ipc ! unat (0 :: ChannelId) = Some demo_channel" using demo_ipc_fields(14) by simp
  from call_reply_roundtrip[OF demo_ipc_ok demo_ipc_fields(12,11,8) _ _ this _ c(1) tm k3]
  have "r = (2, 0)" "b = [1, 2, 0]" "fst (ipc_call_resume 0 0 [0, 0, 0] k3) = (3, [7, 8, 9])"
    using demo_ipc_fields(13) by (simp_all add: MAX_THREADS_def)
  then show ?thesis using c(1) tm k3 by (intro exI[of _ k1] exI[of _ r] exI[of _ b] exI[of _ k2] exI[of _ k3]) simp
qed

theorem destroy_wakes_waiters_witness:
  "\<exists>k k'. ipc_call 0 0 [1, 2] [0, 0, 0] 0 demo_ipc = (Blocked, k) \<and> channel_destroy 1 0 k = (Ok (), k') \<and>
     fst (fst (ipc_call_resume 0 0 [0, 0, 0] k')) = errno Epipe"
proof -
  obtain k ch where c: "ipc_call 0 0 [1, 2] [0, 0, 0] 0 demo_ipc = (Blocked, k)" "allowed 1 0 k 1 ch"
    "pending_caller ch = Some 0" "wakeup_errors k = wakeup_errors demo_ipc" by (rule demo_called)
  have ok: "chans_ok (channels k)"
    using chans_ok_call[OF demo_ipc_ok, of 0 0 "[1, 2]" "[0, 0, 0]" 0] c(1) demo_ipc_fields(8)
    by (simp add: cur_ok_def MAX_THREADS_def)
  obtain pid where a: "current_thread_id 1 k = Some 1" "process_of_thread k 1 = Some pid" "check_channel_access k pid 0 = Ok ()"
    by (rule allowed_checks[OF c(2)])
  then have "authorize 1 0 k = Ok ()" by (simp add: authorize_def current_process_id_def current_thread_id_def)
  then obtain k' where k': "channel_destroy 1 0 k = (Ok (), k')"
    using allowedD[OF c(2)] by (auto simp: channel_destroy_def channel_destroy_unchecked_def channel_slot_def channel_index_def)
  have "length (wakeup_errors k) = MAX_THREADS" using c(4) demo_ipc_fields(11) by simp
  from destroy_wakes_waiters[OF ok this k', of "[0, 0, 0]"] show ?thesis
    using c(1,3) k' allowedD[OF c(2)] by auto
qed


theorem reply_needs_no_authority_witness:
  "\<exists>k k'. ipc_call 0 0 [1, 2] [0, 0, 0] 0 demo_ipc = (Blocked, k) \<and> \<not> holds k 1 (ChannelAccess 0) \<and>
     ipc_reply 2 0 [7] k = (0, k') \<and> fst (ipc_call_resume 0 0 [0, 0, 0] k') = (1, [7, 0, 0])"
proof -
  obtain k ch where c: "ipc_call 0 0 [1, 2] [0, 0, 0] 0 demo_ipc = (Blocked, k)" "allowed 1 0 k 1 ch"
    "pending_caller ch = Some 0" "current_thread k ! 2 = Some 2" "process_of_thread k 2 = Some 1"
    "\<not> holds k 1 (ChannelAccess 0)" "wakeup_errors k = wakeup_errors demo_ipc"
    "reply_slots k = (reply_slots demo_ipc)[0 := Some \<lparr>rs_buf = [0, 0, 0], bytes_written = 0\<rparr>]" by (rule demo_called)
  have "\<exists>k'. ipc_reply 2 0 [7] k = (0, k') \<and> fst (ipc_call_resume 0 0 [0, 0, 0] k') =
      (int (length [7 :: u8]), [7] @ drop (length [7 :: u8]) (rs_buf \<lparr>rs_buf = [0, 0, 0], bytes_written = 0\<rparr>))"
    using allowedD[OF c(2)] c(7,8) demo_ipc_fields(11-13)
    by (intro reply_needs_no_authority[OF c(4,5,6), of ch 0])
      (simp_all add: c(3) MAX_THREADS_def MAX_MESSAGE_SIZE_def)
  then show ?thesis using c(1,6) by auto
qed

end
