(* ===== verification/Ipc_Notify.thy ===== *)
theory Ipc_Notify
  imports Ipc_Channel
begin

unbundle bit_operations_syntax

text \<open>
  Notifications (\<open>kernel/src/ipc/notify.rs\<close>), multi-wait (\<open>kernel/src/ipc/select.rs\<close>) and the
  timer's timeout scans (\<open>check_timeouts\<close> of \<open>kernel/src/ipc/timeout.rs\<close>,
  \<open>check_notification_timeouts\<close>). As in \<open>Ipc_Channel\<close>, a blocking call is split at the switch.
\<close>

section \<open>Notifications\<close>

definition notification_create :: "ProcessId \<Rightarrow> Kernel \<Rightarrow> (NotificationId, int) result \<times> Kernel" where
  "notification_create pid k =
     (case first_free (notifications k) of
        None \<Rightarrow> (Err (errno Enomem), k)
      | Some idx \<Rightarrow>
          (Ok (word_of_nat idx),
           k\<lparr>notifications := (notifications k)[idx := Some (notification_new (word_of_nat idx) pid)]\<rparr>))"

text \<open>
  The waiter loop of \<open>notification_signal\<close>: each waiter whose mask meets the word takes the bits
  it matches and leaves the list. The result is the new word, the remaining waiters and the
  threads to wake with their bits, in slot order.
\<close>

fun signal_waiters ::
  "u64 \<Rightarrow> Waiter option list \<Rightarrow> u64 \<times> Waiter option list \<times> (ThreadId \<times> u64) list" where
  "signal_waiters wrd [] = (wrd, [], [])"
| "signal_waiters wrd (None # ws) =
     (case signal_waiters wrd ws of (wrd', ws', wake) \<Rightarrow> (wrd', None # ws', wake))"
| "signal_waiters wrd (Some w # ws) =
     (let matched = wrd AND w_mask w in
      if matched \<noteq> 0 then
        (case signal_waiters (wrd AND NOT matched) ws of
           (wrd', ws', wake) \<Rightarrow> (wrd', None # ws', (w_tid w, matched) # wake))
      else
        (case signal_waiters wrd ws of (wrd', ws', wake) \<Rightarrow> (wrd', Some w # ws', wake)))"

definition notification_signal :: "nat \<Rightarrow> NotificationId \<Rightarrow> u64 \<Rightarrow> Kernel \<Rightarrow> (unit, int) result \<times> Kernel" where
  "notification_signal cpu i bits k =
     (if unat i \<ge> MAX_NOTIFICATIONS then (Err (errno Einval), k)
      else case notifications k ! unat i of
        None \<Rightarrow> (Err (errno Einval), k)
      | Some n \<Rightarrow>
          (case signal_waiters (no_word n OR bits) (waiters n) of
             (wrd, ws, wake) \<Rightarrow>
               let k1 = k\<lparr>notifications := (notifications k)[unat i := Some (n\<lparr>no_word := wrd, waiters := ws\<rparr>)]\<rparr>;
                   k2 = k1\<lparr>notify_results :=
                          fold (\<lambda>(tid, matched) rs. rs[unat tid := Some matched]) wake (notify_results k1)\<rparr>
               in (Ok (), fold (\<lambda>(tid, matched) k.
                                  wake_receiver cpu tid (SelNotification i matched) matched k) wake k2)))"

definition set_thread_deadline :: "ThreadId \<Rightarrow> u64 \<Rightarrow> Kernel \<Rightarrow> Kernel" where
  "set_thread_deadline tid dl k = k\<lparr>notify_deadlines := (notify_deadlines k)[unat tid := dl]\<rparr>"

text \<open>
  \<open>notification_wait\<close> up to the switch. The second look at the word, after the table's lock is
  taken again, is the same as the first when nothing runs in between.
\<close>

definition wait_deadline :: "Kernel \<Rightarrow> u64 \<Rightarrow> u64" where
  "wait_deadline k timeout_ticks =
     (case deadline_after (tick_count k) timeout_ticks of Some d \<Rightarrow> d | None \<Rightarrow> u64_MAX)"

definition take_bits :: "NotificationId \<Rightarrow> u64 \<Rightarrow> Kernel \<Rightarrow> u64 \<times> Kernel" where
  "take_bits i msk k =
     (case notifications k ! unat i of
        None \<Rightarrow> (0, k)
      | Some n \<Rightarrow>
          let matched = no_word n AND msk in
          if matched \<noteq> 0 then
            (matched, k\<lparr>notifications := (notifications k)[unat i := Some (n\<lparr>no_word := no_word n AND NOT matched\<rparr>)]\<rparr>)
          else (0, k))"

definition notification_wait ::
  "nat \<Rightarrow> NotificationId \<Rightarrow> u64 \<Rightarrow> u64 \<Rightarrow> Kernel \<Rightarrow> (u64, int) result outcome \<times> Kernel" where
  "notification_wait cpu i msk timeout_ticks k =
     (if unat i \<ge> MAX_NOTIFICATIONS then (Done (Err (errno Einval)), k)
      else case current_thread_id cpu k of
        None \<Rightarrow> (Done (Err (errno Einval)), k)
      | Some my_tid \<Rightarrow>
     (case notifications k ! unat i of
        None \<Rightarrow> (Done (Err (errno Einval)), k)
      | Some n \<Rightarrow>
     (case take_bits i msk k of
        (matched, k1) \<Rightarrow>
          if matched \<noteq> 0 then (Done (Ok matched), k1)
          else (case first_free (waiters n) of
            None \<Rightarrow> (Done (Err (errno Enomem)), k)
          | Some s \<Rightarrow>
              let n' = n\<lparr>waiters := (waiters n)[s := Some \<lparr>w_tid = my_tid, w_mask = msk\<rparr>]\<rparr>;
                  k2 = k\<lparr>notifications := (notifications k)[unat i := Some n']\<rparr>
              in (Blocked, block_current cpu (BlockedNotification i)
                             (set_thread_deadline my_tid (wait_deadline k timeout_ticks) k2))))))"

text \<open>The first waiter slot of a thread is emptied.\<close>

fun remove_waiter :: "ThreadId \<Rightarrow> Waiter option list \<Rightarrow> Waiter option list" where
  "remove_waiter tid [] = []"
| "remove_waiter tid (None # ws) = None # remove_waiter tid ws"
| "remove_waiter tid (Some w # ws) = (if w_tid w = tid then None # ws else Some w # remove_waiter tid ws)"

definition cleanup_waiter :: "NotificationId \<Rightarrow> ThreadId \<Rightarrow> Kernel \<Rightarrow> Kernel" where
  "cleanup_waiter i tid k =
     k\<lparr>notifications := (notifications k)[unat i :=
         map_option (\<lambda>n. n\<lparr>waiters := remove_waiter tid (waiters n)\<rparr>) (notifications k ! unat i)]\<rparr>"

definition notification_wait_resume ::
  "ThreadId \<Rightarrow> NotificationId \<Rightarrow> Kernel \<Rightarrow> (u64, int) result \<times> Kernel" where
  "notification_wait_resume my_tid i k =
     (let k1 = k\<lparr>notify_results := (notify_results k)[unat my_tid := None]\<rparr>
      in case slot_at (notify_results k) (unat my_tid) of
           Some bits \<Rightarrow> (Ok bits, k1)
         | None \<Rightarrow> (Err (errno Etimedout), cleanup_waiter i my_tid k1))"

definition notification_destroy :: "nat \<Rightarrow> NotificationId \<Rightarrow> Kernel \<Rightarrow> Kernel" where
  "notification_destroy cpu i k =
     (if unat i \<ge> MAX_NOTIFICATIONS then k
      else case notifications k ! unat i of
        None \<Rightarrow> k
      | Some n \<Rightarrow>
          fold (\<lambda>w. unblock cpu (w_tid w)) (occupied (waiters n))
            (k\<lparr>notifications := (notifications k)[unat i := None]\<rparr>))"

section \<open>Timeout scans\<close>

text \<open>One round of the loop of \<open>check_notification_timeouts\<close>, for the thread slot \<open>idx\<close>.\<close>

definition expire_notify :: "nat \<Rightarrow> u64 \<Rightarrow> nat \<Rightarrow> Kernel \<Rightarrow> Kernel" where
  "expire_notify cpu now idx k =
     (if notify_deadlines k ! idx \<le> now then
        let k1 = k\<lparr>notify_deadlines := (notify_deadlines k)[idx := u64_MAX]\<rparr>;
            tid = word_of_nat idx
        in if busy k1 L_ThreadTable then k1
           else (case state_of k1 tid of
             Some (BlockedNotification i) \<Rightarrow>
               unblock cpu tid (if busy k1 L_NotificationTable then k1 else cleanup_waiter i tid k1)
           | Some BlockedSelect \<Rightarrow>
               unblock cpu tid
                 (if busy k1 L_SelectWaiters then k1
                  else k1\<lparr>select_waiters := (select_waiters k1)[idx := None]\<rparr>)
           | _ \<Rightarrow> k1)
      else k)"

definition check_notification_timeouts :: "nat \<Rightarrow> u64 \<Rightarrow> Kernel \<Rightarrow> Kernel" where
  "check_notification_timeouts cpu now k =
     (if busy k L_NotifyDeadlines then k else fold (expire_notify cpu now) [0..<MAX_THREADS] k)"

definition te_expired :: "u64 \<Rightarrow> TimeoutEntry option \<Rightarrow> bool" where
  "te_expired now e = (case e of Some te \<Rightarrow> now \<ge> wake_at_tick te | None \<Rightarrow> False)"

definition check_timeouts :: "nat \<Rightarrow> Kernel \<Rightarrow> Kernel" where
  "check_timeouts cpu k =
     (let now = tick_count k in
      if busy k L_TimeoutQueue then k
      else
        let expired_entries = occupied (filter (te_expired now) (timeout_queue k));
            k1 = k\<lparr>timeout_queue := map (\<lambda>e. if te_expired now e then None else e) (timeout_queue k)\<rparr>;
            k2 = fold (\<lambda>te. wake_with_error cpu (te_tid te) (error_code te)) expired_entries k1
        in check_notification_timeouts cpu now k2)"

section \<open>Select\<close>

definition select_id_ok :: "SelectKind \<Rightarrow> bool" where
  "select_id_ok e =
     (case e of SelChannel c \<Rightarrow> channel_index c \<noteq> None | SelNotification n _ \<Rightarrow> unat n < MAX_NOTIFICATIONS)"

fun select_channels :: "SelectKind list \<Rightarrow> ChannelId list" where
  "select_channels [] = []"
| "select_channels (SelChannel c # es) = c # select_channels es"
| "select_channels (SelNotification _ _ # es) = select_channels es"

fun check_all :: "Kernel \<Rightarrow> ProcessId \<Rightarrow> ChannelId list \<Rightarrow> (unit, int) result" where
  "check_all k pid [] = Ok ()"
| "check_all k pid (c # cs) =
     (case check_channel_access k pid c of Err e \<Rightarrow> Err e | Ok _ \<Rightarrow> check_all k pid cs)"

definition check_channel_entries :: "Kernel \<Rightarrow> ThreadId \<Rightarrow> SelectKind list \<Rightarrow> (unit, int) result" where
  "check_channel_entries k tid es =
     (if select_channels es = [] then Ok ()
      else case process_of_thread k tid of
        None \<Rightarrow> Err (errno Eperm)
      | Some pid \<Rightarrow> check_all k pid (select_channels es))"

fun scan_entries :: "nat \<Rightarrow> SelectKind list \<Rightarrow> Kernel \<Rightarrow> (nat \<times> u64) option \<times> Kernel" where
  "scan_entries i [] k = (None, k)"
| "scan_entries i (SelChannel c # es) k =
     (case channel_mut k c of
        Ok ch \<Rightarrow> if ring_len (ring ch) > 0 then (Some (i, 0), k) else scan_entries (i + 1) es k
      | Err _ \<Rightarrow> scan_entries (i + 1) es k)"
| "scan_entries i (SelNotification n msk # es) k =
     (case take_bits n msk k of
        (matched, k1) \<Rightarrow> if matched \<noteq> 0 then (Some (i, matched), k1) else scan_entries (i + 1) es k)"

definition register_source :: "ThreadId \<Rightarrow> SelectKind \<Rightarrow> Kernel \<Rightarrow> Kernel" where
  "register_source tid e k =
     (case e of
        SelChannel c \<Rightarrow>
          (case channel_mut k c of
             Ok ch \<Rightarrow> if waiting_receiver ch = None
                      then set_channel c (Some (ch\<lparr>waiting_receiver := Some tid\<rparr>)) k else k
           | Err _ \<Rightarrow> k)
      | SelNotification i msk \<Rightarrow>
          (case notifications k ! unat i of
             Some n \<Rightarrow>
               (case first_free (waiters n) of
                  Some s \<Rightarrow> k\<lparr>notifications := (notifications k)[unat i :=
                              Some (n\<lparr>waiters := (waiters n)[s := Some \<lparr>w_tid = tid, w_mask = msk\<rparr>]\<rparr>)]\<rparr>
                | None \<Rightarrow> k)
           | None \<Rightarrow> k))"

definition unregister_source :: "ThreadId \<Rightarrow> SelectKind \<Rightarrow> Kernel \<Rightarrow> Kernel" where
  "unregister_source tid e k =
     (case e of
        SelChannel c \<Rightarrow>
          (case channel_mut k c of
             Ok ch \<Rightarrow> if waiting_receiver ch = Some tid
                      then set_channel c (Some (ch\<lparr>waiting_receiver := None\<rparr>)) k else k
           | Err _ \<Rightarrow> k)
      | SelNotification i _ \<Rightarrow> cleanup_waiter i tid k)"

definition ipc_select ::
  "nat \<Rightarrow> SelectKind list \<Rightarrow> u64 \<Rightarrow> Kernel \<Rightarrow> (nat \<times> u64, int) result outcome \<times> Kernel" where
  "ipc_select cpu es timeout_ticks k =
     (case current_thread_id cpu k of
        None \<Rightarrow> (Done (Err (errno Einval)), k)
      | Some my_tid \<Rightarrow>
          if es = [] \<or> length es > MAX_SELECT_ENTRIES then (Done (Err (errno Einval)), k)
          else if \<not> list_all select_id_ok es then (Done (Err (errno Einval)), k)
          else (case check_channel_entries k my_tid es of
            Err e \<Rightarrow> (Done (Err e), k)
          | Ok _ \<Rightarrow>
              (case scan_entries 0 es k of
                 (Some r, k1) \<Rightarrow> (Done (Ok r), k1)
               | (None, k1) \<Rightarrow>
                   let sw = \<lparr>sw_tid = my_tid,
                             sw_entries = map Some es @ replicate (MAX_SELECT_ENTRIES - length es) None,
                             entry_count = length es, ready_index = None, ready_bits = 0\<rparr>;
                       k2 = k1\<lparr>select_waiters := (select_waiters k1)[unat my_tid := Some sw]\<rparr>;
                       k3 = fold (register_source my_tid) es k2
                   in (Blocked, block_current cpu BlockedSelect
                                  (set_thread_deadline my_tid (wait_deadline k timeout_ticks) k3)))))"

definition ipc_select_resume ::
  "ThreadId \<Rightarrow> SelectKind list \<Rightarrow> Kernel \<Rightarrow> (nat \<times> u64, int) result \<times> Kernel" where
  "ipc_select_resume my_tid es k =
     (let (ri, rb) = (case slot_at (select_waiters k) (unat my_tid) of
                        Some sw \<Rightarrow> (ready_index sw, ready_bits sw)
                      | None \<Rightarrow> (None, 0));
          k1 = k\<lparr>select_waiters := (select_waiters k)[unat my_tid := None]\<rparr>;
          k2 = fold (unregister_source my_tid) es k1
      in (case ri of Some i \<Rightarrow> Ok (i, rb) | None \<Rightarrow> Err (errno Etimedout), k2))"

section \<open>Signals\<close>



lemma signal_waiters_Cons:
  assumes "signal_waiters w (Some x # ws) = (w', ws', wake)"
  obtains (served) m ws1 wake1 where "m = w AND w_mask x" "m \<noteq> 0" "signal_waiters (w AND NOT m) ws = (w', ws1, wake1)"
      "ws' = None # ws1" "wake = (w_tid x, m) # wake1"
    | (kept) ws1 where "w AND w_mask x = 0" "signal_waiters w ws = (w', ws1, wake)" "ws' = Some x # ws1"
proof (cases "w AND w_mask x = 0")
  case True
  then show thesis using assms kept by (auto simp: Let_def split: prod.splits)
next
  case False
  define m where "m = w AND w_mask x"
  obtain w1 ws1 wake1 where r: "signal_waiters (w AND NOT m) ws = (w1, ws1, wake1)" by (metis prod_cases3)
  have "(w', ws', wake) = (w1, None # ws1, (w_tid x, m) # wake1)"
    using assms False unfolding signal_waiters.simps Let_def m_def[symmetric] r by simp
  then show thesis using served[OF m_def _ _ , of ws1 wake1] r False unfolding m_def[symmetric] by blast
qed

lemma signal_waiters_None:
  assumes "signal_waiters w (None # ws) = (w', ws', wake)"
  obtains ws1 where "signal_waiters w ws = (w', ws1, wake)" "ws' = None # ws1"
  using assms by (auto split: prod.splits)






lemma signal_waiters_length:
  assumes "signal_waiters w ws = (w', ws', wake)"
  shows "length ws' = length ws"
  using assms
proof (induction ws arbitrary: w w' ws' wake)
  case (Cons a ws)
  show ?case
  proof (cases a)
    case None
    obtain ws1 where r: "signal_waiters w ws = (w', ws1, wake)" "ws' = None # ws1"
      by (rule signal_waiters_None[OF Cons.prems[unfolded None]])
    then show ?thesis using Cons.IH[OF r(1)] by simp
  next
    case (Some y)
    from Cons.prems[unfolded Some] show ?thesis by (cases rule: signal_waiters_Cons) (auto dest: Cons.IH)
  qed
qed simp



definition waiters_ok :: "NotificationObject \<Rightarrow> bool" where
  "waiters_ok n \<longleftrightarrow> distinct (map w_tid (occupied (waiters n))) \<and> (\<forall>w. Some w \<in> set (waiters n) \<longrightarrow> tid_ok (w_tid w))"


lemma signal_no_waiters: "occupied ws = [] \<Longrightarrow> signal_waiters w ws = (w, ws, [])"
proof (induction ws)
  case (Cons x ws) then show ?case by (cases x) auto
qed simp

lemma signal_sole_waiter:
  assumes "occupied ws = []" "s < length ws" "w AND w_mask x \<noteq> 0"
  shows "signal_waiters w (ws[s := Some x]) = (w AND NOT (w AND w_mask x), ws, [(w_tid x, w AND w_mask x)])"
  using assms
proof (induction ws arbitrary: s)
  case (Cons y ws)
  then have y: "y = None" "occupied ws = []" by (cases y; simp)+
  show ?case
  proof (cases s)
    case 0
    define m where "m = w AND w_mask x"
    have "m \<noteq> 0" using Cons.prems(3) m_def by simp
    then have "signal_waiters w (Some x # ws) = (w AND NOT m, None # ws, [(w_tid x, m)])"
      unfolding signal_waiters.simps Let_def m_def[symmetric] signal_no_waiters[OF y(2)] by simp
    then show ?thesis using 0 y(1) unfolding m_def by simp
  next
    case (Suc s')
    then show ?thesis using Cons.IH[OF y(2), of s'] Cons.prems y(1) by simp
  qed
qed simp

text \<open>
  C23. Waiting and signalling meet in either order. If the bits are already there, the wait takes them
  at once. If the wait blocks as the only waiter, the first signal with a bit of its mask makes the
  resumed wait return exactly the signalled bits within the mask, and the other bits stay pending.
\<close>

theorem wait_signal_roundtrip:
  assumes "unat i < MAX_NOTIFICATIONS" "length (notifications k) = MAX_NOTIFICATIONS" "notifications k ! unat i = Some n"
    and "length (notify_results k) = MAX_THREADS" "current_thread k ! cpu = Some tid" "tid_ok tid"
    and "occupied (waiters n) = []"
  shows "(no_word n AND msk \<noteq> 0 \<longrightarrow> fst (notification_wait cpu i msk t k) = Done (Ok (no_word n AND msk))) \<and>
    (\<forall>k1 k2. notification_wait cpu i msk t k = (Blocked, k1) \<and> bits AND msk \<noteq> 0 \<and>
       notification_signal cpu' i bits k1 = (Ok (), k2) \<longrightarrow>
       fst (notification_wait_resume tid i k2) = Ok (bits AND msk) \<and>
       (\<exists>n'. notifications k2 ! unat i = Some n' \<and> no_word n' = (no_word n OR bits) AND NOT (bits AND msk)))"
proof (intro conjI allI impI)
  assume "no_word n AND msk \<noteq> 0"
  then show "fst (notification_wait cpu i msk t k) = Done (Ok (no_word n AND msk))"
    using assms(1,3,5) by (simp add: notification_wait_def current_thread_id_def take_bits_def Let_def)
next
  fix k1 k2
  assume a: "notification_wait cpu i msk t k = (Blocked, k1) \<and> bits AND msk \<noteq> 0 \<and> notification_signal cpu' i bits k1 = (Ok (), k2)"
  have "take_bits i msk k = (if no_word n AND msk = 0 then (0, k) else (no_word n AND msk, snd (take_bits i msk k)))"
    using assms(3) by (simp add: take_bits_def Let_def)
  moreover have "first_free (waiters n) = None \<or> (\<exists>s. first_free (waiters n) = Some s)" by auto
  ultimately obtain s where w: "no_word n AND msk = 0" "first_free (waiters n) = Some s"
    "notifications k1 = (notifications k)[unat i := Some (n\<lparr>waiters := (waiters n)[s := Some \<lparr>w_tid = tid, w_mask = msk\<rparr>]\<rparr>)]"
    "notify_results k1 = notify_results k"
    using a assms(1,3,5) by (auto simp: notification_wait_def current_thread_id_def set_thread_deadline_def Let_def frame_simps
        split: if_splits option.splits prod.splits)
  let ?x = "\<lparr>w_tid = tid, w_mask = msk\<rparr>" and ?w = "no_word n OR bits"
  have m: "?w AND msk = bits AND msk" using w(1) by (simp add: bit.conj_disj_distrib2)
  have sl: "s < length (waiters n)" using first_free_SomeD[OF w(2)] by simp
  have n1: "notifications k1 ! unat i = Some (n\<lparr>waiters := (waiters n)[s := Some ?x]\<rparr>)" using w(3) assms(1,2) by simp
  have sg: "signal_waiters ?w ((waiters n)[s := Some ?x]) = (?w AND NOT (bits AND msk), waiters n, [(tid, bits AND msk)])"
    using signal_sole_waiter[OF assms(7) sl, of ?w ?x] a unfolding Waiter.simps m by blast
  have k2: "notifications k2 = (notifications k1)[unat i := Some (n\<lparr>no_word := ?w AND NOT (bits AND msk)\<rparr>)]"
    "notify_results k2 = (notify_results k)[unat tid := Some (bits AND msk)]"
    using a assms(1) n1 w(4) unfolding notification_signal_def Let_def
    by (auto simp: sg frame_simps simp del: bit.de_Morgan_conj)
  show "fst (notification_wait_resume tid i k2) = Ok (bits AND msk)"
    using k2(2) assms(4,6) by (simp add: notification_wait_resume_def slot_at_def Let_def)
  show "\<exists>n'. notifications k2 ! unat i = Some n' \<and> no_word n' = ?w AND NOT (bits AND msk)"
    using k2(1) w(3) assms(1,2) by simp
qed


lemma signal_runs:
  assumes "unat i < MAX_NOTIFICATIONS" "notifications k ! unat i = Some n"
  obtains k' where "notification_signal cpu i bits k = (Ok (), k')"
proof (cases "signal_waiters (no_word n OR bits) (waiters n)")
  case (fields a b c)
  then show thesis using that assms by (simp add: notification_signal_def Let_def)
qed

text \<open>A thread on processor 0 and one notification without pending bits.\<close>

definition demo_note :: Kernel where
  "demo_note = boot_kernel\<lparr>current_thread := (current_thread boot_kernel)[0 := Some 3],
     notifications := (notifications boot_kernel)[0 := Some (notification_new 0 1)]\<rparr>"

lemma demo_note_fields:
  "notifications demo_note ! 0 = Some (notification_new 0 1)" "length (notifications demo_note) = MAX_NOTIFICATIONS"
  "length (notify_results demo_note) = MAX_THREADS" "current_thread demo_note ! 0 = Some 3"
  by (simp_all add: demo_note_def boot_kernel_def MAX_NOTIFICATIONS_def MAX_CORES_def)

lemma demo_note_waits:
  obtains k1 n where "notification_wait 0 0 5 0 demo_note = (Blocked, k1)" "notifications k1 ! unat (0 :: NotificationId) = Some n"
    "no_word n = 0" "waiters_ok n" "length (notifications k1) = MAX_NOTIFICATIONS" "length (notify_results k1) = MAX_THREADS"
    "waiters n = Some \<lparr>w_tid = 3, w_mask = 5\<rparr> # replicate 7 None"
proof -
  define k1 where "k1 = snd (notification_wait 0 0 5 0 demo_note)"
  define n where "n = (notification_new 0 1)\<lparr>waiters := (replicate 8 None)[0 := Some \<lparr>w_tid = 3, w_mask = 5\<rparr>]\<rparr>"
  have w: "notification_wait 0 0 5 0 demo_note = (Blocked, k1)" "notifications k1 = (notifications demo_note)[0 := Some n]"
    "notify_results k1 = notify_results demo_note"
    using demo_note_fields
    by (simp_all add: k1_def n_def notification_wait_def take_bits_def current_thread_id_def notification_new_def frame_simps
        set_thread_deadline_def MAX_NOTIFICATIONS_def MAX_WAITERS_PER_NOTIFICATION_def numeral_eq_Suc Let_def)
  moreover have wn: "waiters n = Some \<lparr>w_tid = 3, w_mask = 5\<rparr> # replicate 7 None" and "no_word n = 0"
    by (simp_all add: n_def notification_new_def numeral_eq_Suc)
  moreover have "occupied (replicate 7 None :: Waiter option list) = []" by (simp add: numeral_eq_Suc)
  then have "waiters_ok n" using wn by (simp add: waiters_ok_def MAX_THREADS_def)
  ultimately show thesis using that[of k1 n] demo_note_fields by (simp add: MAX_NOTIFICATIONS_def)
qed


theorem wait_signal_roundtrip_witness:
  "\<exists>k1 k2. notification_wait 0 0 5 0 demo_note = (Blocked, k1) \<and> notification_signal 0 0 7 k1 = (Ok (), k2) \<and>
    fst (notification_wait_resume 3 0 k2) = Ok 5"
proof -
  obtain k1 n where w: "notification_wait 0 0 5 0 demo_note = (Blocked, k1)" "notifications k1 ! unat (0 :: NotificationId) = Some n"
    by (rule demo_note_waits)
  obtain k2 where s: "notification_signal 0 0 7 k1 = (Ok (), k2)"
    by (rule signal_runs[OF _ w(2), of 0 7]) (simp_all add: MAX_NOTIFICATIONS_def)
  have "fst (notification_wait_resume 3 0 k2) = Ok (7 AND 5)"
    using wait_signal_roundtrip[of 0 demo_note "notification_new 0 1" 0 3 5 0 7 0] demo_note_fields w(1) s
    by (simp add: MAX_NOTIFICATIONS_def MAX_THREADS_def notification_new_def)
  then show ?thesis using w(1) s by simp
qed

section \<open>Timeouts fire\<close>

definition timeouts_ok :: "Kernel \<Rightarrow> bool" where
  "timeouts_ok k \<longleftrightarrow> length (timeout_queue k) = MAX_THREADS \<and> length (wakeup_errors k) = MAX_THREADS \<and>
     (\<forall>i < MAX_THREADS. \<forall>te. timeout_queue k ! i = Some te \<longrightarrow> unat (te_tid te) = i)"

text \<open>The state of a thread after a wakeup.\<close>

definition woken :: "ThreadState option \<Rightarrow> ThreadState option" where
  "woken st = (if st \<in> {None, Some Running, Some Runnable} then st else Some Runnable)"

lemma woken_awake: "woken st \<in> {None, Some Running, Some Runnable}"
  by (simp add: woken_def)

lemma state_of_wake_error: "state_of (wake_with_error cpu tid e k) t = (if t = tid then woken (state_of k t) else state_of k t)"
  by (simp add: state_of_wake_with_error woken_def)

lemma cleanup_waiter_frame [frame_simps]:
  "threads (cleanup_waiter i tid k) = threads k" "wakeup_errors (cleanup_waiter i tid k) = wakeup_errors k"
  "timeout_queue (cleanup_waiter i tid k) = timeout_queue k"
  by (simp_all add: cleanup_waiter_def split: option.split)

lemma expire_notify_frame [frame_simps]:
  "timeout_queue (expire_notify cpu now idx k) = timeout_queue k"
  "wakeup_errors (expire_notify cpu now idx k) = wakeup_errors k"
  by (auto simp: expire_notify_def Let_def frame_simps split: option.split ThreadState.split)

lemma check_notification_timeouts_frame [frame_simps]:
  "timeout_queue (check_notification_timeouts cpu now k) = timeout_queue k"
  "wakeup_errors (check_notification_timeouts cpu now k) = wakeup_errors k"
proof -
  have "timeout_queue (fold (expire_notify cpu now) xs k) = timeout_queue k \<and>
      wakeup_errors (fold (expire_notify cpu now) xs k) = wakeup_errors k" for xs
    by (induction xs arbitrary: k) (simp_all add: frame_simps)
  then show "timeout_queue (check_notification_timeouts cpu now k) = timeout_queue k"
    "wakeup_errors (check_notification_timeouts cpu now k) = wakeup_errors k"
    by (simp_all add: check_notification_timeouts_def)
qed

lemma state_of_frame:
  "state_of (cleanup_waiter i tid k) t = state_of k t" "state_of (k\<lparr>notify_deadlines := x\<rparr>) t = state_of k t"
  "state_of (k\<lparr>select_waiters := y\<rparr>) t = state_of k t"
  by (simp_all add: state_of_def frame_simps)

lemma state_of_expire_notify:
  assumes "state_of k t \<in> {None, Some Running, Some Runnable}"
  shows "state_of (expire_notify cpu now idx k) t = state_of k t"
  using assms by (auto simp: expire_notify_def Let_def state_of_frame state_of_unblock split: option.split ThreadState.split)

lemma state_of_check_notification_timeouts:
  assumes "state_of k t \<in> {None, Some Running, Some Runnable}"
  shows "state_of (check_notification_timeouts cpu now k) t = state_of k t"
proof -
  have "state_of (fold (expire_notify cpu now) xs k) t = state_of k t" for xs
    using assms by (induction xs arbitrary: k) (simp_all add: state_of_expire_notify)
  then show ?thesis by (simp add: check_notification_timeouts_def)
qed

lemma occupied_distinct:
  assumes "\<forall>i < length xs. \<forall>x. xs ! i = Some x \<longrightarrow> f x = n + i"
  shows "distinct (map f (occupied (filter p xs))) \<and> (\<forall>x\<in>set (occupied (filter p xs)). n \<le> f x)"
  using assms
proof (induction xs arbitrary: n)
  case (Cons y xs)
  have "\<forall>i < length xs. \<forall>x. xs ! i = Some x \<longrightarrow> f x = Suc n + i" using Cons.prems by auto
  then have IH: "distinct (map f (occupied (filter p xs)))" "\<forall>x\<in>set (occupied (filter p xs)). Suc n \<le> f x"
    using Cons.IH by blast+
  moreover have "y = Some x \<Longrightarrow> f x = n" for x using Cons.prems by force
  ultimately show ?case by (cases y) (auto simp: Suc_le_eq)
qed simp

lemma fold_expired:
  assumes "\<not> busy k L_TimeoutQueue" "distinct (map (\<lambda>te. unat (te_tid te)) es)" "\<forall>te\<in>set es. tid_ok (te_tid te)"
    and "length (timeout_queue k) = MAX_THREADS" "length (wakeup_errors k) = MAX_THREADS"
    and "k' = fold (\<lambda>te. wake_with_error cpu (te_tid te) (error_code te)) es k"
  shows "(\<forall>te\<in>set es. timeout_queue k' ! unat (te_tid te) = None \<and> wakeup_errors k' ! unat (te_tid te) = error_code te \<and>
      state_of k' (te_tid te) = woken (state_of k (te_tid te))) \<and>
    (\<forall>t. (\<forall>te\<in>set es. te_tid te \<noteq> t) \<longrightarrow> timeout_queue k' ! unat t = timeout_queue k ! unat t \<and>
      wakeup_errors k' ! unat t = wakeup_errors k ! unat t \<and> state_of k' t = state_of k t)"
  using assms
proof (induction es arbitrary: k k')
  case (Cons te es)
  let ?k1 = "wake_with_error cpu (te_tid te) (error_code te) k"
  have k1: "timeout_queue ?k1 = (timeout_queue k)[unat (te_tid te) := None]"
    "wakeup_errors ?k1 = (wakeup_errors k)[unat (te_tid te) := error_code te]"
    using Cons.prems(1) by (simp_all add: wake_with_error_def clear_timeout_def frame_simps)
  have ne: "te_tid te' \<noteq> te_tid te" if "te' \<in> set es" for te'
  proof
    assume "te_tid te' = te_tid te"
    then have "unat (te_tid te) \<in> (\<lambda>te. unat (te_tid te)) ` set es" using that by (metis imageI)
    then show False using Cons.prems(2) by simp
  qed
  have un: "unat t \<noteq> unat (te_tid te)" if "t \<noteq> te_tid te" for t :: ThreadId using that by (simp add: word_unat_eq_iff)
  have IH: "\<forall>te\<in>set es. timeout_queue k' ! unat (te_tid te) = None \<and> wakeup_errors k' ! unat (te_tid te) = error_code te \<and>
      state_of k' (te_tid te) = woken (state_of ?k1 (te_tid te))"
    "\<And>t. \<forall>te\<in>set es. te_tid te \<noteq> t \<Longrightarrow> timeout_queue k' ! unat t = timeout_queue ?k1 ! unat t \<and>
      wakeup_errors k' ! unat t = wakeup_errors ?k1 ! unat t \<and> state_of k' t = state_of ?k1 t"
    using Cons.IH[of ?k1] Cons.prems k1 by (simp_all add: frame_simps)
  have hd: "timeout_queue k' ! unat (te_tid te) = None \<and> wakeup_errors k' ! unat (te_tid te) = error_code te \<and>
      state_of k' (te_tid te) = woken (state_of k (te_tid te))"
    using IH(2)[of "te_tid te"] ne k1 Cons.prems(3-5) by (auto simp: state_of_wake_error)
  have tl: "state_of ?k1 (te_tid te') = state_of k (te_tid te')" if "te' \<in> set es" for te'
    using ne[OF that] by (simp add: state_of_wake_error)
  have "timeout_queue k' ! unat t = timeout_queue k ! unat t \<and> wakeup_errors k' ! unat t = wakeup_errors k ! unat t \<and>
      state_of k' t = state_of k t" if "\<forall>te\<in>set (te # es). te_tid te \<noteq> t" for t
    using that IH(2)[of t] k1 un[of t] by (auto simp: state_of_wake_error)
  then show ?case using hd IH(1) tl by simp
qed simp


text \<open>
  C26. A timer tick serves exactly the timeouts that are due. A thread whose entry has expired loses the
  entry, finds the entry's error code in its wakeup slot and is runnable if it was blocked; an entry that
  is not due stays armed, and no thread without a due entry gets a wakeup error.
\<close>

theorem timeouts_fire:
  assumes "timeouts_ok k" "\<not> busy k L_TimeoutQueue" "tid_ok t"
  shows "(case timeout_queue k ! unat t of
      Some te \<Rightarrow>
        if wake_at_tick te \<le> tick_count k then
          timeout_queue (check_timeouts cpu k) ! unat t = None \<and>
          wakeup_errors (check_timeouts cpu k) ! unat t = error_code te \<and>
          state_of (check_timeouts cpu k) t = woken (state_of k t)
        else
          timeout_queue (check_timeouts cpu k) ! unat t = Some te \<and>
          wakeup_errors (check_timeouts cpu k) ! unat t = wakeup_errors k ! unat t
    | None \<Rightarrow> timeout_queue (check_timeouts cpu k) ! unat t = None \<and>
        wakeup_errors (check_timeouts cpu k) ! unat t = wakeup_errors k ! unat t)"
proof -
  let ?now = "tick_count k"
  define es where "es = occupied (filter (te_expired ?now) (timeout_queue k))"
  define k1 where "k1 = k\<lparr>timeout_queue := map (\<lambda>e. if te_expired ?now e then None else e) (timeout_queue k)\<rparr>"
  define k2 where "k2 = fold (\<lambda>te. wake_with_error cpu (te_tid te) (error_code te)) es k1"
  have k': "check_timeouts cpu k = check_notification_timeouts cpu ?now k2"
    using assms(2) by (simp add: check_timeouts_def es_def k1_def k2_def Let_def)
  have es: "te \<in> set es \<longleftrightarrow> unat (te_tid te) < MAX_THREADS \<and> timeout_queue k ! unat (te_tid te) = Some te \<and> wake_at_tick te \<le> ?now" for te
    using assms(1) by (auto simp: es_def set_occupied in_set_conv_nth timeouts_ok_def te_expired_def)
  have di: "distinct (map (\<lambda>te. unat (te_tid te)) es)"
    using occupied_distinct[of "timeout_queue k" "\<lambda>te. unat (te_tid te)" 0] assms(1) by (simp add: es_def timeouts_ok_def)
  have k1: "busy k1 = busy k" "length (timeout_queue k1) = length (timeout_queue k)" "wakeup_errors k1 = wakeup_errors k"
    "\<And>t. state_of k1 t = state_of k t" by (simp_all add: k1_def state_of_def)
  have pre: "\<not> busy k1 L_TimeoutQueue" "\<forall>te\<in>set es. tid_ok (te_tid te)" "length (timeout_queue k1) = MAX_THREADS"
    "length (wakeup_errors k1) = MAX_THREADS" using assms(1,2) k1 es by (simp_all add: timeouts_ok_def)
  note F = fold_expired[OF pre(1) di pre(2-4) k2_def]
  have f: "\<And>te. te \<in> set es \<Longrightarrow> timeout_queue k2 ! unat (te_tid te) = None \<and> wakeup_errors k2 ! unat (te_tid te) = error_code te \<and>
      state_of k2 (te_tid te) = woken (state_of k (te_tid te))"
    "\<And>t. \<forall>te\<in>set es. te_tid te \<noteq> t \<Longrightarrow> timeout_queue k2 ! unat t = timeout_queue k1 ! unat t \<and>
      wakeup_errors k2 ! unat t = wakeup_errors k ! unat t"
    using F unfolding k1(3,4) by blast+
  have k1t: "timeout_queue k1 ! unat t = (if te_expired ?now (timeout_queue k ! unat t) then None else timeout_queue k ! unat t)"
    using assms(1,3) by (simp add: k1_def timeouts_ok_def)
  show ?thesis
  proof (cases "\<exists>te\<in>set es. te_tid te = t")
    case True
    then obtain te where te: "te \<in> set es" "te_tid te = t" by blast
    have "state_of (check_timeouts cpu k) t = state_of k2 t"
      unfolding k' by (rule state_of_check_notification_timeouts) (use f(1)[OF te(1)] te(2) woken_awake in metis)
    then show ?thesis using te es[of te] f(1)[OF te(1)] by (simp add: k' frame_simps)
  next
    case False
    have "\<not> te_expired ?now (timeout_queue k ! unat t)"
    proof
      assume "te_expired ?now (timeout_queue k ! unat t)"
      then obtain te where te: "timeout_queue k ! unat t = Some te" "wake_at_tick te \<le> ?now"
        by (auto simp: te_expired_def split: option.splits)
      have "unat (te_tid te) = unat t" using te(1) assms(1,3) by (simp add: timeouts_ok_def)
      then have "te_tid te = t" by (simp add: word_unat_eq_iff)
      then show False using False es te assms(3) by blast
    qed
    then show ?thesis using f(2)[of t] False k1t by (cases "timeout_queue k ! unat t") (auto simp: k' frame_simps te_expired_def)
  qed
qed

text \<open>Two armed timeouts at tick 100, one of them due.\<close>

definition demo_timer :: Kernel where
  "demo_timer = boot_kernel\<lparr>tick_count := 100, timeout_queue := (replicate MAX_THREADS None)
     [3 := Some \<lparr>te_tid = 3, wake_at_tick = 50, error_code = -6\<rparr>, 4 := Some \<lparr>te_tid = 4, wake_at_tick = 150, error_code = -6\<rparr>]\<rparr>"

theorem timeouts_fire_witness:
  "timeout_queue (check_timeouts 0 demo_timer) ! 3 = None \<and> wakeup_errors (check_timeouts 0 demo_timer) ! 3 = -6 \<and>
    timeout_queue (check_timeouts 0 demo_timer) ! 4 \<noteq> None"
proof -
  have ok: "timeouts_ok demo_timer" "\<not> busy demo_timer L_TimeoutQueue"
    by (auto simp: timeouts_ok_def demo_timer_def boot_kernel_def MAX_THREADS_def nth_list_update split: if_splits)
  have u: "unat (3 :: ThreadId) = 3" "unat (4 :: ThreadId) = 4" by simp_all
  have "timeout_queue demo_timer ! 3 = Some \<lparr>te_tid = 3, wake_at_tick = 50, error_code = -6\<rparr>"
    "timeout_queue demo_timer ! 4 = Some \<lparr>te_tid = 4, wake_at_tick = 150, error_code = -6\<rparr>" "tick_count demo_timer = 100"
    by (simp_all add: demo_timer_def MAX_THREADS_def)
  then show ?thesis
    using timeouts_fire[OF ok, of 3 0] timeouts_fire[OF ok, of 4 0] unfolding u by (simp add: MAX_THREADS_def)
qed

end
