(* ===== verification/Mem_Init.thy ===== *)
theory Mem_Init
  imports Frame
begin

text \<open>
  Memory initialisation (\<open>kernel/src/mm/init.rs\<close>): the walk over the firmware's memory map, the
  choice of pool sizes, the ranges kept out of the pools, and the frame allocator that results.
  The memory map is the list of its descriptors; the end of the kernel image, which the linker
  supplies, is a parameter. Physical addresses are natural numbers. \<open>None\<close> is a panic.
\<close>

section \<open>The memory map\<close>

record MemoryDescriptor =
  md_ty :: nat
  md_start :: nat
  md_page_count :: nat

record BootInfo =
  memory_map :: "MemoryDescriptor list"
  memory_map_addr :: nat
  memory_map_entry_size :: nat
  kernel_phys_base :: nat
  kernel_size :: nat

definition md_usable :: "MemoryDescriptor \<Rightarrow> bool" where
  "md_usable d \<longleftrightarrow> md_ty d \<in> {1, 2, 3, 4, 7}"

definition md_end :: "MemoryDescriptor \<Rightarrow> nat" where
  "md_end d = md_start d + md_page_count d * PAGE_SIZE"

text \<open>The loop: lowest start, highest end and total size of the usable descriptors.\<close>

fun scan_map :: "MemoryDescriptor list \<Rightarrow> nat \<times> nat \<times> nat \<Rightarrow> nat \<times> nat \<times> nat" where
  "scan_map [] acc = acc"
| "scan_map (d # ds) (phys_min, phys_max, total_usable) =
     (if \<not> md_usable d then scan_map ds (phys_min, phys_max, total_usable)
      else scan_map ds
        (if md_start d < phys_min then md_start d else phys_min,
         if md_end d > phys_max then md_end d else phys_max,
         total_usable + (md_end d - md_start d)))"

text \<open>The masks \<open>(x + PAGE_SIZE - 1) & !(PAGE_SIZE - 1)\<close> and \<open>x & !(PAGE_SIZE - 1)\<close>.\<close>

definition page_up :: "nat \<Rightarrow> nat" where
  "page_up x = (x + PAGE_SIZE - 1) div PAGE_SIZE * PAGE_SIZE"

definition page_down :: "nat \<Rightarrow> nat" where
  "page_down x = x div PAGE_SIZE * PAGE_SIZE"

text \<open>
  The result is the allocator stored in \<open>FRAME_ALLOC\<close> and the RAM range exported for the direct map.
  \<open>ram\<close> and \<open>bmp\<close> are the contents of memory at boot.
\<close>

definition init_memory ::
  "(nat \<Rightarrow> nat) \<Rightarrow> (nat \<Rightarrow> u8) \<Rightarrow> nat \<Rightarrow> BootInfo \<Rightarrow> (FrameAllocator \<times> nat \<times> nat) option" where
  "init_memory ram bmp kernel_end_linker bi =
     (case scan_map (memory_map bi) (usize_MAX, 0, 0) of
        (lo, hi, total_usable_bytes) \<Rightarrow>
          if \<not> (total_usable_bytes > 0 \<and> lo < hi) then None
          else
            let phys_min = page_up lo; phys_max = page_down hi in
            if phys_max < phys_min then None
            else
              let config = from_total_ram total_usable_bytes;
                  kernel_start = kernel_phys_base bi;
                  kernel_end = page_up (max kernel_end_linker (kernel_start + kernel_size bi));
                  map_buf_start = memory_map_addr bi;
                  map_buf_end = page_up (map_buf_start + length (memory_map bi) * memory_map_entry_size bi);
                  pools = pools_init ram bmp phys_min phys_max config (kernel_start, kernel_end)
                            (map_buf_start, map_buf_end)
              in Some (fa_new pools (total_usable_bytes div PAGE_SIZE), phys_min, phys_max))"

section \<open>The layout that results\<close>

lemma page_up_ge: "x \<le> page_up x"
  by (simp add: page_up_def PAGE_SIZE_def)

lemma page_down_le: "page_down x \<le> x"
  by (simp add: page_down_def)

lemma page_rounded [simp]: "PAGE_SIZE dvd page_up x" "PAGE_SIZE dvd page_down x"
  by (simp_all add: page_up_def page_down_def)

lemma scan_map_spec:
  assumes "scan_map ds (lo, hi, n) = (lo', hi', n')"
  shows "(lo' = lo \<or> (\<exists>d\<in>set ds. md_usable d \<and> lo' = md_start d)) \<and>
    (hi' = hi \<or> (\<exists>d\<in>set ds. md_usable d \<and> hi' = md_end d))"
  using assms
proof (induction ds arbitrary: lo hi n)
  case (Cons d ds)
  show ?case
  proof (cases "md_usable d")
    case True
    then have "scan_map ds (if md_start d < lo then md_start d else lo, if md_end d > hi then md_end d else hi,
        n + (md_end d - md_start d)) = (lo', hi', n')" using Cons.prems by simp
    from Cons.IH[OF this] show ?thesis using True by (auto split: if_splits)
  next
    case False
    then have "scan_map ds (lo, hi, n) = (lo', hi', n')" using Cons.prems by simp
    from Cons.IH[OF this] show ?thesis by auto
  qed
qed simp

lemma from_total_ram_aligned:
  "PAGE_SIZE dvd cfg_dma (from_total_ram n)" "PAGE_SIZE dvd cfg_kernel (from_total_ram n)"
  "PAGE_SIZE dvd cfg_model (from_total_ram n)" "PAGE_SIZE dvd cfg_reserved (from_total_ram n)"
  by (simp_all add: from_total_ram_def Let_def PAGE_SIZE_def MIB_def GIB_def)

text \<open>A memory map whose usable descriptors lie above address 0 and do not overflow.\<close>

definition map_ok :: "MemoryDescriptor list \<Rightarrow> bool" where
  "map_ok ds \<longleftrightarrow> (\<forall>d\<in>set ds. md_usable d \<longrightarrow> 0 < md_start d \<and> md_end d \<le> usize_MAX)"

text \<open>What \<open>init_memory\<close> passes to the pools.\<close>

lemma init_memory_layout:
  assumes "init_memory ram bmp ke bi = Some (fa, s, e)" "map_ok (memory_map bi)"
  obtains config e1 e2 n where "layout_ok s e config e1 e2" "fa = boot_frames ram bmp s e config e1 e2 n"
    "\<exists>d\<in>set (memory_map bi). md_usable d \<and> md_start d \<le> s" "\<exists>d\<in>set (memory_map bi). md_usable d \<and> e \<le> md_end d"
    "fst e1 = kernel_phys_base bi" "max ke (kernel_phys_base bi + kernel_size bi) \<le> snd e1"
    "fst e2 = memory_map_addr bi" "memory_map_addr bi + length (memory_map bi) * memory_map_entry_size bi \<le> snd e2"
proof -
  obtain lo hi n where sc: "scan_map (memory_map bi) (usize_MAX, 0, 0) = (lo, hi, n)"
    by (cases "scan_map (memory_map bi) (usize_MAX, 0, 0)") auto
  let ?e1 = "(kernel_phys_base bi, page_up (max ke (kernel_phys_base bi + kernel_size bi)))"
  let ?e2 = "(memory_map_addr bi, page_up (memory_map_addr bi + length (memory_map bi) * memory_map_entry_size bi))"
  have r: "lo < hi" "s = page_up lo" "e = page_down hi" "s \<le> e"
    "fa = boot_frames ram bmp s e (from_total_ram n) ?e1 ?e2 (n div PAGE_SIZE)"
    using assms(1) by (auto simp: init_memory_def sc Let_def boot_frames_def fa_new_def split: if_splits)
  have hi: "\<exists>d\<in>set (memory_map bi). md_usable d \<and> hi = md_end d"
    using scan_map_spec[OF sc] r(1) by auto
  then have "hi \<le> usize_MAX" using assms(2) by (auto simp: map_ok_def)
  then have lo: "\<exists>d\<in>set (memory_map bi). md_usable d \<and> lo = md_start d"
    using scan_map_spec[OF sc] r(1) by auto
  then have "0 < lo" using assms(2) by (auto simp: map_ok_def)
  then have s: "0 < s" using page_up_ge[of lo] r(2) by simp
  have e: "fst ?e1 \<le> snd ?e1" "fst ?e2 \<le> snd ?e2" "max ke (kernel_phys_base bi + kernel_size bi) \<le> snd ?e1"
    "memory_map_addr bi + length (memory_map bi) * memory_map_entry_size bi \<le> snd ?e2"
    using page_up_ge[of "max ke (kernel_phys_base bi + kernel_size bi)"]
      page_up_ge[of "memory_map_addr bi + length (memory_map bi) * memory_map_entry_size bi"] by simp_all
  have "layout_ok s e (from_total_ram n) ?e1 ?e2"
    using s r(4) e(1,2) by (simp add: layout_ok_def from_total_ram_aligned excl_ok_def r(2,3))
  moreover have "\<exists>d\<in>set (memory_map bi). md_usable d \<and> md_start d \<le> s" using lo page_up_ge[of lo] r(2) by auto
  moreover have "\<exists>d\<in>set (memory_map bi). md_usable d \<and> e \<le> md_end d" using hi page_down_le[of hi] r(3) by auto
  ultimately show thesis using that[OF _ r(5)] e(3,4) by simp
qed

section \<open>Properties\<close>

text \<open>
  C2. Memory safety from boot: once \<open>init_memory\<close> has set up the pools from the firmware's memory
  map, every block handed out lies between the lowest and the highest usable address, never
  touches the kernel image or the memory map itself, and overlaps no other block in use, whatever
  the sequence of allocations, frees of owned blocks and writes to owned blocks.
\<close>

theorem boot_memory_safe:
  assumes "init_memory ram bmp ke bi = Some (fa0, s, e)" "map_ok (memory_map bi)"
    and "client_reach fa_alloc_pages fa_free_pages fa_write fa0 fa (add_mset x al)" "w \<in> bytes_of x"
  shows "(\<exists>d\<in>set (memory_map bi). md_usable d \<and> md_start d \<le> w) \<and>
    (\<exists>d\<in>set (memory_map bi). md_usable d \<and> w < md_end d) \<and>
    \<not> (kernel_phys_base bi \<le> w \<and> w < max ke (kernel_phys_base bi + kernel_size bi)) \<and>
    \<not> (memory_map_addr bi \<le> w \<and> w < memory_map_addr bi + length (memory_map bi) * memory_map_entry_size bi) \<and>
    (\<forall>y\<in>#al. w \<notin> bytes_of y)"
proof -
  obtain config e1 e2 n where l: "layout_ok s e config e1 e2" "fa0 = boot_frames ram bmp s e config e1 e2 n"
    "\<exists>d\<in>set (memory_map bi). md_usable d \<and> md_start d \<le> s" "\<exists>d\<in>set (memory_map bi). md_usable d \<and> e \<le> md_end d"
    "fst e1 = kernel_phys_base bi" "max ke (kernel_phys_base bi + kernel_size bi) \<le> snd e1"
    "fst e2 = memory_map_addr bi" "memory_map_addr bi + length (memory_map bi) * memory_map_entry_size bi \<le> snd e2"
    by (rule init_memory_layout[OF assms(1,2)])
  from frm.reach_safe[OF assms(3)[unfolded l(2)] frames_inv_boot[OF l(1)]]
  have "w \<in> (\<Union>y\<in>(\<Union>p. boot_pages s e config e1 e2 p). {y..<y + PAGE_SIZE})" "\<forall>y\<in>#al. w \<notin> bytes_of y"
    using assms(4) by blast+
  moreover from boot_pages_bytes[OF l(1) this(1)]
  have b: "s \<le> w" "w < e" "\<not> (fst e1 \<le> w \<and> w < snd e1)" "\<not> (fst e2 \<le> w \<and> w < snd e2)" by auto
  ultimately show ?thesis using l(3-8) by (auto intro: order_trans less_le_trans)
qed

subsection \<open>A memory map with a gap\<close>

text \<open>One usable page, two pages of reserved memory, and another usable page.\<close>

definition gap_boot :: BootInfo where
  "gap_boot = \<lparr>memory_map = [\<lparr>md_ty = 7, md_start = 0x100000, md_page_count = 1\<rparr>,
       \<lparr>md_ty = 0, md_start = 0x101000, md_page_count = 2\<rparr>,
       \<lparr>md_ty = 7, md_start = 0x103000, md_page_count = 1\<rparr>],
     memory_map_addr = 0x300000, memory_map_entry_size = 48, kernel_phys_base = 0x200000, kernel_size = 0x1000\<rparr>"

definition gap_frames :: FrameAllocator where
  "gap_frames = fa_new \<lparr>pool_kernel = buddy_new (\<lambda>_. 0) (\<lambda>_. 0), pool_user = buddy_new (\<lambda>_. 0) (\<lambda>_. 0),
     pool_model = None, pool_dma = demo\<rparr> 2"

lemma gap_pool: "new_pool (\<lambda>_. 0) (\<lambda>_. 0) 0x100000 0x104000 (0x200000, 0x201000) (0x300000, 0x301000) = demo"
  by (simp add: new_pool_def demo_def init_with_range_excluding_def add_region_excluding3_def demo_bitmap
      PAGE_SIZE_def Let_def demo_blocks)

lemma gap_init: "init_memory (\<lambda>_. 0) (\<lambda>_. 0) 0 gap_boot = Some (gap_frames, 0x100000, 0x104000)"
proof -
  have s: "scan_map (memory_map gap_boot) (usize_MAX, 0, 0) = (0x100000, 0x104000, 0x2000)"
    by (simp add: gap_boot_def md_usable_def md_end_def PAGE_SIZE_def usize_MAX_def)
  have p: "page_up 0x100000 = 0x100000" "page_down 0x104000 = 0x104000" "page_up 0x201000 = 0x201000"
    "page_up 0x300090 = 0x301000" by (simp_all add: page_up_def page_down_def PAGE_SIZE_def)
  have b: "pool_bounds 0x100000 0x104000 (from_total_ram 0x2000) = (0x104000, 0x104000, 0x104000, 0x104000)"
    by (simp add: pool_bounds_def from_total_ram_def MIB_def GIB_def)
  have e: "kernel_phys_base gap_boot = 0x200000" "kernel_size gap_boot = 0x1000" "memory_map_addr gap_boot = 0x300000"
    "memory_map_entry_size gap_boot = 48" "length (memory_map gap_boot) = 3" by (simp_all add: gap_boot_def)
  show ?thesis
    by (simp add: init_memory_def s p e b pools_init_def gap_pool gap_frames_def Let_def PAGE_SIZE_def)
      (simp add: new_pool_def)
qed

lemma gap_map_ok: "map_ok (memory_map gap_boot)"
  by (simp add: map_ok_def gap_boot_def md_end_def PAGE_SIZE_def usize_MAX_def)

lemma gap_alloc: "\<exists>fa. fa_alloc_pages PoolDma 0 gap_frames = (Some 0x101000, fa)"
proof -
  obtain b where "alloc_pages 0 demo = (Some 0x101000, b)" using demo_alloc by blast
  then show ?thesis by (simp add: fa_alloc_pages_def gap_frames_def fa_new_def get_pool_def)
qed

theorem boot_memory_safe_witness:
  "\<exists>fa. fa_alloc_pages PoolDma 0 gap_frames = (Some 0x101000, fa) \<and>
     (\<exists>d\<in>set (memory_map gap_boot). md_usable d \<and> 0x101000 < md_end d)"
proof -
  obtain fa where fa: "fa_alloc_pages PoolDma 0 gap_frames = (Some 0x101000, fa)" using gap_alloc by blast
  have "client_reach fa_alloc_pages fa_free_pages fa_write gap_frames fa {#(0x101000, 0)#}"
    by (rule client_alloc[of fa_alloc_pages, OF _ fa], rule client_start)
  from boot_memory_safe[OF gap_init gap_map_ok this, of "0x101000"] fa show ?thesis
    by (simp add: bytes_of_def PAGE_SIZE_def)
qed

text \<open>
  A gap in the memory map is allocated as if it were RAM: there is a memory map, with all its
  usable descriptors in range, for which the first page handed out of the DMA pool belongs to no
  usable descriptor but to a reserved one. The code only logs a warning about gaps.
\<close>

theorem memory_gap_is_allocated:
  "\<exists>bi fa0 s e fa a. init_memory (\<lambda>_. 0) (\<lambda>_. 0) 0 bi = Some (fa0, s, e) \<and> map_ok (memory_map bi) \<and>
     fa_alloc_pages PoolDma 0 fa0 = (Some a, fa) \<and>
     \<not> (\<exists>d\<in>set (memory_map bi). md_usable d \<and> md_start d \<le> a \<and> a < md_end d) \<and>
     (\<exists>d\<in>set (memory_map bi). md_ty d = 0 \<and> md_start d \<le> a \<and> a < md_end d)"
proof -
  obtain fa where fa: "fa_alloc_pages PoolDma 0 gap_frames = (Some 0x101000, fa)" using gap_alloc by blast
  have "\<not> (\<exists>d\<in>set (memory_map gap_boot). md_usable d \<and> md_start d \<le> 0x101000 \<and> 0x101000 < md_end d)"
    "\<exists>d\<in>set (memory_map gap_boot). md_ty d = 0 \<and> md_start d \<le> 0x101000 \<and> 0x101000 < md_end d"
    by (simp_all add: gap_boot_def md_usable_def md_end_def PAGE_SIZE_def)
  then show ?thesis using gap_init gap_map_ok fa by blast
qed

end
