(* ===== verification/Frame_Contents.thy ===== *)
theory Frame_Contents
  imports Frame
begin

text \<open>
  What the allocators do to memory: the words of a block in use change only when its owner writes
  them. Free lists run through free blocks only, and the poison fill of \<open>free_pages\<close> stays inside the
  block that is given back. The contract \<open>page_allocator\<close> is extended by a read, so that what holds
  for the contents is proved once; the pools satisfy it.
\<close>

section \<open>Blocks and their pages\<close>

lemma bytes_in_page:
  assumes "w \<in> bytes_of blk"
  shows "\<exists>x\<in>#blk_pages (fst blk) (snd blk). x \<le> w \<and> w < x + PAGE_SIZE"
proof -
  let ?i = "(w - fst blk) div PAGE_SIZE"
  have r: "fst blk \<le> w" "w < fst blk + PAGE_SIZE * 2 ^ snd blk" using assms by (auto simp: bytes_of_def)
  have "w - fst blk < 2 ^ snd blk * PAGE_SIZE" using r by (simp add: mult.commute less_diff_conv2)
  then have "?i < 2 ^ snd blk" by (rule less_mult_imp_div_less)
  then have "fst blk + PAGE_SIZE * ?i \<in># blk_pages (fst blk) (snd blk)" by (auto simp: in_blk_pages)
  moreover have "fst blk + PAGE_SIZE * ?i \<le> w" "w < fst blk + PAGE_SIZE * ?i + PAGE_SIZE"
    using r mod_less_divisor[of PAGE_SIZE "w - fst blk"] mult_div_mod_eq[of PAGE_SIZE "w - fst blk"]
    unfolding PAGE_SIZE_def by linarith+
  ultimately show ?thesis by blast
qed

lemma blk_pages_alloc_mset: "blk \<in># al \<Longrightarrow> x \<in># blk_pages (fst blk) (snd blk) \<Longrightarrow> x \<in># alloc_mset al"
  by (induction al) auto

lemma kept_bytes:
  assumes "kept (alloc_mset al) b b'" "blk \<in># al" "w \<in> bytes_of blk"
  shows "mem b' w = mem b w"
  using bytes_in_page[OF assms(3)] blk_pages_alloc_mset[OF assms(2)] assms(1) by (auto simp: kept_def)

lemma buddy_alloc_keeps:
  assumes "buddy_inv U b al" "blk \<in># al" "w \<in> bytes_of blk"
  shows "mem (snd (alloc_pages order b)) w = mem b w"
proof -
  obtain fl where "bd b fl (alloc_mset al) U 0" using assms(1) by (auto simp: buddy_inv_def)
  from kept_bytes[OF kept_alloc[OF this] assms(2,3)] show ?thesis .
qed

lemma buddy_free_keeps:
  assumes "buddy_inv U b (add_mset (a, order) al)" "free_pages a order b = Some b'" "blk \<in># al" "w \<in> bytes_of blk"
  shows "mem b' w = mem b w"
proof -
  obtain fl where fl: "bd b fl (alloc_mset al + blk_pages a order) U 0" "order \<le> MAX_ORDER" "initialized b"
    using assms(1) by (auto simp: buddy_inv_def)
  have "mem b a mod 2 ^ 32 \<noteq> POISON_PATTERN"
    using free_pages_poisoned[OF fl(3), of a order] assms(2) by auto
  from free_pages_spec[OF fl this] assms(2) have "kept (alloc_mset al) b b'" by auto
  from kept_bytes[OF this assms(3,4)] show ?thesis .
qed

section \<open>Reading through the pools\<close>

text \<open>A 64-bit read of RAM: the word of the pool whose range has the address.\<close>

definition fa_read :: "nat \<Rightarrow> FrameAllocator \<Rightarrow> nat option" where
  "fa_read w fa =
     (case pool_for_addr (pools fa) w of
        None \<Rightarrow> None
      | Some p \<Rightarrow> map_option (\<lambda>b. mem b w) (get_pool p (pools fa)))"

lemma owned_read:
  assumes "frames_inv U fa al" "blk \<in># al" "w \<in> bytes_of blk"
  obtains blks p b where "al = (\<Sum>q\<in>UNIV. blks q)" "ranges_apart (pools fa)"
    "\<forall>q. case get_pool q (pools fa) of None \<Rightarrow> U q = {} \<and> blks q = {#} | Some c \<Rightarrow> pool_ok (U q) c (blks q)"
    "get_pool p (pools fa) = Some b" "blk \<in># blks p" "pool_ok (U p) b (blks p)" "owns b w"
    "pool_for_addr (pools fa) w = Some p" "fa_read w fa = Some (mem b w)"
proof -
  obtain blks p b where f: "al = (\<Sum>q\<in>UNIV. blks q)" "ranges_apart (pools fa)"
    "\<forall>q. case get_pool q (pools fa) of None \<Rightarrow> U q = {} \<and> blks q = {#} | Some c \<Rightarrow> pool_ok (U q) c (blks q)"
    "get_pool p (pools fa) = Some b" "blk \<in># blks p" "pool_ok (U p) b (blks p)"
    "pool_for_addr (pools fa) (fst blk) = Some p"
    by (rule frames_inv_owner[OF assms(1,2)])
  have o: "owns b w" by (rule pool_ok_bytes_owned[OF f(6,5) assms(3)])
  then have "pool_for_addr (pools fa) w = Some p" by (rule pool_for_addr_owner[OF f(2,4)])
  then show thesis using that[OF f(1-6) o] f(4) by (simp add: fa_read_def)
qed

lemma pool_for_addr_set:
  assumes "get_pool p ps = Some b" "same_range b' b"
  shows "pool_for_addr (set_pool p b' ps) w = pool_for_addr ps w"
  using assms by (cases p) (auto simp: pool_for_addr_def set_pool_def get_pool_def owns_def same_range_def split: option.split)

lemma fa_read_set:
  assumes "get_pool p (pools fa) = Some b" "same_range b' b" "pool_for_addr (pools fa) w = Some q" "get_pool q (pools fa) = Some c"
  shows "fa_read w (fa\<lparr>pools := set_pool p b' (pools fa)\<rparr>) = Some (if p = q then mem b' w else mem c w)"
  using assms by (simp add: fa_read_def pool_for_addr_set)

lemma frames_alloc_keeps:
  assumes "frames_inv U fa al" "fa_alloc_pages p order fa = (r, fa')" "blk \<in># al" "w \<in> bytes_of blk"
  shows "fa_read w fa' = fa_read w fa"
proof (cases "get_pool p (pools fa)")
  case None
  then show ?thesis using assms(2) by (simp add: fa_alloc_pages_def)
next
  case (Some b)
  obtain b' where b': "alloc_pages order b = (r, b')" "fa' = fa\<lparr>pools := set_pool p b' (pools fa)\<rparr>"
    using assms(2) Some by (auto simp: fa_alloc_pages_def split: prod.splits)
  obtain blks q c where f: "al = (\<Sum>q\<in>UNIV. blks q)"
    "\<forall>q. case get_pool q (pools fa) of None \<Rightarrow> U q = {} \<and> blks q = {#} | Some c \<Rightarrow> pool_ok (U q) c (blks q)"
    "get_pool q (pools fa) = Some c" "blk \<in># blks q" "pool_ok (U q) c (blks q)"
    "pool_for_addr (pools fa) w = Some q" "fa_read w fa = Some (mem c w)"
    by (rule owned_read[OF assms(1,3,4)])
  have ok: "pool_ok (U p) b (blks p)" using f(2)[rule_format, of p] Some by simp
  have "mem b' w = mem b w" if "p = q"
    using buddy_alloc_keeps[OF pool_ok_block(2)[OF f(5,4)] f(4) assms(4), of order] that Some f(3) b'(1) by simp
  then show ?thesis
    using fa_read_set[OF Some pool_ok_alloc(1)[OF ok b'(1)] f(6,3)] f(3,7) Some b'(2) by auto
qed


lemma frames_free_keeps:
  assumes "frames_inv U fa (add_mset (a, order) al)" "fa_free_pages a order fa = Some fa'" "blk \<in># al" "w \<in> bytes_of blk"
  shows "fa_read w fa' = fa_read w fa"
proof -
  have "(a, order) \<in># add_mset (a, order) al" by simp
  from frames_inv_owner[OF assms(1) this]
  obtain blks p b where f: "add_mset (a, order) al = (\<Sum>q\<in>UNIV. blks q)" "ranges_apart (pools fa)"
    "\<forall>q. case get_pool q (pools fa) of None \<Rightarrow> U q = {} \<and> blks q = {#} | Some c \<Rightarrow> pool_ok (U q) c (blks q)"
    "get_pool p (pools fa) = Some b" "(a, order) \<in># blks p" "pool_ok (U p) b (blks p)"
    "pool_for_addr (pools fa) a = Some p"
    by auto
  obtain b' where b': "free_pages a order b = Some b'" "fa' = fa\<lparr>pools := set_pool p b' (pools fa)\<rparr>"
    using assms(2) f(4,7) by (auto simp: fa_free_pages_def split: option.splits)
  obtain B where B: "blks p = add_mset (a, order) B" using f(5) by (auto dest: multi_member_split)
  have inv: "buddy_inv (U p) b (add_mset (a, order) B)" using pool_ok_block(2)[OF f(6,5)] B by simp
  then obtain fl where fl: "bd b fl (alloc_mset B + blk_pages a order) (U p) 0" "order \<le> MAX_ORDER" "initialized b"
    by (auto simp: buddy_inv_def)
  have "mem b a mod 2 ^ 32 \<noteq> POISON_PATTERN" using free_pages_poisoned[OF fl(3), of a order] b'(1) by auto
  from free_pages_spec[OF fl this] b'(1) have sr: "same_range b' b" by auto
  have "blk \<in># add_mset (a, order) al" using assms(3) by simp
  then obtain blks' q c where g: "get_pool q (pools fa) = Some c" "blk \<in># blks' q" "pool_ok (U q) c (blks' q)"
    "pool_for_addr (pools fa) w = Some q" "fa_read w fa = Some (mem c w)"
    by (rule owned_read[OF assms(1) _ assms(4)])
  have "mem b' w = mem c w" if "p = q"
  proof -
    have "blk \<in># B"
    proof -
      define blks1 where "blks1 = blks(p := B)"
      have "blks = blks1(p := add_mset (a, order) (blks1 p))" by (auto simp: blks1_def B)
      then have "al = (\<Sum>q\<in>UNIV. blks1 q)" using f(1) sum_blks_add[of blks1 p "(a, order)"] by simp
      then have "blk \<in># (\<Sum>q\<in>UNIV. (blks(p := B)) q)" using assms(3) by (simp add: blks1_def)
      then obtain p' where p': "blk \<in># (blks(p := B)) p'" by (auto simp: in_sum_blks)
      show ?thesis
      proof (cases "p' = p")
        case False
        then have bp: "blk \<in># blks p'" using p' by simp
        then obtain c' where c': "get_pool p' (pools fa) = Some c'" "pool_ok (U p') c' (blks p')"
          using f(3)[rule_format, of p'] by (cases "get_pool p' (pools fa)") auto
        have "owns c' w" by (rule pool_ok_bytes_owned[OF c'(2) bp assms(4)])
        then have "p' = q" using pool_for_addr_owner[OF f(2) c'(1)] g(4) by simp
        then show ?thesis using that False by simp
      qed (use p' in simp)
    qed
    from buddy_free_keeps[OF inv b'(1) this assms(4)] show ?thesis using that g(1) f(4) by simp
  qed
  then show ?thesis using fa_read_set[OF f(4) sr g(4,1)] g(5) b'(2) by auto
qed

lemma frames_write_read:
  assumes "frames_inv U fa al" "blk \<in># al" "w \<in> bytes_of blk"
  shows "fa_read w (fa_write w v fa) = Some v"
proof -
  obtain p b where f: "get_pool p (pools fa) = Some b" "pool_for_addr (pools fa) w = Some p"
    by (rule owned_read[OF assms])
  have "fa_write w v fa = fa\<lparr>pools := set_pool p (write_word w v b) (pools fa)\<rparr>" using f by (simp add: fa_write_def)
  then show ?thesis using fa_read_set[OF f(1) _ f(2,1), of "write_word w v b"] by (simp add: same_range_def write_word_def)
qed

lemma fa_write_read_other:
  assumes "w' \<noteq> w"
  shows "fa_read w' (fa_write w v fa) = fa_read w' fa"
proof (cases "pool_for_addr (pools fa) w")
  case (Some p)
  show ?thesis
  proof (cases "get_pool p (pools fa)")
    case b: (Some b)
    have sr: "same_range (write_word w v b) b" by (simp add: same_range_def write_word_def)
    show ?thesis
      using assms Some b pool_for_addr_set[OF b sr, of w'] by (auto simp: fa_write_def fa_read_def write_word_def split: option.split)
  qed (simp add: fa_write_def Some)
qed (simp add: fa_write_def)

section \<open>The contract with contents\<close>

locale page_allocator_mem = page_allocator +
  fixes rd :: "nat \<Rightarrow> 'a \<Rightarrow> nat option"
  assumes alloc_keeps: "invar s al \<Longrightarrow> alloc p order s = (r, s') \<Longrightarrow> blk \<in># al \<Longrightarrow> w \<in> bytes_of blk \<Longrightarrow> rd w s' = rd w s"
    and free_keeps: "invar s (add_mset (a, order) al) \<Longrightarrow> fre a order s = Some s' \<Longrightarrow> blk \<in># al \<Longrightarrow> w \<in> bytes_of blk \<Longrightarrow>
      rd w s' = rd w s"
    and write_read: "invar s al \<Longrightarrow> blk \<in># al \<Longrightarrow> w \<in> bytes_of blk \<Longrightarrow> rd w (writ w v s) = Some v"
    and write_other: "w' \<noteq> w \<Longrightarrow> rd w' (writ w v s) = rd w' s"
begin

text \<open>One step of a client, as seen by the owner of another block.\<close>

lemma step_keeps:
  assumes "client_reach alloc fre writ s0 s al" "invar s0 {#}" "blk \<in># al" "w \<in> bytes_of blk"
  shows "alloc p order s = (r, s') \<Longrightarrow> rd w s' = rd w s"
    "al = add_mset (a, order) al' \<Longrightarrow> blk \<in># al' \<Longrightarrow> fre a order s = Some s' \<Longrightarrow> rd w s' = rd w s"
    "al = add_mset x al' \<Longrightarrow> blk \<in># al' \<Longrightarrow> w' \<in> bytes_of x \<Longrightarrow> rd w (writ w' v s) = rd w s"
proof -
  note inv = reach_invar[OF assms(1,2)]
  show "alloc p order s = (r, s') \<Longrightarrow> rd w s' = rd w s" using alloc_keeps[OF inv _ assms(3,4)] .
  show "al = add_mset (a, order) al' \<Longrightarrow> blk \<in># al' \<Longrightarrow> fre a order s = Some s' \<Longrightarrow> rd w s' = rd w s"
    using free_keeps[of s a order al' s' blk w] inv assms(4) by blast
  assume a: "al = add_mset x al'" "blk \<in># al'" "w' \<in> bytes_of x"
  obtain al'' where "al' = add_mset blk al''" using a(2) by (auto dest: multi_member_split)
  then have "bytes_of x \<inter> bytes_of blk = {}" using no_overlap[of s x blk al''] inv a(1) by simp
  then have "w \<noteq> w'" using a(3) assms(4) by blast
  then show "rd w (writ w' v s) = rd w s" by (rule write_other)
qed

end

interpretation frm_mem: page_allocator_mem "frames_inv U" fa_alloc_pages fa_free_pages fa_write
    "\<lambda>fa. pools_total_free (pools fa)" "\<Union>p. U p" fa_read for U
  by unfold_locales (auto intro: frames_alloc_keeps frames_free_keeps frames_write_read fa_write_read_other)


text \<open>
  C15. The contents of a block in use belong to its owner: in every state a client of the pools can
  reach, no allocation, no freeing of another block and no write by the owner of another block
  changes a word of it.
\<close>

theorem block_contents_kept:
  assumes "layout_ok s e config e1 e2" "frame_runs s e config e1 e2 fa al" "blk \<in># al" "w \<in> bytes_of blk"
  shows "(\<forall>p order r fa'. fa_alloc_pages p order fa = (r, fa') \<longrightarrow> fa_read w fa' = fa_read w fa) \<and>
    (\<forall>a order al' fa'. al = add_mset (a, order) al' \<and> blk \<in># al' \<and> fa_free_pages a order fa = Some fa' \<longrightarrow>
       fa_read w fa' = fa_read w fa) \<and>
    (\<forall>x al' w' v. al = add_mset x al' \<and> blk \<in># al' \<and> w' \<in> bytes_of x \<longrightarrow>
       fa_read w (fa_write w' v fa) = fa_read w fa)"
proof -
  obtain ram bmp n where r: "client_reach fa_alloc_pages fa_free_pages fa_write (boot_frames ram bmp s e config e1 e2 n) fa al"
    using assms(2) by blast
  note keeps = frm_mem.step_keeps[OF r frames_inv_boot[OF assms(1)] assms(3,4)]
  show ?thesis using keeps(1) keeps(2) keeps(3) by blast
qed

theorem block_contents_kept_witness:
  "\<exists>fa. fa_alloc_pages PoolKernel 0 demo_frames = (Some 0x101000, fa) \<and>
     (\<forall>p order. fa_read 0x101008 (snd (fa_alloc_pages p order fa)) = fa_read 0x101008 fa)"
proof -
  obtain fa where fa: "fa_alloc_pages PoolKernel 0 demo_frames = (Some 0x101000, fa)" using demo_frame_alloc by blast
  then have "frame_runs 0x100000 0x104000 demo_config (0, 0) (0, 0) fa {#(0x101000, 0)#}"
    using demo_frame_runs client_alloc[of fa_alloc_pages fa_free_pages fa_write] by blast
  from block_contents_kept[OF demo_layout this, of "(0x101000, 0)" "0x101008"]
  have "fa_alloc_pages p order fa = (r, fa') \<Longrightarrow> fa_read 0x101008 fa' = fa_read 0x101008 fa" for p order r fa'
    by (simp add: bytes_of_def PAGE_SIZE_def)
  then have "fa_read 0x101008 (snd (fa_alloc_pages p order fa)) = fa_read 0x101008 fa" for p order
    by (cases "fa_alloc_pages p order fa") simp
  then show ?thesis using fa by blast
qed

end
