(* ===== verification/Page_Table.thy ===== *)
theory Page_Table
  imports Frame_Contents Kernel_State "HOL-Library.Monad_Syntax"
begin

text \<open>
  Page tables: descriptors and flags (\<open>kernel/src/mm/pgtable.rs\<close>), address-space identifiers
  (\<open>kernel/src/mm/asid.rs\<close>), user address spaces (\<open>kernel/src/mm/uspace.rs\<close>) and the kernel's own address
  space (\<open>kernel/src/mm/kmap.rs\<close>). Tables are pages of the kernel pool, read and written as words of the
  frame allocator's memory. \<open>translate\<close> is the walk the hardware makes; the invariant \<open>pt_ok\<close> says that
  the tables form a tree, and the lemmas show what each operation does to the walk.
\<close>

unbundle bit_operations_syntax

section \<open>Descriptors\<close>

type_synonym PageTableEntry = u64

definition PTE_VALID :: u64 where "PTE_VALID = push_bit 0 1"
definition PTE_TABLE :: u64 where "PTE_TABLE = push_bit 1 1"
definition ATTR_IDX_SHIFT :: nat where "ATTR_IDX_SHIFT = 2"
definition AP_USER :: u64 where "AP_USER = push_bit 6 1"
definition AP_RO :: u64 where "AP_RO = push_bit 7 1"
definition SH_INNER :: u64 where "SH_INNER = push_bit 8 3"
definition PTE_AF :: u64 where "PTE_AF = push_bit 10 1"
definition PTE_NG :: u64 where "PTE_NG = push_bit 11 1"
definition PTE_PXN :: u64 where "PTE_PXN = push_bit 53 1"
definition PTE_UXN :: u64 where "PTE_UXN = push_bit 54 1"
definition PHYS_MASK :: u64 where "PHYS_MASK = 0x0000FFFFFFFFF000"

definition VM_READ :: VmFlags where "VM_READ = 1"
definition VM_WRITE :: VmFlags where "VM_WRITE = 2"
definition VM_EXECUTE :: VmFlags where "VM_EXECUTE = 4"
definition VM_USER :: VmFlags where "VM_USER = 8"

definition vm_contains :: "VmFlags \<Rightarrow> VmFlags \<Rightarrow> bool" where
  "vm_contains f g \<longleftrightarrow> f AND g = g"

definition new_table :: "nat \<Rightarrow> PageTableEntry" where
  "new_table next_table_phys = (word_of_nat next_table_phys AND PHYS_MASK) OR PTE_TABLE OR PTE_VALID"

text \<open>The permission bits, the same in \<open>new_page\<close> and \<open>new_block_2m\<close>.\<close>

definition permission_bits :: "VmFlags \<Rightarrow> u64" where
  "permission_bits flags =
     (if \<not> vm_contains flags VM_WRITE then AP_RO else 0) OR
     (if \<not> vm_contains flags VM_EXECUTE then PTE_PXN OR PTE_UXN
      else if \<not> vm_contains flags VM_USER then PTE_UXN else 0) OR
     (if vm_contains flags VM_USER then AP_USER OR PTE_NG else 0)"

definition new_page :: "nat \<Rightarrow> u64 \<Rightarrow> VmFlags \<Rightarrow> PageTableEntry option" where
  "new_page frame_phys mair_idx flags =
     (if vm_contains flags (VM_WRITE OR VM_EXECUTE) then None
      else Some ((word_of_nat frame_phys AND PHYS_MASK) OR PTE_VALID OR PTE_TABLE OR PTE_AF OR SH_INNER OR
                 push_bit ATTR_IDX_SHIFT (mair_idx AND 7) OR permission_bits flags))"

definition new_block_2m :: "nat \<Rightarrow> u64 \<Rightarrow> VmFlags \<Rightarrow> PageTableEntry option" where
  "new_block_2m block_phys mair_idx flags =
     (if block_phys AND 0x1FFFFF \<noteq> 0 then None
      else if vm_contains flags (VM_WRITE OR VM_EXECUTE) then None
      else Some ((word_of_nat block_phys AND 0x0000FFFFFFE00000) OR PTE_VALID OR PTE_AF OR SH_INNER OR
                 push_bit ATTR_IDX_SHIFT (mair_idx AND 7) OR permission_bits flags))"

definition pte_is_valid :: "PageTableEntry \<Rightarrow> bool" where
  "pte_is_valid e \<longleftrightarrow> e AND PTE_VALID \<noteq> 0"

definition pte_is_table :: "PageTableEntry \<Rightarrow> bool" where
  "pte_is_table e \<longleftrightarrow> e AND (PTE_VALID OR PTE_TABLE) = (PTE_VALID OR PTE_TABLE)"

definition pte_is_block :: "PageTableEntry \<Rightarrow> bool" where
  "pte_is_block e \<longleftrightarrow> e AND (PTE_VALID OR PTE_TABLE) = PTE_VALID"

definition pte_is_writable :: "PageTableEntry \<Rightarrow> bool" where
  "pte_is_writable e \<longleftrightarrow> e AND AP_RO = 0"

definition pte_is_executable :: "PageTableEntry \<Rightarrow> bool" where
  "pte_is_executable e \<longleftrightarrow> e AND PTE_PXN = 0"

definition pte_is_user :: "PageTableEntry \<Rightarrow> bool" where
  "pte_is_user e \<longleftrightarrow> e AND AP_USER \<noteq> 0"

definition pte_phys_addr :: "PageTableEntry \<Rightarrow> nat" where
  "pte_phys_addr e = unat (e AND PHYS_MASK)"

definition set_writable :: "PageTableEntry \<Rightarrow> PageTableEntry" where
  "set_writable e = (e AND NOT AP_RO) OR (PTE_PXN OR PTE_UXN)"

definition set_executable :: "PageTableEntry \<Rightarrow> PageTableEntry" where
  "set_executable e = ((e OR AP_RO) AND NOT PTE_PXN) OR PTE_UXN"

definition l0_index :: "nat \<Rightarrow> nat" where "l0_index va = (drop_bit 39 va) AND 0x1FF"
definition l1_index :: "nat \<Rightarrow> nat" where "l1_index va = (drop_bit 30 va) AND 0x1FF"
definition l2_index :: "nat \<Rightarrow> nat" where "l2_index va = (drop_bit 21 va) AND 0x1FF"
definition l3_index :: "nat \<Rightarrow> nat" where "l3_index va = (drop_bit 12 va) AND 0x1FF"

lemma l_index_div:
  "l0_index va = va div 2 ^ 39 mod 512" "l1_index va = va div 2 ^ 30 mod 512"
  "l2_index va = va div 2 ^ 21 mod 512" "l3_index va = va div 2 ^ 12 mod 512"
proof -
  have m: "(n :: nat) AND 0x1FF = n mod 512" for n
    using take_bit_eq_mask[of 9 n] by (simp add: take_bit_eq_mod mask_eq_exp_minus_1)
  show "l0_index va = va div 2 ^ 39 mod 512" "l1_index va = va div 2 ^ 30 mod 512"
    "l2_index va = va div 2 ^ 21 mod 512" "l3_index va = va div 2 ^ 12 mod 512"
    by (simp_all add: l0_index_def l1_index_def l2_index_def l3_index_def m drop_bit_eq_div)
qed

text \<open>The indices are the digits of the page number.\<close>

lemma va_page_digits:
  "va div PAGE_SIZE mod 2 ^ 36 = l3_index va + 512 * (l2_index va + 512 * (l1_index va + 512 * l0_index va))"
proof -
  define p where "p = va div 2 ^ 12"
  have "va div 2 ^ 21 = p div 512" "va div 2 ^ 30 = p div 512 div 512" "va div 2 ^ 39 = p div 512 div 512 div 512"
    by (simp_all add: p_def div_mult2_eq[symmetric])
  moreover have "p mod 2 ^ 36 = p mod 512 + 512 * (p div 512 mod 512 + 512 * (p div 512 div 512 mod 512 + 512 * (p div 512 div 512 div 512 mod 512)))"
    using mod_mult2_eq[of p 512 "512 * (512 * 512)"] mod_mult2_eq[of "p div 512" 512 "512 * 512"]
      mod_mult2_eq[of "p div 512 div 512" 512 512] by simp
  ultimately show ?thesis by (simp add: l_index_div p_def PAGE_SIZE_def)
qed

lemma u64_eq_iff: "(a :: u64) = b \<longleftrightarrow> (\<forall>n < 64. bit a n = bit b n)"
  by (auto intro: bit_word_eqI)

lemma bit_single: "k < 64 \<Longrightarrow> bit (push_bit k (1 :: u64)) n \<longleftrightarrow> n = k"
  by (auto simp: push_bit_eq_mult bit_exp_iff)

lemma and_single: "k < 64 \<Longrightarrow> e AND push_bit k (1 :: u64) = 0 \<longleftrightarrow> \<not> bit e k"
  by (auto simp: u64_eq_iff bit_and_iff push_bit_eq_mult bit_exp_iff)

lemma bit_masks:
  "bit PTE_VALID n \<longleftrightarrow> n = 0" "bit PTE_TABLE n \<longleftrightarrow> n = 1" "bit AP_USER n \<longleftrightarrow> n = 6" "bit AP_RO n \<longleftrightarrow> n = 7"
  "bit PTE_AF n \<longleftrightarrow> n = 10" "bit PTE_NG n \<longleftrightarrow> n = 11" "bit PTE_PXN n \<longleftrightarrow> n = 53" "bit PTE_UXN n \<longleftrightarrow> n = 54"
  unfolding PTE_VALID_def PTE_TABLE_def AP_USER_def AP_RO_def PTE_AF_def PTE_NG_def PTE_PXN_def PTE_UXN_def
  by (subst bit_single; simp)+

lemma bit_SH_INNER: "bit SH_INNER n \<longleftrightarrow> n = 8 \<or> n = 9"
proof -
  have e: "SH_INNER = push_bit 8 1 OR push_bit 9 1" by (simp add: SH_INNER_def)
  have "bit SH_INNER n \<longleftrightarrow> bit (push_bit 8 1 :: u64) n \<or> bit (push_bit 9 1 :: u64) n" unfolding e by (rule bit_or_iff)
  then show ?thesis using bit_single[of 8 n] bit_single[of 9 n] by fastforce
qed

lemma bit_PHYS_MASK: "bit PHYS_MASK n \<longleftrightarrow> 12 \<le> n \<and> n < 48"
proof -
  have e: "PHYS_MASK = push_bit 12 (mask 36)" by (simp add: PHYS_MASK_def mask_eq_exp_minus_1)
  show ?thesis unfolding e bit_push_bit_iff bit_mask_iff by auto
qed

lemma pte_bits:
  "pte_is_valid e \<longleftrightarrow> bit e 0" "pte_is_writable e \<longleftrightarrow> \<not> bit e 7" "pte_is_executable e \<longleftrightarrow> \<not> bit e 53" "pte_is_user e \<longleftrightarrow> bit e 6"
  unfolding pte_is_valid_def pte_is_writable_def pte_is_executable_def pte_is_user_def PTE_VALID_def AP_RO_def PTE_PXN_def AP_USER_def
  by (subst and_single; simp)+

lemma pte_kind:
  "pte_is_table e \<longleftrightarrow> bit e 0 \<and> bit e 1" "pte_is_block e \<longleftrightarrow> bit e 0 \<and> \<not> bit e 1"
proof -
  have b: "bit (e AND (PTE_VALID OR PTE_TABLE)) n \<longleftrightarrow> (n = 0 \<or> n = 1) \<and> bit e n" for n
    by (auto simp: bit_and_iff bit_or_iff bit_masks)
  have v: "bit (PTE_VALID OR PTE_TABLE) n \<longleftrightarrow> n = 0 \<or> n = 1" for n by (simp add: bit_or_iff bit_masks)
  have "(\<forall>n < 64. ((n = 0 \<or> n = 1) \<and> bit e n) = (n = 0 \<or> n = (1 :: nat))) \<longleftrightarrow> bit e 0 \<and> bit e 1" (is "?l \<longleftrightarrow> ?r")
  proof
    assume a: ?l
    then show ?r using a[rule_format, of 0] a[rule_format, of 1] by simp
  qed auto
  then show "pte_is_table e \<longleftrightarrow> bit e 0 \<and> bit e 1" unfolding pte_is_table_def u64_eq_iff b v .
  have "(\<forall>n < 64. ((n = 0 \<or> n = 1) \<and> bit e n) = (n = (0 :: nat))) \<longleftrightarrow> bit e 0 \<and> \<not> bit e 1" (is "?l \<longleftrightarrow> ?r")
  proof
    assume a: ?l
    then show ?r using a[rule_format, of 0] a[rule_format, of 1] by simp
  qed auto
  then show "pte_is_block e \<longleftrightarrow> bit e 0 \<and> \<not> bit e 1" unfolding pte_is_block_def u64_eq_iff b bit_masks .
qed

lemma vm_contains_or: "vm_contains f (g OR h) \<longleftrightarrow> vm_contains f g \<and> vm_contains f h"
proof
  assume a: "vm_contains f (g OR h)"
  have b: "bit g n \<or> bit h n \<Longrightarrow> bit f n" for n
    using arg_cong[OF a[unfolded vm_contains_def], of "\<lambda>x. bit x n"] by (auto simp: bit_and_iff bit_or_iff)
  show "vm_contains f g \<and> vm_contains f h" unfolding vm_contains_def
    by (intro conjI bit_word_eqI) (use b in \<open>auto simp: bit_and_iff\<close>)
qed (simp add: vm_contains_def bit.conj_disj_distrib)

definition wx_ok :: "VmFlags \<Rightarrow> bool" where
  "wx_ok flags \<longleftrightarrow> \<not> (vm_contains flags VM_WRITE \<and> vm_contains flags VM_EXECUTE)"

lemma wx_ok_iff: "vm_contains flags (VM_WRITE OR VM_EXECUTE) \<longleftrightarrow> \<not> wx_ok flags"
  by (simp add: wx_ok_def vm_contains_or)

lemma bit_permission_bits:
  "bit (permission_bits flags) n \<longleftrightarrow>
     (n = 7 \<and> \<not> vm_contains flags VM_WRITE) \<or> (n = 53 \<and> \<not> vm_contains flags VM_EXECUTE) \<or>
     (n = 54 \<and> \<not> (vm_contains flags VM_EXECUTE \<and> vm_contains flags VM_USER)) \<or>
     ((n = 6 \<or> n = 11) \<and> vm_contains flags VM_USER)"
  by (auto simp: permission_bits_def bit_or_iff bit_masks)

lemma bit_attr: "bit (push_bit ATTR_IDX_SHIFT (m AND 7) :: u64) n \<longleftrightarrow> 2 \<le> n \<and> n < 5 \<and> bit m (n - 2)"
proof -
  have e: "(7 :: u64) = mask 3" by (simp add: mask_eq_exp_minus_1)
  have "bit m (n - 2) \<Longrightarrow> n < 5 \<Longrightarrow> n < 64" by simp
  then show ?thesis unfolding e by (auto simp: ATTR_IDX_SHIFT_def bit_push_bit_iff bit_and_iff bit_mask_iff)
qed

lemma phys_roundtrip:
  assumes "p < 2 ^ 48" "PAGE_SIZE dvd p"
  shows "word_of_nat p AND PHYS_MASK = (word_of_nat p :: u64)" "unat (word_of_nat p :: u64) = p"
proof -
  show u: "unat (word_of_nat p :: u64) = p" using assms(1) by (simp add: unat_of_nat take_bit_nat_eq_self_iff[symmetric] take_bit_eq_mod)
  have "12 \<le> n \<and> n < 48" if "bit (word_of_nat p :: u64) n" for n
  proof -
    have b: "bit p n" using that by (simp add: bit_of_nat_iff)
    have "take_bit 48 p = p" using assms(1) by (simp add: take_bit_nat_eq_self_iff)
    then have "n < 48" using b bit_take_bit_iff[of 48 p n] by simp
    moreover have "take_bit 12 p = 0" using assms(2) by (simp add: take_bit_eq_mod PAGE_SIZE_def)
    then have "12 \<le> n" using b bit_take_bit_iff[of 12 p n] by (cases "n < 12") auto
    ultimately show ?thesis by simp
  qed
  then show "word_of_nat p AND PHYS_MASK = (word_of_nat p :: u64)"
    by (auto intro!: bit_word_eqI simp: bit_and_iff bit_PHYS_MASK)
qed

lemma new_page_None: "new_page f m flags = None \<longleftrightarrow> \<not> wx_ok flags"
  by (simp add: new_page_def wx_ok_iff)

lemma bit_new_page:
  assumes "new_page f m flags = Some e" "f < 2 ^ 48" "PAGE_SIZE dvd f"
  shows "bit e n \<longleftrightarrow> (bit (word_of_nat f :: u64) n \<or> n \<in> {0, 1, 8, 9, 10} \<or> (2 \<le> n \<and> n < 5 \<and> bit m (n - 2)) \<or>
    bit (permission_bits flags) n)"
  using assms phys_roundtrip[OF assms(2,3)]
  by (auto simp: new_page_def bit_or_iff bit_masks bit_SH_INNER bit_attr simp del: push_bit_and split: if_splits)

lemma phys_bit_range: "p < 2 ^ 48 \<Longrightarrow> PAGE_SIZE dvd p \<Longrightarrow> bit (word_of_nat p :: u64) n \<Longrightarrow> 12 \<le> n \<and> n < 48"
  using arg_cong[OF phys_roundtrip(1), of p "\<lambda>x. bit x n"] by (simp add: bit_and_iff bit_PHYS_MASK)

lemma new_page_spec:
  assumes "new_page f m flags = Some e" "f < 2 ^ 48" "PAGE_SIZE dvd f"
  shows "pte_phys_addr e = f" "pte_is_table e" "pte_is_writable e \<longleftrightarrow> vm_contains flags VM_WRITE"
    "pte_is_executable e \<longleftrightarrow> vm_contains flags VM_EXECUTE" "pte_is_user e \<longleftrightarrow> vm_contains flags VM_USER"
    "\<not> bit e 54 \<longleftrightarrow> vm_contains flags VM_EXECUTE \<and> vm_contains flags VM_USER"
proof -
  note b = bit_new_page[OF assms]
  note r = phys_bit_range[OF assms(2,3)]
  have "e AND PHYS_MASK = word_of_nat f"
    unfolding u64_eq_iff bit_and_iff bit_PHYS_MASK b bit_permission_bits using r by auto
  then show "pte_phys_addr e = f" using phys_roundtrip(2)[OF assms(2,3)] by (simp add: pte_phys_addr_def)
  show "pte_is_table e" by (simp add: pte_kind b)
  show "pte_is_writable e \<longleftrightarrow> vm_contains flags VM_WRITE" using r[of 7] by (auto simp: pte_bits b bit_permission_bits)
  show "pte_is_executable e \<longleftrightarrow> vm_contains flags VM_EXECUTE" using r[of 53] by (auto simp: pte_bits b bit_permission_bits)
  show "pte_is_user e \<longleftrightarrow> vm_contains flags VM_USER" using r[of 6] by (auto simp: pte_bits b bit_permission_bits)
  show "\<not> bit e 54 \<longleftrightarrow> vm_contains flags VM_EXECUTE \<and> vm_contains flags VM_USER"
    using r[of 54] by (auto simp: b bit_permission_bits)
qed

lemma new_table_spec:
  assumes "p < 2 ^ 48" "PAGE_SIZE dvd p"
  shows "pte_phys_addr (new_table p) = p" "pte_is_table (new_table p)" "new_table p \<noteq> 0"
proof -
  have b: "bit (new_table p) n \<longleftrightarrow> bit (word_of_nat p :: u64) n \<or> n = 0 \<or> n = 1" for n
    using phys_roundtrip(1)[OF assms] by (auto simp: new_table_def bit_or_iff bit_masks)
  note r = phys_bit_range[OF assms]
  have "new_table p AND PHYS_MASK = word_of_nat p"
    unfolding u64_eq_iff bit_and_iff bit_PHYS_MASK b using r by auto
  then show "pte_phys_addr (new_table p) = p" using phys_roundtrip(2)[OF assms] by (simp add: pte_phys_addr_def)
  show "pte_is_table (new_table p)" by (simp add: pte_kind b)
  then show "new_table p \<noteq> 0" by (auto simp: pte_kind)
qed

lemma new_block_spec:
  assumes "new_block_2m f m flags = Some e" "f < 2 ^ 48"
  shows "pte_phys_addr e = f" "pte_is_block e" "pte_is_writable e \<longleftrightarrow> vm_contains flags VM_WRITE"
    "pte_is_executable e \<longleftrightarrow> vm_contains flags VM_EXECUTE" "pte_is_user e \<longleftrightarrow> vm_contains flags VM_USER"
proof -
  have al: "f mod 2 ^ 21 = 0" "wx_ok flags"
  proof -
    have "f AND 0x1FFFFF = f mod 2 ^ 21" using take_bit_eq_mask[of 21 f] by (simp add: take_bit_eq_mod mask_eq_exp_minus_1)
    then show "f mod 2 ^ 21 = 0" "wx_ok flags" using assms(1) by (auto simp: new_block_2m_def wx_ok_iff split: if_splits)
  qed
  then have pd: "PAGE_SIZE dvd f" by (auto simp: PAGE_SIZE_def mod_eq_0_iff_dvd intro: dvd_trans[of 4096 "2 ^ 21"])
  note r0 = phys_bit_range[OF assms(2) pd]
  have r: "21 \<le> n \<and> n < 48" if "bit (word_of_nat f :: u64) n" for n
  proof -
    have "take_bit 21 f = 0" using al(1) by (simp add: take_bit_eq_mod)
    moreover have "bit f n" using that by (simp add: bit_of_nat_iff)
    ultimately have "21 \<le> n" using bit_take_bit_iff[of 21 f n] by (cases "n < 21") auto
    then show ?thesis using r0[OF that] by simp
  qed
  have bm: "bit (0x0000FFFFFFE00000 :: u64) n \<longleftrightarrow> 21 \<le> n \<and> n < 48" for n
  proof -
    have e: "(0x0000FFFFFFE00000 :: u64) = push_bit 21 (mask 27)" by (simp add: mask_eq_exp_minus_1)
    show ?thesis unfolding e bit_push_bit_iff bit_mask_iff by auto
  qed
  have wm: "word_of_nat f AND 0x0000FFFFFFE00000 = (word_of_nat f :: u64)"
    unfolding u64_eq_iff bit_and_iff bm using r by auto
  have b: "bit e n \<longleftrightarrow> (bit (word_of_nat f :: u64) n \<or> n \<in> {0, 8, 9, 10} \<or> (2 \<le> n \<and> n < 5 \<and> bit m (n - 2)) \<or>
    bit (permission_bits flags) n)" for n
    using assms(1) by (auto simp: new_block_2m_def wm bit_or_iff bit_masks bit_SH_INNER bit_attr simp del: push_bit_and split: if_splits)
  have "e AND PHYS_MASK = word_of_nat f"
    unfolding u64_eq_iff bit_and_iff bit_PHYS_MASK b bit_permission_bits using r0 by auto
  then show "pte_phys_addr e = f" using phys_roundtrip(2)[OF assms(2) pd] by (simp add: pte_phys_addr_def)
  show "pte_is_block e" using r[of 1] by (auto simp: pte_kind b bit_permission_bits)
  show "pte_is_writable e \<longleftrightarrow> vm_contains flags VM_WRITE" using r[of 7] by (auto simp: pte_bits b bit_permission_bits)
  show "pte_is_executable e \<longleftrightarrow> vm_contains flags VM_EXECUTE" using r[of 53] by (auto simp: pte_bits b bit_permission_bits)
  show "pte_is_user e \<longleftrightarrow> vm_contains flags VM_USER" using r[of 6] by (auto simp: pte_bits b bit_permission_bits)
qed

section \<open>Page tables in memory\<close>

text \<open>
  The tables live in pages of the kernel pool. They are read and written as 64-bit words through the
  direct map (\<open>uspace.rs\<close>) or the identity map (\<open>kmap.rs\<close>): physical addresses here. \<open>None\<close> is a panic,
  or a read outside RAM.
\<close>

definition ram_read :: "nat \<Rightarrow> FrameAllocator option \<Rightarrow> nat option" where
  "ram_read w g = (case g of None \<Rightarrow> None | Some fa \<Rightarrow> fa_read w fa)"

definition ram_write :: "nat \<Rightarrow> nat \<Rightarrow> FrameAllocator option \<Rightarrow> FrameAllocator option" where
  "ram_write w v g = map_option (fa_write w v) g"

definition zero_pages :: "nat \<Rightarrow> nat \<Rightarrow> FrameAllocator option \<Rightarrow> FrameAllocator option" where
  "zero_pages addr order g = fold (\<lambda>i. ram_write (addr + i * 8) 0) [0..<2 ^ order * PAGE_SIZE div 8] g"

definition ensure_table_dmap :: "nat \<Rightarrow> nat \<Rightarrow> FrameAllocator option \<Rightarrow> (nat \<times> FrameAllocator option) option" where
  "ensure_table_dmap table_phys index g =
     (case ram_read (table_phys + index * 8) g of
        None \<Rightarrow> None
      | Some v \<Rightarrow>
          let raw = word_of_nat v :: u64 in
          if raw \<noteq> 0 then
            if raw AND (PTE_VALID OR PTE_TABLE) = (PTE_VALID OR PTE_TABLE)
            then Some (unat (raw AND PHYS_MASK), g) else None
          else
            (case alloc_page g of
               (None, _) \<Rightarrow> None
             | (Some new_pg, g1) \<Rightarrow>
                 Some (new_pg, ram_write (table_phys + index * 8) (unat (new_table new_pg)) (zero_pages new_pg 0 g1))))"

definition map_page_dmap ::
  "nat \<Rightarrow> nat \<Rightarrow> nat \<Rightarrow> u64 \<Rightarrow> VmFlags \<Rightarrow> FrameAllocator option \<Rightarrow> FrameAllocator option option" where
  "map_page_dmap pgd_phys va pa mair_idx flags g = do {
     (l1, g1) \<leftarrow> ensure_table_dmap pgd_phys (l0_index va) g;
     (l2, g2) \<leftarrow> ensure_table_dmap l1 (l1_index va) g1;
     (l3, g3) \<leftarrow> ensure_table_dmap l2 (l2_index va) g2;
     pte \<leftarrow> new_page pa mair_idx flags;
     Some (ram_write (l3 + l3_index va * 8) (unat pte) g3)
   }"

section \<open>The walk\<close>

text \<open>
  The translation the hardware makes from these tables: the leaf descriptor of an address, an L3 page
  or an L2 block.
\<close>

definition entry :: "FrameAllocator \<Rightarrow> nat \<Rightarrow> nat \<Rightarrow> u64" where
  "entry fa t i = (case fa_read (t + i * 8) fa of Some v \<Rightarrow> word_of_nat v | None \<Rightarrow> 0)"

definition translate :: "FrameAllocator \<Rightarrow> nat \<Rightarrow> nat \<Rightarrow> u64 option" where
  "translate fa pgd va =
     (let e0 = entry fa pgd (l0_index va) in
      if \<not> pte_is_table e0 then None
      else let e1 = entry fa (pte_phys_addr e0) (l1_index va) in
      if \<not> pte_is_table e1 then None
      else let e2 = entry fa (pte_phys_addr e1) (l2_index va) in
      if pte_is_block e2 then Some e2
      else if \<not> pte_is_table e2 then None
      else let e3 = entry fa (pte_phys_addr e2) (l3_index va) in
      if pte_is_table e3 then Some e3 else None)"

section \<open>Trees of tables\<close>

text \<open>
  \<open>tab\<close> names the table reached from the root by a path of indices. Every table is a block in use, no
  table is reached by two paths, an upper entry is empty, points to the next table, or is a block at
  level 2, and no leaf is both writable and executable.
\<close>

definition leaf_ok :: "u64 \<Rightarrow> bool" where
  "leaf_ok e \<longleftrightarrow> \<not> (pte_is_writable e \<and> pte_is_executable e)"

definition pt_ok :: "FrameAllocator \<Rightarrow> (nat \<times> nat) multiset \<Rightarrow> nat \<Rightarrow> (nat list \<Rightarrow> nat option) \<Rightarrow> bool" where
  "pt_ok fa al pgd tab \<longleftrightarrow>
     tab [] = Some pgd \<and>
     (\<forall>p t. tab p = Some t \<longrightarrow> length p \<le> 3 \<and> (t, 0) \<in># al \<and> t < 2 ^ 48 \<and> PAGE_SIZE dvd t) \<and>
     (\<forall>p q t. tab p = Some t \<and> tab q = Some t \<longrightarrow> p = q) \<and>
     (\<forall>p i t. tab (p @ [i]) = Some t \<longrightarrow> i < 512 \<and> (\<exists>t0. tab p = Some t0 \<and> entry fa t0 i = new_table t)) \<and>
     (\<forall>p i t0. tab p = Some t0 \<and> length p < 3 \<and> i < 512 \<and> tab (p @ [i]) = None \<longrightarrow>
        entry fa t0 i = 0 \<or> length p = 2 \<and> pte_is_block (entry fa t0 i) \<and> leaf_ok (entry fa t0 i)) \<and>
     (\<forall>p i t0. tab p = Some t0 \<and> length p = 3 \<and> i < 512 \<and> pte_is_table (entry fa t0 i) \<longrightarrow> leaf_ok (entry fa t0 i))"

lemma slot_in_table: "i < 512 \<Longrightarrow> t + i * 8 \<in> bytes_of (t, 0)"
  by (simp add: bytes_of_def PAGE_SIZE_def)

lemma blocks_apart:
  assumes "frames_inv U fa al" "x \<in># al" "y \<in># al" "x \<noteq> y"
  shows "bytes_of x \<inter> bytes_of y = {}"
proof -
  obtain al1 where a: "al = add_mset x al1" using assms(2) by (auto dest: multi_member_split)
  then have "y \<in># al1" using assms(3,4) by simp
  then obtain al2 where "al1 = add_mset y al2" by (auto dest: multi_member_split)
  then show ?thesis using frames_inv_disjoint assms(1) a by blast
qed

lemma slots_distinct:
  assumes "frames_inv U fa al" "(t, 0) \<in># al" "(t', 0) \<in># al" "i < 512" "j < 512" "t + i * 8 = t' + j * 8"
  shows "t = t' \<and> i = j"
proof -
  have "t = t'"
  proof (rule ccontr)
    assume "t \<noteq> t'"
    then have "bytes_of (t, 0) \<inter> bytes_of (t', 0) = {}" using blocks_apart[OF assms(1-3)] by simp
    then show False using slot_in_table[OF assms(4), of t] slot_in_table[OF assms(5), of t'] assms(6) by auto
  qed
  then show ?thesis using assms(6) by simp
qed

lemma entry_write:
  assumes "frames_inv U fa al" "(t, 0) \<in># al" "(t', 0) \<in># al" "i < 512" "j < 512"
  shows "entry (fa_write (t + i * 8) (unat e) fa) t' j = (if t' = t \<and> j = i then e else entry fa t' j)"
proof (cases "t' + j * 8 = t + i * 8")
  case True
  then have "t' = t \<and> j = i" using slots_distinct[OF assms(1,3,2,5,4)] by simp
  then show ?thesis using frames_write_read[OF assms(1,2) slot_in_table[OF assms(4)]] by (simp add: entry_def)
next
  case False
  then show ?thesis using fa_write_read_other[OF False] by (auto simp: entry_def)
qed

lemma zero_pages_Some: "zero_pages addr order (Some fa) = Some (fold (\<lambda>i. fa_write (addr + i * 8) 0) [0..<2 ^ order * PAGE_SIZE div 8] fa)"
proof -
  have "fold (\<lambda>i. ram_write (addr + i * 8) 0) xs (Some fa) = Some (fold (\<lambda>i. fa_write (addr + i * 8) 0) xs fa)" for xs
    by (induction xs arbitrary: fa) (simp_all add: ram_write_def)
  then show ?thesis by (simp add: zero_pages_def)
qed

lemma zero_fold_inv:
  assumes "frames_inv U fa al" "(t, order) \<in># al" "n * 8 \<le> PAGE_SIZE * 2 ^ order"
  shows "frames_inv U (fold (\<lambda>i. fa_write (t + i * 8) 0) [0..<n] fa) al"
  using assms(3)
proof (induction n)
  case (Suc n)
  let ?fa = "fold (\<lambda>i. fa_write (t + i * 8) 0) [0..<n] fa"
  have "t + n * 8 \<in> bytes_of (t, order)" using Suc.prems by (simp add: bytes_of_def)
  then show ?case using frames_inv_write[OF _ assms(2), of U ?fa "t + n * 8" 0] Suc by simp
qed (simp add: assms(1))

lemma zero_fold_other:
  assumes "\<forall>i < n. w \<noteq> t + i * 8"
  shows "fa_read w (fold (\<lambda>i. fa_write (t + i * 8) 0) [0..<n] fa) = fa_read w fa"
  using assms by (induction n) (simp_all add: fa_write_read_other)

lemma zero_fold_zero:
  assumes "frames_inv U fa al" "(t, order) \<in># al" "n * 8 \<le> PAGE_SIZE * 2 ^ order" "i < n"
  shows "fa_read (t + i * 8) (fold (\<lambda>i. fa_write (t + i * 8) 0) [0..<n] fa) = Some 0"
  using assms(3,4)
proof (induction n)
  case (Suc n)
  let ?fa = "fold (\<lambda>i. fa_write (t + i * 8) 0) [0..<n] fa"
  have inv: "frames_inv U ?fa al" using zero_fold_inv[OF assms(1,2)] Suc.prems by simp
  have "t + n * 8 \<in> bytes_of (t, order)" using Suc.prems by (simp add: bytes_of_def)
  from frames_write_read[OF inv assms(2) this] have w: "fa_read (t + n * 8) (fa_write (t + n * 8) 0 ?fa) = Some 0" .
  show ?case
  proof (cases "i = n")
    case False
    then have "fa_read (t + i * 8) (fa_write (t + n * 8) 0 ?fa) = fa_read (t + i * 8) ?fa" by (intro fa_write_read_other) simp
    then show ?thesis using Suc False by simp
  qed (use w in simp)
qed simp

lemma zero_table_entry:
  assumes "frames_inv U fa al" "(t, 0) \<in># al" "(t', 0) \<in># al" "j < 512"
  shows "entry (fold (\<lambda>i. fa_write (t + i * 8) 0) [0..<512] fa) t' j = (if t' = t then 0 else entry fa t' j)"
proof (cases "t' = t")
  case True
  then show ?thesis using zero_fold_zero[OF assms(1,2), of 512 j] assms(4) by (simp add: entry_def PAGE_SIZE_def)
next
  case False
  then have "\<forall>i < 512. t' + j * 8 \<noteq> t + i * 8" using slots_distinct[OF assms(1,3,2,4)] by blast
  then show ?thesis using zero_fold_other[of 512] False by (simp add: entry_def)
qed

lemma pt_okD:
  assumes "pt_ok fa al pgd tab"
  shows "tab [] = Some pgd" "tab p = Some t \<Longrightarrow> length p \<le> 3" "tab p = Some t \<Longrightarrow> (t, 0) \<in># al"
    "tab p = Some t \<Longrightarrow> t < 2 ^ 48 \<and> PAGE_SIZE dvd t" "tab p = Some t \<Longrightarrow> tab q = Some t \<Longrightarrow> p = q"
    "tab (p @ [i]) = Some t \<Longrightarrow> tab p = Some t0 \<Longrightarrow> entry fa t0 i = new_table t"
    "tab (p @ [i]) = Some t \<Longrightarrow> \<exists>t0. tab p = Some t0"
    "tab p = Some t0 \<Longrightarrow> length p < 3 \<Longrightarrow> i < 512 \<Longrightarrow> tab (p @ [i]) = None \<Longrightarrow>
       entry fa t0 i = 0 \<or> length p = 2 \<and> pte_is_block (entry fa t0 i) \<and> leaf_ok (entry fa t0 i)"
    "tab p = Some t0 \<Longrightarrow> length p = 3 \<Longrightarrow> i < 512 \<Longrightarrow> pte_is_table (entry fa t0 i) \<Longrightarrow> leaf_ok (entry fa t0 i)"
    "tab (p @ [i]) = Some t \<Longrightarrow> i < 512"
  using assms unfolding pt_ok_def by (blast | fastforce)+

lemma zero_not_table [simp]: "\<not> pte_is_table 0" "\<not> pte_is_block 0"
  by (simp_all add: pte_kind)

lemma block_not_table: "pte_is_block e \<Longrightarrow> \<not> pte_is_table e"
  by (simp add: pte_kind)

lemma index_bounds [simp]: "l0_index va < 512" "l1_index va < 512" "l2_index va < 512" "l3_index va < 512"
  by (simp_all add: l_index_div)

text \<open>The walk follows the tree.\<close>

definition walk_tab :: "FrameAllocator \<Rightarrow> (nat list \<Rightarrow> nat option) \<Rightarrow> nat \<Rightarrow> u64 option" where
  "walk_tab fa tab va =
     (case tab [l0_index va, l1_index va, l2_index va] of
        Some t3 \<Rightarrow> if pte_is_table (entry fa t3 (l3_index va)) then Some (entry fa t3 (l3_index va)) else None
      | None \<Rightarrow>
          (case tab [l0_index va, l1_index va] of
             Some t2 \<Rightarrow> if pte_is_block (entry fa t2 (l2_index va)) then Some (entry fa t2 (l2_index va)) else None
           | None \<Rightarrow> None))"

lemma step_table:
  assumes "pt_ok fa al pgd tab" "tab p = Some t0" "length p < 2" "i < 512"
  shows "case tab (p @ [i]) of Some t \<Rightarrow> pte_is_table (entry fa t0 i) \<and> pte_phys_addr (entry fa t0 i) = t
    | None \<Rightarrow> \<not> pte_is_table (entry fa t0 i)"
proof (cases "tab (p @ [i])")
  case None
  then show ?thesis using pt_okD(8)[OF assms(1,2) _ assms(4)] assms(3) by simp
next
  case (Some t)
  then have "entry fa t0 i = new_table t" using pt_okD(6)[OF assms(1) Some assms(2)] by simp
  then show ?thesis using new_table_spec pt_okD(4)[OF assms(1) Some] Some by simp
qed

lemma step_table2:
  assumes "pt_ok fa al pgd tab" "tab p = Some t0" "length p = 2" "i < 512"
  shows "case tab (p @ [i]) of
      Some t \<Rightarrow> pte_is_table (entry fa t0 i) \<and> \<not> pte_is_block (entry fa t0 i) \<and> pte_phys_addr (entry fa t0 i) = t
    | None \<Rightarrow> \<not> pte_is_table (entry fa t0 i)"
proof (cases "tab (p @ [i])")
  case None
  then show ?thesis using pt_okD(8)[OF assms(1,2) _ assms(4)] assms(3) block_not_table by auto
next
  case (Some t)
  then have "entry fa t0 i = new_table t" using pt_okD(6)[OF assms(1) Some assms(2)] by simp
  then show ?thesis using new_table_spec pt_okD(4)[OF assms(1) Some] Some block_not_table by auto
qed

lemma translate_tab:
  assumes "pt_ok fa al pgd tab"
  shows "translate fa pgd va = walk_tab fa tab va"
proof -
  note root = pt_okD(1)[OF assms]
  have up: "tab [a, b, c] = Some t \<Longrightarrow> \<exists>t. tab [a, b] = Some t" "tab [a, b] = Some t \<Longrightarrow> \<exists>t. tab [a] = Some t" for a b c t
    using pt_okD(7)[OF assms, of "[a, b]" c] pt_okD(7)[OF assms, of "[a]" b] by auto
  note s0 = step_table[OF assms root, of "l0_index va", simplified]
  show ?thesis
  proof (cases "tab [l0_index va]")
    case None
    then have "tab [l0_index va, l1_index va] = None" "tab [l0_index va, l1_index va, l2_index va] = None"
      using up by (metis option.exhaust option.simps(3))+
    then show ?thesis using s0 None by (simp add: translate_def walk_tab_def)
  next
    case (Some t1)
    note s1 = step_table[OF assms Some, of "l1_index va", simplified]
    show ?thesis
    proof (cases "tab [l0_index va, l1_index va]")
      case None
      then have "tab [l0_index va, l1_index va, l2_index va] = None" using up by (metis option.exhaust option.simps(3))
      then show ?thesis using s0 s1 Some None by (simp add: translate_def walk_tab_def)
    next
      case t2: (Some t2)
      note s2 = step_table2[OF assms t2, of "l2_index va", simplified]
      show ?thesis using s0 s1 s2 Some t2
        by (cases "tab [l0_index va, l1_index va, l2_index va]") (auto simp: translate_def walk_tab_def Let_def)
    qed
  qed
qed


definition ram48 :: "(Pool \<Rightarrow> nat set) \<Rightarrow> bool" where
  "ram48 U \<longleftrightarrow> (\<forall>p. \<forall>x\<in>U p. x < 2 ^ 48)"

lemma frames_block_start:
  assumes "frames_inv U fa al" "blk \<in># al" "ram48 U"
  shows "fst blk < 2 ^ 48 \<and> PAGE_SIZE dvd fst blk"
proof -
  obtain blks p b where f: "al = (\<Sum>q\<in>UNIV. blks q)" "get_pool p (pools fa) = Some b" "blk \<in># blks p" "pool_ok (U p) b (blks p)"
    by (rule frames_inv_owner[OF assms(1,2)])
  obtain fl where fl: "bd b fl (alloc_mset (blks p)) (U p) 0"
    using pool_ok_block(2)[OF f(4,3)] by (auto simp: buddy_inv_def)
  have "fst blk \<in># alloc_mset (blks p)" using blk_pages_alloc_mset[OF f(3)] start_in_blk(1) by blast
  then have "fst blk \<in> U p" by (rule bd_in_U[OF fl])
  then show ?thesis using bd_aligned[OF fl] assms(3) by (auto simp: ram48_def)
qed

lemma pt_ok_extend:
  assumes ok: "pt_ok fa al pgd tab" and t: "tab p = Some t" "length p < 3" "i < 512" "tab (p @ [i]) = None"
    and new: "\<And>q s. tab q = Some s \<Longrightarrow> s \<noteq> t'" "t' < 2 ^ 48 \<and> PAGE_SIZE dvd t'" "(t', 0) \<in># al'" "set_mset al \<subseteq> set_mset al'"
    and e1: "\<And>q s j. tab q = Some s \<Longrightarrow> j < 512 \<Longrightarrow> entry fa' s j = (if s = t \<and> j = i then new_table t' else entry fa s j)"
    and e2: "\<And>j. j < 512 \<Longrightarrow> entry fa' t' j = 0"
  shows "pt_ok fa' al' pgd (tab(p @ [i] \<mapsto> t'))"
proof -
  let ?tab = "tab(p @ [i] \<mapsto> t')"
  note d = pt_okD[OF ok]
  have keep: "tab q = Some s \<Longrightarrow> ?tab q = Some s" for q s using t(4) by auto
  have inj: "q @ [j] \<noteq> p @ [i] \<Longrightarrow> tab q = Some s \<Longrightarrow> \<not> (s = t \<and> j = i)" for q j s using d(5)[OF _ t(1)] by auto
  have c1: "?tab [] = Some pgd" using d(1) by simp
  have c2: "length q \<le> 3 \<and> (s, 0) \<in># al' \<and> s < 2 ^ 48 \<and> PAGE_SIZE dvd s" if "?tab q = Some s" for q s
    using that d(2-4)[of q s] new(2-4) t(2) by (cases "q = p @ [i]") auto
  have c3: "q = r" if "?tab q = Some s" "?tab r = Some s" for q r s
    using that d(5)[of q s r] new(1)[of q] new(1)[of r] by (auto split: if_splits)
  have c4: "j < 512 \<and> (\<exists>t0. ?tab q = Some t0 \<and> entry fa' t0 j = new_table s)" if a: "?tab (q @ [j]) = Some s" for q j s
  proof (cases "q @ [j] = p @ [i]")
    case True
    then show ?thesis using a t keep[OF t(1)] e1[OF t(1) t(3)] by auto
  next
    case False
    then have b: "tab (q @ [j]) = Some s" using a by auto
    then obtain t0 where "tab q = Some t0" using d(7) by blast
    then show ?thesis using d(6)[OF b] d(10)[OF b] keep e1[of q t0 j] inj[OF False, of t0] by auto
  qed
  have c5: "entry fa' t0 j = 0 \<or> length q = 2 \<and> pte_is_block (entry fa' t0 j) \<and> leaf_ok (entry fa' t0 j)"
    if a: "?tab q = Some t0" "length q < 3" "j < 512" "?tab (q @ [j]) = None" for q j t0
  proof (cases "q = p @ [i]")
    case False
    have ne: "q @ [j] \<noteq> p @ [i]" using a(4) by auto
    have b: "tab q = Some t0" "tab (q @ [j]) = None" using a(1,4) False ne by auto
    have "entry fa' t0 j = entry fa t0 j" using e1[OF b(1) a(3)] inj[OF ne b(1)] by simp
    then show ?thesis using d(8)[OF b(1) a(2,3) b(2)] by simp
  qed (use a e2 in simp)
  have c6: "leaf_ok (entry fa' t0 j)" if a: "?tab q = Some t0" "length q = 3" "j < 512" "pte_is_table (entry fa' t0 j)" for q j t0
  proof (cases "q = p @ [i]")
    case False
    have b: "tab q = Some t0" using a(1) False by auto
    have "q \<noteq> p" using a(2) t(2) by auto
    then have "entry fa' t0 j = entry fa t0 j" using e1[OF b a(3)] d(5)[OF b, of p] t(1) by auto
    then show ?thesis using d(9)[OF b a(2,3)] a(4) by simp
  qed (use a e2 in simp)
  show ?thesis unfolding pt_ok_def using c1 c2 c3 c4 c5 c6 by (intro conjI allI impI) blast+
qed

lemma walk_extend:
  assumes ok: "pt_ok fa al pgd tab" and t: "tab p = Some t" "length p < 3" "i < 512" "tab (p @ [i]) = None"
    and z: "\<not> pte_is_block (entry fa t i)"
    and e1: "\<And>q s j. tab q = Some s \<Longrightarrow> j < 512 \<Longrightarrow> entry fa' s j = (if s = t \<and> j = i then new_table t' else entry fa s j)"
    and e2: "\<And>j. j < 512 \<Longrightarrow> entry fa' t' j = 0"
  shows "walk_tab fa' (tab(p @ [i] \<mapsto> t')) va = walk_tab fa tab va"
proof -
  note d = pt_okD[OF ok]
  let ?a = "l0_index va" and ?b = "l1_index va" and ?c = "l2_index va"
  have up: "tab [?a, ?b, ?c] = Some s \<Longrightarrow> \<exists>t. tab [?a, ?b] = Some t" for s using d(7)[of "[?a, ?b]" ?c] by auto
  have l3: "entry fa' s j = entry fa s j" if "tab [?a, ?b, ?c] = Some s" "j < 512" for s j
    using e1[OF that] d(5)[OF that(1), of p] t(1,2) by auto
  show ?thesis
  proof (cases "p @ [i] = [?a, ?b, ?c]")
    case True
    then have "p = [?a, ?b]" "i = ?c" by (auto simp: append_eq_Cons_conv Cons_eq_append_conv)
    then show ?thesis using t z e2 True by (simp add: walk_tab_def)
  next
    case n3: False
    show ?thesis
    proof (cases "p @ [i] = [?a, ?b]")
      case True
      then have "tab [?a, ?b] = None" using t(4) by simp
      moreover have "tab [?a, ?b, ?c] = None" using up calculation by (metis option.exhaust option.simps(3))
      ultimately show ?thesis using True e2 n3 by (simp add: walk_tab_def)
    next
      case n2: False
      have "pte_is_block (entry fa' s ?c) = pte_is_block (entry fa s ?c) \<and> (pte_is_block (entry fa s ?c) \<longrightarrow> entry fa' s ?c = entry fa s ?c)"
        if s: "tab [?a, ?b] = Some s" "tab [?a, ?b, ?c] = None" for s
      proof (cases "s = t \<and> ?c = i")
        case True
        then have "p @ [i] = [?a, ?b, ?c]" using d(5)[OF s(1), of p] t(1) by auto
        then show ?thesis using n3 by simp
      qed (use e1[OF s(1), of ?c] in auto)
      then show ?thesis using n2 n3 l3[of _ "l3_index va"]
        by (cases "tab [?a, ?b, ?c]"; cases "tab [?a, ?b]") (auto simp: walk_tab_def)
    qed
  qed
qed

text \<open>
  One level of the walk. \<open>slots\<close> are the words the page-table code itself may write: entries of its
  tables.
\<close>

definition slots :: "(nat list \<Rightarrow> nat option) \<Rightarrow> nat set" where
  "slots tab = {t + i * 8 | t i p. tab p = Some t \<and> i < 512}"

lemma ensure_table_cases:
  assumes "ensure_table_dmap t i (Some fa) = Some (t', g')" "frames_inv U fa al" "(t, 0) \<in># al" "i < 512"
  obtains (old) "entry fa t i \<noteq> 0" "pte_is_table (entry fa t i)" "t' = pte_phys_addr (entry fa t i)" "g' = Some fa"
  | (new) fa1 where "entry fa t i = 0" "fa_alloc_pages PoolKernel 0 fa = (Some t', fa1)"
      "g' = Some (fa_write (t + i * 8) (unat (new_table t')) (fold (\<lambda>i. fa_write (t' + i * 8) 0) [0..<512] fa1))"
proof -
  obtain v where v: "fa_read (t + i * 8) fa = Some v"
    by (rule owned_read[OF assms(2,3) slot_in_table[OF assms(4)]])
  then have e: "entry fa t i = word_of_nat v" by (simp add: entry_def)
  show thesis
  proof (cases "entry fa t i = 0")
    case False
    then have "pte_is_table (entry fa t i)" "t' = pte_phys_addr (entry fa t i)" "g' = Some fa"
      using assms(1) v unfolding e ensure_table_dmap_def ram_read_def pte_is_table_def pte_phys_addr_def
      by (simp_all add: Let_def split: if_splits)
    then show thesis using old False by blast
  next
    case True
    obtain a fa1 where a: "fa_alloc_pages PoolKernel 0 fa = (a, fa1)" by fastforce
    have "a = Some t' \<and> g' = ram_write (t + i * 8) (unat (new_table t')) (zero_pages t' 0 (Some fa1))"
      using assms(1) v True unfolding e ensure_table_dmap_def ram_read_def alloc_page_def fa_alloc_page_def
      by (simp add: Let_def a split: option.splits)
    then show thesis using new[OF True, of fa1] a by (simp add: zero_pages_Some ram_write_def PAGE_SIZE_def)
  qed
qed

lemma pool_alloc_page:
  assumes "pool_ok U b al" "0 < total_free b"
  obtains a b' where "alloc_pages 0 b = (Some a, b')" "total_free b = Suc (total_free b')"
proof -
  have i: "initialized b" using assms by (auto simp: pool_ok_def split: if_splits)
  then have inv: "buddy_inv U b al" using assms(1) by (simp add: pool_ok_def)
  then obtain fl where fl: "bd b fl (alloc_mset al) U 0" by (auto simp: buddy_inv_def)
  obtain r b' where r: "alloc_pages 0 b = (r, b')" by fastforce
  show thesis
  proof (cases r)
    case None
    then have "fl h = []" if "h \<le> MAX_ORDER" for h using alloc_pages_spec[OF fl, of 0] r that by simp
    then have "free_mset fl = {#}" by (auto simp: free_mset_def)
    then show thesis using fl assms(2) by (simp add: bd_def)
  next
    case (Some a)
    have inv': "buddy_inv U b' (add_mset (a, 0) al)" using buddy_inv_alloc[OF inv] r Some by simp
    show thesis using that[of a b'] r Some buddy_inv_accounting[OF inv] buddy_inv_accounting[OF inv'] by simp
  qed
qed

lemma kernel_page_free:
  assumes "frames_inv U fa al" "0 < pool_free_pages fa PoolKernel"
  obtains t fa' where "fa_alloc_pages PoolKernel 0 fa = (Some t, fa')" "pool_free_pages fa PoolKernel = Suc (pool_free_pages fa' PoolKernel)"
proof -
  obtain blks where f: "\<forall>q. case get_pool q (pools fa) of None \<Rightarrow> U q = {} \<and> blks q = {#} | Some c \<Rightarrow> pool_ok (U q) c (blks q)"
    by (rule frames_inv_blocks[OF assms(1)])
  obtain b where b: "get_pool PoolKernel (pools fa) = Some b" by (simp add: get_pool_def)
  have "pool_ok (U PoolKernel) b (blks PoolKernel)" using f[rule_format, of PoolKernel] b by simp
  moreover have "0 < total_free b" using assms(2) b by (simp add: pool_free_pages_def)
  ultimately obtain a b' where a: "alloc_pages 0 b = (Some a, b')" "total_free b = Suc (total_free b')" by (rule pool_alloc_page)
  have "fa_alloc_pages PoolKernel 0 fa = (Some a, fa\<lparr>pools := set_pool PoolKernel b' (pools fa)\<rparr>)"
    using a(1) b by (simp add: fa_alloc_pages_def)
  then show thesis using that a(2) b by (simp add: pool_free_pages_def)
qed

lemma kernel_alloc_free:
  assumes "frames_inv U fa al" "fa_alloc_pages PoolKernel 0 fa = (Some t, fa')"
  shows "pool_free_pages fa PoolKernel = Suc (pool_free_pages fa' PoolKernel)"
proof -
  obtain blks where f: "\<forall>q. case get_pool q (pools fa) of None \<Rightarrow> U q = {} \<and> blks q = {#} | Some c \<Rightarrow> pool_ok (U q) c (blks q)"
    by (rule frames_inv_blocks[OF assms(1)])
  obtain b where b: "get_pool PoolKernel (pools fa) = Some b" by (simp add: get_pool_def)
  obtain r b' where r: "alloc_pages 0 b = (r, b')" by fastforce
  then have a: "r = Some t" "fa' = fa\<lparr>pools := set_pool PoolKernel b' (pools fa)\<rparr>"
    using assms(2) b by (simp_all add: fa_alloc_pages_def split: option.splits)
  have ok: "pool_ok (U PoolKernel) b (blks PoolKernel)" using f[rule_format, of PoolKernel] b by simp
  have "initialized b" using pool_uninit_None[OF _ ok, of 0] r a(1) by auto
  then have inv: "buddy_inv (U PoolKernel) b (blks PoolKernel)" using ok by (simp add: pool_ok_def)
  have "buddy_inv (U PoolKernel) b' (add_mset (t, 0) (blks PoolKernel))" using buddy_inv_alloc[OF inv] r a(1) by simp
  then show ?thesis using buddy_inv_accounting[OF inv] buddy_inv_accounting[of "U PoolKernel" b' "add_mset (t, 0) (blks PoolKernel)"] a(2) b
    by (simp add: pool_free_pages_def)
qed

lemma fa_write_free [simp]: "pool_free_pages (fa_write w v fa) p = pool_free_pages fa p"
proof (cases "pool_for_addr (pools fa) w")
  case (Some q)
  then show ?thesis
    by (cases "get_pool q (pools fa)") (auto simp: fa_write_def pool_free_pages_def write_word_def)
qed (simp add: fa_write_def)

lemma zero_fold_free [simp]: "pool_free_pages (fold (\<lambda>i. fa_write (t + i * 8) 0) xs fa) p = pool_free_pages fa p"
  by (induction xs arbitrary: fa) simp_all

lemma ensure_table_ok:
  assumes inv: "frames_inv U fa al" "ram48 U" and ok: "pt_ok fa al pgd tab"
    and t: "tab p = Some t" "length p < 3" "i < 512" and en: "ensure_table_dmap t i (Some fa) = Some (t', g')"
  obtains fa' al' tab' where "g' = Some fa'" "frames_inv U fa' al'" "pt_ok fa' al' pgd tab'" "tab' (p @ [i]) = Some t'"
    "tab \<subseteq>\<^sub>m tab'" "al \<subseteq># al'" "\<And>va. translate fa' pgd va = translate fa pgd va"
    "\<And>blk w. blk \<in># al \<Longrightarrow> w \<in> bytes_of blk \<Longrightarrow> w \<notin> slots tab \<Longrightarrow> fa_read w fa' = fa_read w fa"
    "\<And>q s. tab' q = Some s \<Longrightarrow> tab q = Some s \<or> (s, 0) \<notin># al"
    "dom tab' = insert (p @ [i]) (dom tab)"
    "pool_free_pages fa PoolKernel = pool_free_pages fa' PoolKernel + (if tab (p @ [i]) = None then 1 else 0)"
proof -
  note d = pt_okD[OF ok]
  note tal = d(3)[OF t(1)]
  show thesis using en inv(1) tal t(3)
  proof (cases rule: ensure_table_cases)
    case old
    obtain s where s: "tab (p @ [i]) = Some s"
      using d(8)[OF t] old(1,2) block_not_table by (cases "tab (p @ [i])") auto
    then have "entry fa t i = new_table s" using d(6)[OF s t(1)] by simp
    then have "t' = s" using old(3) new_table_spec(1) d(4)[OF s] by simp
    then show thesis using that[OF old(4) inv(1) ok _ map_le_refl] s by (simp add: insert_absorb domI)
  next
    case (new fa1)
    have none: "tab (p @ [i]) = None"
    proof (cases "tab (p @ [i])")
      case (Some s)
      then show ?thesis using d(6)[OF Some t(1)] new(1) new_table_spec(3) d(4)[OF Some] by metis
    qed
    let ?al = "add_mset (t', 0) al"
    let ?fa2 = "fold (\<lambda>i. fa_write (t' + i * 8) 0) [0..<512] fa1"
    let ?fa3 = "fa_write (t + i * 8) (unat (new_table t')) ?fa2"
    have i1: "frames_inv U fa1 ?al" using frames_inv_alloc[OF inv(1) new(2)] by simp
    have i2: "frames_inv U ?fa2 ?al" using zero_fold_inv[OF i1, of t' 0 512] by (simp add: PAGE_SIZE_def)
    have i3: "frames_inv U ?fa3 ?al"
      by (rule frames_inv_write[OF i2 _ slot_in_table[OF t(3)]]) (simp add: tal)
    have fresh: "(s, 0) \<in># al \<Longrightarrow> s \<noteq> t'" for s
    proof
      assume s: "(s, 0) \<in># al" "s = t'"
      then obtain al2 where "al = add_mset (t', 0) al2" by (auto dest: multi_member_split)
      then have "bytes_of (t', 0) \<inter> bytes_of (t', 0) = {}" using frames_inv_disjoint[of U fa1 "(t', 0)" "(t', 0)" al2] i1 by simp
      then show False by (simp add: bytes_of_def PAGE_SIZE_def)
    qed
    have p48: "t' < 2 ^ 48 \<and> PAGE_SIZE dvd t'" using frames_block_start[OF i1 _ inv(2), of "(t', 0)"] by simp
    have e1: "entry ?fa3 s j = (if s = t \<and> j = i then new_table t' else entry fa s j)" if "tab q = Some s" "j < 512" for q s j
    proof -
      have s: "(s, 0) \<in># al" using d(3)[OF that(1)] .
      have "entry fa1 s j = entry fa s j"
        using frames_alloc_keeps[OF inv(1) new(2) s slot_in_table[OF that(2)]] by (simp add: entry_def)
      moreover have "entry ?fa2 s j = entry fa1 s j"
        using zero_table_entry[OF i1 _ _ that(2), of t' s] s fresh[OF s] by simp
      ultimately show ?thesis using entry_write[OF i2 _ _ t(3) that(2), of t s "new_table t'"] tal s by simp
    qed
    have e2: "entry ?fa3 t' j = 0" if "j < 512" for j
      using entry_write[OF i2 _ _ t(3) that, of t t' "new_table t'"] zero_table_entry[OF i1 _ _ that, of t' t'] tal fresh[OF tal] by simp
    have ok': "pt_ok ?fa3 ?al pgd (tab(p @ [i] \<mapsto> t'))"
      by (rule pt_ok_extend[OF ok t none _ p48 _ _ e1 e2]) (use fresh d(3) in auto)
    have tr: "translate ?fa3 pgd va = translate fa pgd va" for va
      unfolding translate_tab[OF ok] translate_tab[OF ok']
      by (rule walk_extend[OF ok t none _ e1 e2]) (use new(1) in auto)
    have rd: "fa_read w ?fa3 = fa_read w fa" if w: "blk \<in># al" "w \<in> bytes_of blk" "w \<notin> slots tab" for blk w
    proof -
      have "w \<noteq> t + i * 8" using w(3) t by (auto simp: slots_def)
      then have "fa_read w ?fa3 = fa_read w ?fa2" by (rule fa_write_read_other)
      also have "\<dots> = fa_read w fa1"
      proof (rule zero_fold_other, intro allI impI)
        obtain al2 where "al = add_mset blk al2" using w(1) by (auto dest: multi_member_split)
        then have "bytes_of (t', 0) \<inter> bytes_of blk = {}" using frames_inv_disjoint[of U fa1 "(t', 0)" blk al2] i1 by simp
        then show "w \<noteq> t' + j * 8" if "j < 512" for j using slot_in_table[OF that, of t'] w(2) by blast
      qed
      also have "\<dots> = fa_read w fa" by (rule frames_alloc_keeps[OF inv(1) new(2) w(1,2)])
      finally show ?thesis .
    qed
    have fr: "pool_free_pages fa PoolKernel = Suc (pool_free_pages ?fa3 PoolKernel)" using kernel_alloc_free[OF inv(1) new(2)] by simp
    show thesis
      by (rule that[OF new(3) i3 ok' _ _ _ tr rd]) (use none fresh fr in \<open>auto simp: map_le_def split: if_splits\<close>)
  qed
qed


text \<open>Writing a leaf of the last level.\<close>

lemma leaf_write:
  assumes inv: "frames_inv U fa al" and ok: "pt_ok fa al pgd tab" and t: "tab p = Some t" "length p = 3" "j < 512"
    and e: "pte_is_table e" "leaf_ok e"
  defines "fa' \<equiv> fa_write (t + j * 8) (unat e) fa"
  shows "frames_inv U fa' al" "pt_ok fa' al pgd tab"
    "translate fa' pgd va = (if [l0_index va, l1_index va, l2_index va] = p \<and> l3_index va = j then Some e else translate fa pgd va)"
    "w \<noteq> t + j * 8 \<Longrightarrow> fa_read w fa' = fa_read w fa"
proof -
  note d = pt_okD[OF ok]
  show "frames_inv U fa' al" unfolding fa'_def by (rule frames_inv_write[OF inv d(3)[OF t(1)] slot_in_table[OF t(3)]])
  show "w \<noteq> t + j * 8 \<Longrightarrow> fa_read w fa' = fa_read w fa" unfolding fa'_def by (rule fa_write_read_other)
  have en: "entry fa' s i = (if s = t \<and> i = j then e else entry fa s i)" if "tab q = Some s" "i < 512" for q s i
    unfolding fa'_def by (rule entry_write[OF inv d(3)[OF t(1)] d(3)[OF that(1)] t(3) that(2)])
  have up: "entry fa' s i = entry fa s i" if "tab q = Some s" "i < 512" "length q < 3" for q s i
    using en[OF that(1,2)] d(5)[OF that(1), of p] t(1,2) that(3) by auto
  have c4: "i < 512 \<and> (\<exists>t0. tab q = Some t0 \<and> entry fa' t0 i = new_table s)" if a: "tab (q @ [i]) = Some s" for q i s
  proof -
    obtain t0 where t0: "tab q = Some t0" using d(7)[OF a] by blast
    have "length q < 3" using d(2)[OF a] by simp
    then show ?thesis using t0 d(6)[OF a t0] d(10)[OF a] up[OF t0] by auto
  qed
  have c6: "leaf_ok (entry fa' s i)" if a: "tab q = Some s" "length q = 3" "i < 512" "pte_is_table (entry fa' s i)" for q s i
    using en[OF a(1,3)] d(9)[OF a(1-3)] a(4) e(2) by (auto split: if_splits)
  show ok': "pt_ok fa' al pgd tab"
    unfolding pt_ok_def using d(1-5) c4 c6 d(8) up by (intro conjI allI impI) (blast | (metis up d(8)))+
  show "translate fa' pgd va = (if [l0_index va, l1_index va, l2_index va] = p \<and> l3_index va = j then Some e else translate fa pgd va)"
  proof (cases "tab [l0_index va, l1_index va, l2_index va]")
    case None
    have "entry fa' s (l2_index va) = entry fa s (l2_index va)" if "tab [l0_index va, l1_index va] = Some s" for s
      by (rule up[OF that]) simp_all
    then show ?thesis using None t(1) unfolding translate_tab[OF ok] translate_tab[OF ok'] walk_tab_def
      by (auto split: option.split)
  next
    case (Some s)
    have "s = t \<longleftrightarrow> [l0_index va, l1_index va, l2_index va] = p" using d(5)[OF Some, of p] t(1) Some by auto
    then show ?thesis using Some e(1) en[OF Some, of "l3_index va"]
      unfolding translate_tab[OF ok] translate_tab[OF ok'] walk_tab_def by auto
  qed
qed

text \<open>The page an address names: the 36 index bits.\<close>

definition va_page :: "nat \<Rightarrow> nat" where
  "va_page va = va div PAGE_SIZE mod 2 ^ 36"

lemma va_page_indices:
  "va_page va = va_page va' \<longleftrightarrow>
     [l0_index va, l1_index va, l2_index va] = [l0_index va', l1_index va', l2_index va'] \<and> l3_index va = l3_index va'"
proof
  have digit: "a = b \<and> x = y" if "a + 512 * x = b + 512 * y" "a < 512" "b < 512" for a b x y :: nat
    using arg_cong[OF that(1), of "\<lambda>n. n mod 512"] arg_cong[OF that(1), of "\<lambda>n. n div 512"] that(2,3) by simp
  have d: "va_page va = l3_index va + 512 * (l2_index va + 512 * (l1_index va + 512 * l0_index va))" for va
    unfolding va_page_def by (rule va_page_digits)
  assume "va_page va = va_page va'"
  then have e: "l3_index va + 512 * (l2_index va + 512 * (l1_index va + 512 * l0_index va)) =
    l3_index va' + 512 * (l2_index va' + 512 * (l1_index va' + 512 * l0_index va'))" unfolding d .
  note a = digit[OF e index_bounds(4,4)]
  note b = digit[OF conjunct2[OF a] index_bounds(3,3)]
  note c = digit[OF conjunct2[OF b] index_bounds(2,2)]
  show "[l0_index va, l1_index va, l2_index va] = [l0_index va', l1_index va', l2_index va'] \<and> l3_index va = l3_index va'"
    using a b c by simp
qed (simp only: va_page_def va_page_digits list.inject)

lemma slots_mono: "tab \<subseteq>\<^sub>m tab' \<Longrightarrow> slots tab \<subseteq> slots tab'"
  unfolding slots_def map_le_def by (auto simp: dom_def) metis

text \<open>A block in use that holds no table is not touched by the page-table code.\<close>

lemma table_slots_apart:
  assumes "frames_inv U fa' al'" "pt_ok fa' al' pgd tab'" "al \<subseteq># al'" "blk \<in># al" "w \<in> bytes_of blk"
    and "\<And>q s. tab' q = Some s \<Longrightarrow> tab q = Some s \<or> (s, 0) \<notin># al" "\<And>q. tab q = Some (fst blk) \<Longrightarrow> snd blk \<noteq> 0"
  shows "w \<notin> slots tab'"
proof
  assume "w \<in> slots tab'"
  then obtain t i q where t: "w = t + i * 8" "tab' q = Some t" "i < 512" by (auto simp: slots_def)
  have "blk \<noteq> (t, 0)" using assms(4) assms(6)[of q t] assms(7)[of q] t(2) by auto
  moreover have "(t, 0) \<in># al'" "blk \<in># al'" using pt_okD(3)[OF assms(2) t(2)] assms(3,4) by (auto dest: mset_subset_eqD)
  ultimately have "bytes_of blk \<inter> bytes_of (t, 0) = {}" using blocks_apart[OF assms(1)] by blast
  then show False using assms(5) slot_in_table[OF t(3), of t] t(1) by blast
qed

lemma map_page_ok:
  assumes inv: "frames_inv U fa al" "ram48 U" and ok: "pt_ok fa al pgd tab"
    and m: "map_page_dmap pgd va pa mair flags (Some fa) = Some g'" and pa: "pa < 2 ^ 48" "PAGE_SIZE dvd pa"
  obtains fa' e al' tab' where "g' = Some fa'" "new_page pa mair flags = Some e" "frames_inv U fa' al'" "pt_ok fa' al' pgd tab'"
    "al \<subseteq># al'" "\<And>va'. translate fa' pgd va' = (if va_page va' = va_page va then Some e else translate fa pgd va')"
    "\<And>blk w. blk \<in># al \<Longrightarrow> w \<in> bytes_of blk \<Longrightarrow> \<forall>q. tab q = Some (fst blk) \<longrightarrow> snd blk \<noteq> 0 \<Longrightarrow> fa_read w fa' = fa_read w fa"
    "tab \<subseteq>\<^sub>m tab'" "\<And>q s. tab' q = Some s \<Longrightarrow> tab q = Some s \<or> (s, 0) \<notin># al"
proof -
  let ?a = "l0_index va" and ?b = "l1_index va" and ?c = "l2_index va"
  obtain t1 g1 t2 g2 t3 g3 e where s: "ensure_table_dmap pgd ?a (Some fa) = Some (t1, g1)" "ensure_table_dmap t1 ?b g1 = Some (t2, g2)"
    "ensure_table_dmap t2 ?c g2 = Some (t3, g3)" "new_page pa mair flags = Some e" "g' = ram_write (t3 + l3_index va * 8) (unat e) g3"
    using m unfolding map_page_dmap_def by (auto simp: bind_eq_Some_conv)
  obtain fa1 al1 tab1 where 1: "g1 = Some fa1" "frames_inv U fa1 al1" "pt_ok fa1 al1 pgd tab1" "tab1 ([] @ [?a]) = Some t1" "tab \<subseteq>\<^sub>m tab1"
    "al \<subseteq># al1" "\<And>va. translate fa1 pgd va = translate fa pgd va"
    "\<And>blk w. blk \<in># al \<Longrightarrow> w \<in> bytes_of blk \<Longrightarrow> w \<notin> slots tab \<Longrightarrow> fa_read w fa1 = fa_read w fa"
    "\<And>q s. tab1 q = Some s \<Longrightarrow> tab q = Some s \<or> (s, 0) \<notin># al"
    by (rule ensure_table_ok[OF inv ok pt_okD(1)[OF ok] _ _ s(1)]) simp_all
  have "tab1 [?a] = Some t1" using 1(4) by simp
  then obtain fa2 al2 tab2 where 2: "g2 = Some fa2" "frames_inv U fa2 al2" "pt_ok fa2 al2 pgd tab2" "tab2 ([?a] @ [?b]) = Some t2" "tab1 \<subseteq>\<^sub>m tab2"
    "al1 \<subseteq># al2" "\<And>va. translate fa2 pgd va = translate fa1 pgd va"
    "\<And>blk w. blk \<in># al1 \<Longrightarrow> w \<in> bytes_of blk \<Longrightarrow> w \<notin> slots tab1 \<Longrightarrow> fa_read w fa2 = fa_read w fa1"
    "\<And>q s. tab2 q = Some s \<Longrightarrow> tab1 q = Some s \<or> (s, 0) \<notin># al1"
    by (rule ensure_table_ok[OF 1(2) inv(2) 1(3) _ _ _ s(2)[unfolded 1(1)]]) simp_all
  have "tab2 [?a, ?b] = Some t2" using 2(4) by simp
  then obtain fa3 al3 tab3 where 3: "g3 = Some fa3" "frames_inv U fa3 al3" "pt_ok fa3 al3 pgd tab3" "tab3 ([?a, ?b] @ [?c]) = Some t3" "tab2 \<subseteq>\<^sub>m tab3"
    "al2 \<subseteq># al3" "\<And>va. translate fa3 pgd va = translate fa2 pgd va"
    "\<And>blk w. blk \<in># al2 \<Longrightarrow> w \<in> bytes_of blk \<Longrightarrow> w \<notin> slots tab2 \<Longrightarrow> fa_read w fa3 = fa_read w fa2"
    "\<And>q s. tab3 q = Some s \<Longrightarrow> tab2 q = Some s \<or> (s, 0) \<notin># al2"
    by (rule ensure_table_ok[OF 2(2) inv(2) 2(3) _ _ _ s(3)[unfolded 2(1)]]) simp_all
  have t3: "tab3 [?a, ?b, ?c] = Some t3" using 3(4) by simp
  have "leaf_ok e" using new_page_spec[OF s(4) pa] s(4) wx_ok_def new_page_None[of pa mair flags] by (auto simp: leaf_ok_def)
  note lw = leaf_write[OF 3(2,3) t3 _ index_bounds(4)[of va] new_page_spec(2)[OF s(4) pa] this]
  let ?fa = "fa_write (t3 + l3_index va * 8) (unat e) fa3"
  have al: "al \<subseteq># al3" by (rule subset_mset.order_trans[OF 1(6) subset_mset.order_trans[OF 2(6) 3(6)]])
  have mono: "set_mset al \<subseteq> set_mset al1" "set_mset al1 \<subseteq> set_mset al2"
    using set_mset_mono[OF 1(6)] set_mset_mono[OF 2(6)] by simp_all
  have new: "tab q = Some s \<or> (s, 0) \<notin># al" if q: "tab3 q = Some s" for q s
    using 3(9)[OF q] 2(9)[of q s] 1(9)[of q s] mono by blast
  have tr: "translate ?fa pgd va' = (if va_page va' = va_page va then Some e else translate fa pgd va')" for va'
    using lw(3)[of va'] 1(7)[of va'] 2(7)[of va'] 3(7)[of va'] unfolding va_page_indices by simp
  have rd: "fa_read w ?fa = fa_read w fa"
    if w: "blk \<in># al" "w \<in> bytes_of blk" "\<forall>q. tab q = Some (fst blk) \<longrightarrow> snd blk \<noteq> 0" for blk w
  proof -
    have n3: "w \<notin> slots tab3" by (rule table_slots_apart[OF 3(2,3) al w(1,2) new w(3)[rule_format]])
    have n2: "w \<notin> slots tab2" "w \<notin> slots tab1" "w \<notin> slots tab" using slots_mono[OF 1(5)] slots_mono[OF 2(5)] slots_mono[OF 3(5)] n3 by auto
    have "t3 + l3_index va * 8 \<in> slots tab3" using t3 index_bounds(4)[of va] unfolding slots_def by blast
    then have "w \<noteq> t3 + l3_index va * 8" using n3 by blast
    then have "fa_read w ?fa = fa_read w fa3" using lw(4) by simp
    also have "\<dots> = fa_read w fa2" using 3(8)[OF _ w(2) n2(1)] w(1) mono by blast
    also have "\<dots> = fa_read w fa1" using 2(8)[OF _ w(2) n2(2)] w(1) mono by blast
    also have "\<dots> = fa_read w fa" using 1(8)[OF w(1,2) n2(3)] .
    finally show ?thesis .
  qed
  have le: "tab \<subseteq>\<^sub>m tab3" by (rule map_le_trans[OF 1(5) map_le_trans[OF 2(5) 3(5)]])
  show thesis
    by (rule that[OF _ s(4) lw(1,2) al tr rd le new]) (simp_all add: s(5) 3(1) ram_write_def)
qed

section \<open>Address-space identifiers\<close>

record Asid =
  asid_value :: "16 word"
  asid_generation :: u64

record AsidAllocator =
  aa_generation :: u64
  aa_next :: "16 word"
  aa_max :: "16 word"

definition asid_new :: AsidAllocator where
  "asid_new = \<lparr>aa_generation = 0, aa_next = 1, aa_max = - 1\<rparr>"

definition asid_alloc :: "AsidAllocator \<Rightarrow> (Asid \<times> bool) \<times> AsidAllocator" where
  "asid_alloc a =
     (let v = aa_next a;
          a1 = a\<lparr>aa_next := aa_next a + 1\<rparr>
      in if aa_next a1 = 0 then
           let a2 = a1\<lparr>aa_next := 1, aa_generation := aa_generation a1 + 1\<rparr>
           in ((\<lparr>asid_value = v, asid_generation = aa_generation a2\<rparr>, True), a2)
         else ((\<lparr>asid_value = v, asid_generation = aa_generation a1\<rparr>, False), a1))"

definition asid_is_valid :: "Asid \<Rightarrow> AsidAllocator \<Rightarrow> bool" where
  "asid_is_valid x a \<longleftrightarrow> asid_generation x = aa_generation a"

text \<open>The allocations in order.\<close>

definition asid_state :: "nat \<Rightarrow> AsidAllocator" where
  "asid_state n = ((\<lambda>a. snd (asid_alloc a)) ^^ n) asid_new"

definition asid_nth :: "nat \<Rightarrow> Asid" where
  "asid_nth n = fst (fst (asid_alloc (asid_state n)))"

definition asid_flush :: "nat \<Rightarrow> bool" where
  "asid_flush n = snd (fst (asid_alloc (asid_state n)))"

lemma asid_closed:
  "aa_next (asid_state n) = word_of_nat (n mod 65535 + 1) \<and> aa_generation (asid_state n) = word_of_nat (n div 65535)"
proof (induction n)
  case (Suc n)
  have st: "asid_state (Suc n) = snd (asid_alloc (asid_state n))" by (simp add: asid_state_def)
  have nx: "aa_next (asid_state n) + 1 = word_of_nat (n mod 65535 + 2)" using Suc by simp
  have z: "(word_of_nat (n mod 65535 + 2) :: 16 word) = 0 \<longleftrightarrow> n mod 65535 = 65534"
  proof -
    define r where "r = n mod 65535"
    have r: "r < 65535" by (simp add: r_def)
    have "2 ^ 16 dvd r + 2 \<longleftrightarrow> r = 65534"
    proof
      assume "2 ^ 16 dvd r + 2"
      then have "2 ^ 16 \<le> r + 2" by (rule dvd_imp_le) simp
      then show "r = 65534" using r by simp
    qed simp
    then show ?thesis unfolding r_def[symmetric] word_of_nat_eq_0_iff by simp
  qed
  show ?case
  proof (cases "n mod 65535 = 65534")
    case True
    then have "Suc n mod 65535 = 0" "Suc n div 65535 = Suc (n div 65535)" by (simp_all add: mod_Suc div_Suc)
    then show ?thesis using Suc True nx z by (simp add: st asid_alloc_def Let_def)
  next
    case False
    then have "Suc n mod 65535 = Suc (n mod 65535)" "Suc n div 65535 = n div 65535" by (simp_all add: mod_Suc div_Suc)
    then show ?thesis using Suc False nx z by (simp add: st asid_alloc_def Let_def)
  qed
qed (simp add: asid_state_def asid_new_def)


lemma asid_nth_closed:
  "unat (asid_value (asid_nth n)) = n mod 65535 + 1 \<and> asid_generation (asid_nth n) = word_of_nat (Suc n div 65535) \<and>
   (asid_flush n \<longleftrightarrow> Suc n mod 65535 = 0)"
proof -
  define r where "r = n mod 65535"
  have r: "r < 65535" by (simp add: r_def)
  note c = asid_closed[of n, folded r_def]
  have u: "unat (word_of_nat (r + 1) :: 16 word) = r + 1"
    using r unsigned_of_nat[of "r + 1", where 'a = nat and 'b = 16] by (simp add: take_bit_eq_mod del: of_nat_Suc of_nat_add)
  have nx: "aa_next (asid_state n) + 1 = word_of_nat (r + 2)" using c by simp
  have z: "aa_next (asid_state n) + 1 = 0 \<longleftrightarrow> r = 65534"
  proof -
    have "2 ^ 16 dvd r + 2 \<longleftrightarrow> r = 65534"
    proof
      assume "2 ^ 16 dvd r + 2"
      then have "2 ^ 16 \<le> r + 2" by (rule dvd_imp_le) simp
      then show "r = 65534" using r by simp
    qed simp
    then show ?thesis unfolding nx word_of_nat_eq_0_iff by simp
  qed
  have s: "Suc n mod 65535 = (if r = 65534 then 0 else Suc r)" "Suc n div 65535 = (if r = 65534 then Suc (n div 65535) else n div 65535)"
    using r by (simp_all add: r_def mod_Suc div_Suc)
  show ?thesis
    using c u z s by (cases "r = 65534") (simp_all add: asid_nth_def asid_flush_def asid_alloc_def Let_def r_def[symmetric])
qed

text \<open>
  C16. Address-space identifiers: identifier 0 is never handed out, and the allocator gives no identifier
  of a generation twice until the 64-bit generation counter itself wraps. When a 16-bit value comes
  back, a TLB flush was requested after its previous use.
\<close>

theorem asids_unique:
  assumes "i < j" "j < 65535 * (2 ^ 64 - 1)"
  shows "asid_value (asid_nth i) \<noteq> 0 \<and> asid_nth i \<noteq> asid_nth j \<and>
    (asid_value (asid_nth i) = asid_value (asid_nth j) \<longrightarrow> (\<exists>l. i < l \<and> l \<le> j \<and> asid_flush l))"
proof -
  note a = asid_nth_closed[of i] and b = asid_nth_closed[of j]
  have same: "i mod 65535 = j mod 65535" if "asid_value (asid_nth i) = asid_value (asid_nth j)" using a b that by simp
  have step: "Suc i div 65535 < Suc j div 65535" if "i mod 65535 = j mod 65535"
  proof -
    have "i div 65535 < j div 65535" using assms(1) that by (metis div_le_mono div_mod_decomp le_neq_implies_less less_imp_le_nat nat_neq_iff)
    moreover have "Suc i mod 65535 = Suc j mod 65535" using that by (metis mod_Suc_eq)
    ultimately show ?thesis using that by (simp add: div_Suc)
  qed
  have bound: "Suc n div 65535 < 2 ^ 64" if "n \<le> j" for n
  proof -
    have "Suc n \<le> 65535 * (2 ^ 64 - 1)" using that assms(2) by simp
    then have "Suc n div 65535 \<le> 2 ^ 64 - 1" using div_le_mono[of "Suc n" "65535 * (2 ^ 64 - 1)" 65535] by simp
    then show ?thesis by simp
  qed
  have "asid_nth i \<noteq> asid_nth j"
  proof
    assume e: "asid_nth i = asid_nth j"
    then have w: "(word_of_nat (Suc i div 65535) :: u64) = word_of_nat (Suc j div 65535)" using a b by metis
    have "take_bit 64 (Suc i div 65535) = take_bit 64 (Suc j div 65535)"
      using arg_cong[OF w, of unat] by (simp only: unsigned_of_nat) simp
    then have "Suc i div 65535 = Suc j div 65535"
      using bound[of i] bound[of j] assms(1) by (simp add: take_bit_eq_mod)
    then show False using step same e by simp
  qed
  moreover have "\<exists>l. i < l \<and> l \<le> j \<and> asid_flush l" if "asid_value (asid_nth i) = asid_value (asid_nth j)"
  proof -
    let ?l = "65535 * (Suc j div 65535) - 1"
    have q: "Suc i div 65535 < Suc j div 65535" using step[OF same[OF that]] .
    have "Suc ?l = 65535 * (Suc j div 65535)" using q by simp
    then have "asid_flush ?l" using asid_nth_closed[of ?l] by simp
    moreover have "?l \<le> j" using div_times_less_eq_dividend[of "Suc j" 65535] by (simp add: mult.commute)
    moreover have "i < ?l"
    proof -
      have "Suc i < 65535 * (Suc i div 65535 + 1)" using dividend_less_times_div[of 65535 "Suc i"] by simp
      also have "\<dots> \<le> 65535 * (Suc j div 65535)" using q by (intro mult_le_mono2) simp
      finally show ?thesis by simp
    qed
    ultimately show ?thesis by blast
  qed
  moreover have "asid_value (asid_nth i) \<noteq> 0" using a by (metis Suc_eq_plus1 nat.distinct(1) unat_0)
  ultimately show ?thesis by blast
qed

theorem asids_unique_witness:
  "asid_nth 0 \<noteq> asid_nth 65535 \<and> asid_value (asid_nth 0) = asid_value (asid_nth 65535) \<and> (\<exists>l. 0 < l \<and> l \<le> 65535 \<and> asid_flush l)"
proof -
  have "asid_value (asid_nth 0) = asid_value (asid_nth 65535)"
    using asid_nth_closed[of 0] asid_nth_closed[of 65535] by (metis mod_self unat_eq_zero add_0 mod_0 word_unat_eq_iff)
  then show ?thesis using asids_unique[of 0 65535] by simp
qed

section \<open>User address spaces\<close>

record MemoryStats =
  pages_allocated :: nat
  peak_pages :: nat

definition track_alloc :: "MemoryStats \<Rightarrow> MemoryStats" where
  "track_alloc s =
     (let s1 = s\<lparr>pages_allocated := pages_allocated s + 1\<rparr>
      in if pages_allocated s1 > peak_pages s1 then s1\<lparr>peak_pages := pages_allocated s1\<rparr> else s1)"

record UserAddressSpace =
  pgd_phys :: nat
  us_asid :: Asid
  us_stats :: MemoryStats

text \<open>The result also says whether the TLB was flushed.\<close>

definition create_user_address_space ::
  "AsidAllocator \<Rightarrow> FrameAllocator option \<Rightarrow>
     (UserAddressSpace \<times> bool \<times> AsidAllocator \<times> FrameAllocator option) option" where
  "create_user_address_space aa g =
     (case alloc_page g of
        (None, _) \<Rightarrow> None
      | (Some pgd, g1) \<Rightarrow>
          (case asid_alloc aa of
             ((asid, needs_flush), aa') \<Rightarrow>
               Some (\<lparr>pgd_phys = pgd, us_asid = asid, us_stats = \<lparr>pages_allocated = 0, peak_pages = 0\<rparr>\<rparr>,
                     needs_flush, aa', zero_pages pgd 0 g1)))"

definition MAIR_DEVICE_IDX :: u64 where "MAIR_DEVICE_IDX = 0"
definition MAIR_NORMAL_WB_IDX :: u64 where "MAIR_NORMAL_WB_IDX = 3"

definition map_user_page ::
  "nat \<Rightarrow> nat \<Rightarrow> VmFlags \<Rightarrow> UserAddressSpace \<Rightarrow> FrameAllocator option \<Rightarrow>
     (UserAddressSpace \<times> FrameAllocator option) option" where
  "map_user_page va pa flags sp g =
     (if \<not> vm_contains flags VM_USER then None
      else if \<not> va < 0x0001000000000000 then None
      else if va AND (PAGE_SIZE - 1) \<noteq> 0 then None
      else if pa AND (PAGE_SIZE - 1) \<noteq> 0 then None
      else
        (case map_page_dmap (pgd_phys sp) va pa MAIR_NORMAL_WB_IDX flags g of
           None \<Rightarrow> None
         | Some g' \<Rightarrow> Some (sp\<lparr>us_stats := track_alloc (us_stats sp)\<rparr>, g')))"

definition switch_address_space_ttbr0 :: "UserAddressSpace \<Rightarrow> u64" where
  "switch_address_space_ttbr0 sp = push_bit 48 (ucast (asid_value (us_asid sp))) OR word_of_nat (pgd_phys sp)"

text \<open>
  The life of one address space next to other users of the pools: \<open>oth\<close> are the blocks that others
  hold, which they may free and write.
\<close>

inductive space_run :: "(Pool \<Rightarrow> nat set) \<Rightarrow> UserAddressSpace \<Rightarrow> FrameAllocator \<Rightarrow> (nat \<times> nat) multiset \<Rightarrow> bool" for U where
  space_create: "frames_inv U fa oth \<Longrightarrow> create_user_address_space aa (Some fa) = Some (sp, fl, aa', Some fa') \<Longrightarrow> space_run U sp fa' oth"
| space_map: "space_run U sp fa oth \<Longrightarrow> pa < 2 ^ 48 \<Longrightarrow> map_user_page va pa flags sp (Some fa) = Some (sp', Some fa') \<Longrightarrow> space_run U sp' fa' oth"
| space_alloc: "space_run U sp fa oth \<Longrightarrow> fa_alloc_pages p order fa = (Some a, fa') \<Longrightarrow> space_run U sp fa' (add_mset (a, order) oth)"
| space_free: "space_run U sp fa (add_mset (a, order) oth) \<Longrightarrow> fa_free_pages a order fa = Some fa' \<Longrightarrow> space_run U sp fa' oth"
| space_write: "space_run U sp fa oth \<Longrightarrow> blk \<in># oth \<Longrightarrow> w \<in> bytes_of blk \<Longrightarrow> space_run U sp (fa_write w v fa) oth"

lemma pt_ok_cong:
  assumes "pt_ok fa al pgd tab" "\<And>q t i. tab q = Some t \<Longrightarrow> i < 512 \<Longrightarrow> entry fa' t i = entry fa t i"
  shows "pt_ok fa' al pgd tab"
proof -
  note d = pt_okD[OF assms(1)]
  have c4: "i < 512 \<and> (\<exists>t0. tab q = Some t0 \<and> entry fa' t0 i = new_table s)" if a: "tab (q @ [i]) = Some s" for q i s
  proof -
    obtain t0 where t0: "tab q = Some t0" using d(7)[OF a] by blast
    then show ?thesis using d(6)[OF a t0] d(10)[OF a] assms(2)[OF t0] by auto
  qed
  have c5: "entry fa' t i = 0 \<or> length q = 2 \<and> pte_is_block (entry fa' t i) \<and> leaf_ok (entry fa' t i)"
    if "tab q = Some t" "length q < 3" "i < 512" "tab (q @ [i]) = None" for q i t
    using d(8)[OF that] assms(2)[OF that(1,3)] by simp
  have c6: "leaf_ok (entry fa' t i)" if a: "tab q = Some t" "length q = 3" "i < 512" "pte_is_table (entry fa' t i)" for q t i
    using d(9)[OF a(1-3)] assms(2)[OF a(1,3)] a(4) by simp
  show ?thesis unfolding pt_ok_def using d(1-5) c4 c5 c6 by (intro conjI allI impI) blast+
qed

lemma pt_ok_mono:
  assumes "pt_ok fa T pgd tab" "\<And>q t. tab q = Some t \<Longrightarrow> (t, 0) \<in># al"
  shows "pt_ok fa al pgd tab"
  using assms unfolding pt_ok_def by blast

definition space_inv :: "(Pool \<Rightarrow> nat set) \<Rightarrow> nat \<Rightarrow> FrameAllocator \<Rightarrow> (nat \<times> nat) multiset \<Rightarrow> bool" where
  "space_inv U pgd fa oth \<longleftrightarrow> (\<exists>T tab. frames_inv U fa (oth + T) \<and> pt_ok fa T pgd tab) \<and>
     (\<forall>va e. translate fa pgd va = Some e \<longrightarrow> \<not> pte_is_block e)"

lemma walk_tab_cong:
  assumes "\<And>q t i. tab q = Some t \<Longrightarrow> i < 512 \<Longrightarrow> entry fa' t i = entry fa t i"
  shows "walk_tab fa' tab va = walk_tab fa tab va"
  using assms by (simp add: walk_tab_def split: option.split)

text \<open>A table is never one of the blocks of others.\<close>

lemma table_not_other:
  assumes "frames_inv U fa (oth + T)" "(t, 0) \<in># T" "blk \<in># oth"
  shows "blk \<noteq> (t, 0)" "bytes_of blk \<inter> bytes_of (t, 0) = {}"
proof -
  obtain o1 where o: "oth = add_mset blk o1" using assms(3) by (auto dest: multi_member_split)
  obtain T1 where T: "T = add_mset (t, 0) T1" using assms(2) by (auto dest: multi_member_split)
  have "frames_inv U fa (add_mset blk (add_mset (t, 0) (o1 + T1)))" using assms(1) o T by (simp add: add_mset_commute)
  then show d: "bytes_of blk \<inter> bytes_of (t, 0) = {}" by (rule frames_inv_disjoint)
  show "blk \<noteq> (t, 0)" using d by (auto simp: bytes_of_def PAGE_SIZE_def)
qed

lemma map_user_page_cases:
  assumes "map_user_page va pa flags sp g = Some (sp', g')"
  shows "vm_contains flags VM_USER" "va < 2 ^ 48" "PAGE_SIZE dvd pa" "pgd_phys sp' = pgd_phys sp"
    "map_page_dmap (pgd_phys sp) va pa MAIR_NORMAL_WB_IDX flags g = Some g'"
proof -
  have m: "n AND (PAGE_SIZE - 1) = n mod PAGE_SIZE" for n
    using take_bit_eq_mask[of 12 n] by (simp add: take_bit_eq_mod mask_eq_exp_minus_1 PAGE_SIZE_def)
  have "va < 0x0001000000000000 \<longleftrightarrow> va < 2 ^ 48" by simp
  then show "vm_contains flags VM_USER" "va < 2 ^ 48" "PAGE_SIZE dvd pa" "pgd_phys sp' = pgd_phys sp"
    "map_page_dmap (pgd_phys sp) va pa MAIR_NORMAL_WB_IDX flags g = Some g'"
    using assms unfolding map_user_page_def m by (auto simp: mod_eq_0_iff_dvd split: if_splits option.splits)
qed

lemma space_map_ok:
  assumes "ram48 U" "frames_inv U fa (oth + T)" "pt_ok fa T pgd tab" "pa < 2 ^ 48" "PAGE_SIZE dvd pa"
    and "map_page_dmap pgd va pa mair flags (Some fa) = Some g'" "\<forall>va e. translate fa pgd va = Some e \<longrightarrow> \<not> pte_is_block e"
  obtains fa' e where "g' = Some fa'" "new_page pa mair flags = Some e" "space_inv U pgd fa' oth"
    "\<And>va'. translate fa' pgd va' = (if va_page va' = va_page va then Some e else translate fa pgd va')"
    "\<And>blk w. blk \<in># oth \<Longrightarrow> w \<in> bytes_of blk \<Longrightarrow> fa_read w fa' = fa_read w fa"
proof -
  have ok: "pt_ok fa (oth + T) pgd tab" using pt_ok_mono[OF assms(3)] pt_okD(3)[OF assms(3)] by simp
  obtain fa' al' tab' e where m: "g' = Some fa'" "new_page pa mair flags = Some e" "frames_inv U fa' al'" "pt_ok fa' al' pgd tab'"
    "oth + T \<subseteq># al'" "\<And>va'. translate fa' pgd va' = (if va_page va' = va_page va then Some e else translate fa pgd va')"
    "\<And>blk w. blk \<in># oth + T \<Longrightarrow> w \<in> bytes_of blk \<Longrightarrow> \<forall>q. tab q = Some (fst blk) \<longrightarrow> snd blk \<noteq> 0 \<Longrightarrow> fa_read w fa' = fa_read w fa"
    "tab \<subseteq>\<^sub>m tab'" "\<And>q s. tab' q = Some s \<Longrightarrow> tab q = Some s \<or> (s, 0) \<notin># oth + T"
    by (rule map_page_ok[OF assms(2,1) ok assms(6,4,5)]) (rule that; assumption)
  obtain N where N: "al' = oth + (T + N)" using m(5) by (auto simp: subset_mset.le_iff_add ac_simps)
  have "(s, 0) \<in># T + N" if "tab' q = Some s" for q s
    using m(9)[OF that] pt_okD(3)[OF m(4) that] pt_okD(3)[OF assms(3), of q s] N by auto
  then have "pt_ok fa' (T + N) pgd tab'" using pt_ok_mono[OF m(4)] by blast
  moreover have "\<not> pte_is_block e" using new_page_spec(2)[OF m(2) assms(4,5)] block_not_table by blast
  then have "\<forall>va e. translate fa' pgd va = Some e \<longrightarrow> \<not> pte_is_block e" using m(6) assms(7) by auto
  ultimately have inv: "space_inv U pgd fa' oth" using m(3) N unfolding space_inv_def by blast
  have "fa_read w fa' = fa_read w fa" if "blk \<in># oth" "w \<in> bytes_of blk" for blk w
  proof (rule m(7)[of blk w])
    have "tab q = Some (fst blk) \<Longrightarrow> snd blk \<noteq> 0" for q
      using table_not_other(1)[OF assms(2) pt_okD(3)[OF assms(3)] that(1), of q "fst blk"] by (cases blk) auto
    then show "\<forall>q. tab q = Some (fst blk) \<longrightarrow> snd blk \<noteq> 0" by blast
  qed (use that in simp_all)
  then show thesis by (rule that[OF m(1,2) inv m(6)])
qed


lemma space_inv_keep:
  assumes "space_inv U pgd fa oth" "\<And>T tab. frames_inv U fa (oth + T) \<Longrightarrow> pt_ok fa T pgd tab \<Longrightarrow>
      frames_inv U fa' (oth' + T) \<and> (\<forall>t i. (t, 0) \<in># T \<and> i < 512 \<longrightarrow> entry fa' t i = entry fa t i)"
  shows "space_inv U pgd fa' oth'"
proof -
  obtain T tab where t: "frames_inv U fa (oth + T)" "pt_ok fa T pgd tab" using assms(1) by (auto simp: space_inv_def)
  note k = assms(2)[OF t]
  have e: "\<And>q t i. tab q = Some t \<Longrightarrow> i < 512 \<Longrightarrow> entry fa' t i = entry fa t i" using k pt_okD(3)[OF t(2)] by blast
  have ok: "pt_ok fa' T pgd tab" by (rule pt_ok_cong[OF t(2) e])
  have "translate fa' pgd va = translate fa pgd va" for va
    unfolding translate_tab[OF ok] translate_tab[OF t(2)] by (rule walk_tab_cong[OF e])
  then show ?thesis using k ok assms(1) by (auto simp: space_inv_def)
qed

lemma entry_keeps: "fa_read (t + i * 8) fa' = fa_read (t + i * 8) fa \<Longrightarrow> entry fa' t i = entry fa t i"
  by (simp add: entry_def)

lemma space_create_inv:
  assumes "frames_inv U fa oth" "ram48 U" "create_user_address_space aa (Some fa) = Some (sp, fl, aa', Some fa')"
  shows "space_inv U (pgd_phys sp) fa' oth"
proof -
  let ?t = "pgd_phys sp"
  obtain fa1 where a: "fa_alloc_pages PoolKernel 0 fa = (Some ?t, fa1)" "zero_pages ?t 0 (Some fa1) = Some fa'"
    using assms(3) by (auto simp: create_user_address_space_def alloc_page_def fa_alloc_page_def split: prod.splits option.splits)
  have fa': "fa' = fold (\<lambda>i. fa_write (?t + i * 8) 0) [0..<512] fa1" using a(2) by (simp add: zero_pages_Some PAGE_SIZE_def)
  have i1: "frames_inv U fa1 (add_mset (?t, 0) oth)" using frames_inv_alloc[OF assms(1) a(1)] by simp
  have i2: "frames_inv U fa' (add_mset (?t, 0) oth)" unfolding fa' using zero_fold_inv[OF i1, of ?t 0 512] by (simp add: PAGE_SIZE_def)
  have e: "entry fa' ?t j = 0" if "j < 512" for j unfolding fa' using zero_table_entry[OF i1 _ _ that, of ?t ?t] by simp
  have "?t < 2 ^ 48 \<and> PAGE_SIZE dvd ?t" using frames_block_start[OF i1 _ assms(2), of "(?t, 0)"] by simp
  then have ok: "pt_ok fa' {#(?t, 0)#} ?t [[] \<mapsto> ?t]" using e by (auto simp: pt_ok_def split: if_splits)
  moreover have "translate fa' ?t va = None" for va unfolding translate_tab[OF ok] by (simp add: walk_tab_def)
  moreover have "frames_inv U fa' (oth + {#(?t, 0)#})" using i2 by simp
  ultimately show ?thesis unfolding space_inv_def by (metis option.distinct(1))
qed

lemma space_run_inv:
  assumes "space_run U sp fa oth" "ram48 U"
  shows "space_inv U (pgd_phys sp) fa oth"
  using assms(1)
proof (induction rule: space_run.induct)
  case (space_create fa oth aa sp fl aa' fa')
  then show ?case using space_create_inv assms(2) by blast
next
  case (space_map sp fa oth pa va flags sp' fa')
  obtain T tab where t: "frames_inv U fa (oth + T)" "pt_ok fa T (pgd_phys sp) tab"
    "\<forall>va e. translate fa (pgd_phys sp) va = Some e \<longrightarrow> \<not> pte_is_block e" using space_map.IH by (auto simp: space_inv_def)
  note m = map_user_page_cases[OF space_map.hyps(3)]
  show ?case using space_map_ok[OF assms(2) t(1,2) space_map.hyps(2) m(3,5) t(3)] m(4) by auto
next
  case (space_alloc sp fa oth p order a fa')
  show ?case
  proof (rule space_inv_keep[OF space_alloc.IH])
    fix T tab assume t: "frames_inv U fa (oth + T)" "pt_ok fa T (pgd_phys sp) tab"
    have "entry fa' s i = entry fa s i" if "(s, 0) \<in># T" "i < 512" for s i
      by (rule entry_keeps, rule frames_alloc_keeps[OF t(1) space_alloc.hyps(2) _ slot_in_table[OF that(2)]]) (simp add: that(1))
    then show "frames_inv U fa' (add_mset (a, order) oth + T) \<and> (\<forall>t i. (t, 0) \<in># T \<and> i < 512 \<longrightarrow> entry fa' t i = entry fa t i)"
      using frames_inv_alloc[OF t(1) space_alloc.hyps(2)] by simp
  qed
next
  case (space_free sp fa a order oth fa')
  show ?case
  proof (rule space_inv_keep[OF space_free.IH])
    fix T tab assume t: "frames_inv U fa (add_mset (a, order) oth + T)" "pt_ok fa T (pgd_phys sp) tab"
    have inv: "frames_inv U fa (add_mset (a, order) (oth + T))" using t(1) by simp
    have "entry fa' s i = entry fa s i" if "(s, 0) \<in># T" "i < 512" for s i
      by (rule entry_keeps, rule frames_free_keeps[OF inv space_free.hyps(2) _ slot_in_table[OF that(2)]]) (simp add: that(1))
    then show "frames_inv U fa' (oth + T) \<and> (\<forall>t i. (t, 0) \<in># T \<and> i < 512 \<longrightarrow> entry fa' t i = entry fa t i)"
      using frames_inv_free[OF inv space_free.hyps(2)] by simp
  qed
next
  case (space_write sp fa oth blk w v)
  show ?case
  proof (rule space_inv_keep[OF space_write.IH])
    fix T tab assume t: "frames_inv U fa (oth + T)" "pt_ok fa T (pgd_phys sp) tab"
    have "frames_inv U (fa_write w v fa) (oth + T)" by (rule frames_inv_write[OF t(1) _ space_write.hyps(3)]) (simp add: space_write.hyps(2))
    moreover have "entry (fa_write w v fa) s i = entry fa s i" if "(s, 0) \<in># T" "i < 512" for s i
      using fa_write_read_other[of "s + i * 8" w v fa] table_not_other(2)[OF t(1) that(1) space_write.hyps(2)]
        slot_in_table[OF that(2), of s] space_write.hyps(3) by (intro entry_keeps) blast
    ultimately show "frames_inv U (fa_write w v fa) (oth + T) \<and>
        (\<forall>t i. (t, 0) \<in># T \<and> i < 512 \<longrightarrow> entry (fa_write w v fa) t i = entry fa t i)" by blast
  qed
qed


text \<open>
  C4. Mapping a page does exactly that: in every state an address space can reach while others use the
  pools, \<open>map_user_page\<close> makes the hardware walk of \<open>va\<close> end in \<open>pa\<close> with the permissions asked for and
  user access, changes the translation of no other page, and leaves the contents of every block that
  others hold alone.
\<close>

theorem user_mapping_exact:
  assumes "ram48 U" "space_run U sp fa oth" "pa < 2 ^ 48" "map_user_page va pa flags sp (Some fa) = Some (sp', g')"
  shows "\<exists>fa' e. g' = Some fa' \<and> translate fa' (pgd_phys sp') va = Some e \<and> pte_phys_addr e = pa \<and> pte_is_user e \<and>
    (pte_is_writable e \<longleftrightarrow> vm_contains flags VM_WRITE) \<and> (pte_is_executable e \<longleftrightarrow> vm_contains flags VM_EXECUTE) \<and>
    (\<forall>va'. va_page va' \<noteq> va_page va \<longrightarrow> translate fa' (pgd_phys sp') va' = translate fa (pgd_phys sp) va') \<and>
    (\<forall>blk\<in>#oth. \<forall>w\<in>bytes_of blk. fa_read w fa' = fa_read w fa)"
proof -
  obtain T tab where t: "frames_inv U fa (oth + T)" "pt_ok fa T (pgd_phys sp) tab"
    "\<forall>va e. translate fa (pgd_phys sp) va = Some e \<longrightarrow> \<not> pte_is_block e"
    using space_run_inv[OF assms(2,1)] by (auto simp: space_inv_def)
  note m = map_user_page_cases[OF assms(4)]
  obtain fa' e where r: "g' = Some fa'" "new_page pa MAIR_NORMAL_WB_IDX flags = Some e" "space_inv U (pgd_phys sp) fa' oth"
    "\<And>va'. translate fa' (pgd_phys sp) va' = (if va_page va' = va_page va then Some e else translate fa (pgd_phys sp) va')"
    "\<And>blk w. blk \<in># oth \<Longrightarrow> w \<in> bytes_of blk \<Longrightarrow> fa_read w fa' = fa_read w fa"
    by (rule space_map_ok[OF assms(1) t(1,2) assms(3) m(3,5) t(3)]) (rule that; assumption)
  show ?thesis using r new_page_spec[OF r(2) assms(3) m(3)] m(1,4) by auto
qed


section \<open>Mapping succeeds while three pages are free\<close>

lemma ensure_table_progress:
  assumes "frames_inv U fa al" "pt_ok fa al pgd tab" "tab p = Some t" "length p < 3" "i < 512" "\<not> pte_is_block (entry fa t i)"
    and "0 < pool_free_pages fa PoolKernel"
  obtains t' fa' where "ensure_table_dmap t i (Some fa) = Some (t', Some fa')" "pool_free_pages fa PoolKernel \<le> Suc (pool_free_pages fa' PoolKernel)"
proof -
  note tal = pt_okD(3)[OF assms(2,3)]
  obtain v where v: "fa_read (t + i * 8) fa = Some v"
    by (rule owned_read[OF assms(1) tal slot_in_table[OF assms(5)]])
  then have e: "entry fa t i = word_of_nat v" by (simp add: entry_def)
  show thesis
  proof (cases "entry fa t i = 0")
    case False
    have "pte_is_table (entry fa t i)"
      using pt_okD(8)[OF assms(2-5)] pt_okD(6)[OF assms(2) _ assms(3)] False assms(6) new_table_spec(2) pt_okD(4)[OF assms(2)]
      by (cases "tab (p @ [i])") auto
    then have "ensure_table_dmap t i (Some fa) = Some (unat (entry fa t i AND PHYS_MASK), Some fa)"
      using v False unfolding e by (simp add: ensure_table_dmap_def ram_read_def pte_is_table_def Let_def)
    then show thesis by (rule that) simp
  next
    case True
    obtain t' fa1 where a: "fa_alloc_pages PoolKernel 0 fa = (Some t', fa1)" "pool_free_pages fa PoolKernel = Suc (pool_free_pages fa1 PoolKernel)"
      by (rule kernel_page_free[OF assms(1,7)])
    have "ensure_table_dmap t i (Some fa) =
        Some (t', Some (fa_write (t + i * 8) (unat (new_table t')) (fold (\<lambda>i. fa_write (t' + i * 8) 0) [0..<512] fa1)))"
      using v True unfolding e
      by (simp add: ensure_table_dmap_def ram_read_def alloc_page_def fa_alloc_page_def a(1) zero_pages_Some ram_write_def PAGE_SIZE_def Let_def)
    then show thesis by (rule that) (simp add: a(2))
  qed
qed


lemma map_page_progress:
  assumes inv: "frames_inv U fa al" "ram48 U" and ok: "pt_ok fa al pgd tab"
    and nb: "\<forall>va e. translate fa pgd va = Some e \<longrightarrow> \<not> pte_is_block e" and "wx_ok flags" "3 \<le> pool_free_pages fa PoolKernel"
  shows "\<exists>fa'. map_page_dmap pgd va pa mair flags (Some fa) = Some (Some fa')"
proof -
  let ?a = "l0_index va" and ?b = "l1_index va" and ?c = "l2_index va"
  have no_block: "\<not> pte_is_block (entry fa' t i)"
    if "pt_ok fa' al' pgd tab'" "tab' p = Some t" "length p < 2" "i < 512" for fa' al' tab' p t i
    using step_table[OF that] block_not_table pt_okD(8)[OF that(1,2) _ that(4)] that(3) by (cases "tab' (p @ [i])") auto
  obtain t1 fa1 where s1: "ensure_table_dmap pgd ?a (Some fa) = Some (t1, Some fa1)" "pool_free_pages fa PoolKernel \<le> Suc (pool_free_pages fa1 PoolKernel)"
    by (rule ensure_table_progress[OF inv(1) ok pt_okD(1)[OF ok], of ?a]) (use no_block[OF ok pt_okD(1)[OF ok]] assms(6) in auto)
  obtain fa1' al1 tab1 where 1: "Some fa1 = Some fa1'" "frames_inv U fa1' al1" "pt_ok fa1' al1 pgd tab1" "tab1 ([] @ [?a]) = Some t1"
    "\<And>va. translate fa1' pgd va = translate fa pgd va"
    by (rule ensure_table_ok[OF inv ok pt_okD(1)[OF ok] _ _ s1(1)]) simp_all
  have i1: "frames_inv U fa1 al1" "pt_ok fa1 al1 pgd tab1" "tab1 [?a] = Some t1" using 1 by simp_all
  obtain t2 fa2 where s2: "ensure_table_dmap t1 ?b (Some fa1) = Some (t2, Some fa2)" "pool_free_pages fa1 PoolKernel \<le> Suc (pool_free_pages fa2 PoolKernel)"
    by (rule ensure_table_progress[OF i1, of ?b]) (use no_block[OF i1(2,3)] s1(2) assms(6) in auto)
  obtain fa2' al2 tab2 where 2: "Some fa2 = Some fa2'" "frames_inv U fa2' al2" "pt_ok fa2' al2 pgd tab2" "tab2 ([?a] @ [?b]) = Some t2"
    "\<And>va. translate fa2' pgd va = translate fa1 pgd va"
    by (rule ensure_table_ok[OF i1(1) inv(2) i1(2,3) _ _ s2(1)]) simp_all
  have i2: "frames_inv U fa2 al2" "pt_ok fa2 al2 pgd tab2" "tab2 [?a, ?b] = Some t2" using 2 by simp_all
  have "\<not> pte_is_block (entry fa2 t2 ?c)"
  proof
    assume b: "pte_is_block (entry fa2 t2 ?c)"
    have "tab2 [?a, ?b, ?c] = None" using step_table2[OF i2(2,3), of ?c] b by (cases "tab2 [?a, ?b, ?c]") auto
    then have "translate fa2 pgd va = Some (entry fa2 t2 ?c)" using b i2(3) by (simp add: translate_tab[OF i2(2)] walk_tab_def)
    then show False using b nb 1(1) 1(5)[of va] 2(1) 2(5)[of va] by auto
  qed
  then obtain t3 fa3 where s3: "ensure_table_dmap t2 ?c (Some fa2) = Some (t3, Some fa3)"
    by (rule ensure_table_progress[OF i2, of ?c, rotated 2]) (use s1(2) s2(2) assms(6) in auto)
  obtain e where "new_page pa mair flags = Some e" using new_page_None[of pa mair flags] assms(5) by auto
  then show ?thesis using s1(1) s2(1) s3 by (simp add: map_page_dmap_def ram_write_def)
qed


text \<open>
  C14. Mapping does not fail for lack of anything but memory: for page-aligned addresses, a virtual address
  below \<open>2\<^sup>48\<close> and user flags that are not both writable and executable, \<open>map_user_page\<close> returns whenever
  three pages of the kernel pool are free.
\<close>

theorem user_mapping_succeeds:
  assumes "ram48 U" "space_run U sp fa oth" "3 \<le> pool_free_pages fa PoolKernel"
    and "vm_contains flags VM_USER" "wx_ok flags" "va < 2 ^ 48" "PAGE_SIZE dvd va" "PAGE_SIZE dvd pa"
  shows "\<exists>sp' fa'. map_user_page va pa flags sp (Some fa) = Some (sp', Some fa')"
proof -
  obtain T tab where t: "frames_inv U fa (oth + T)" "pt_ok fa T (pgd_phys sp) tab"
    "\<forall>va e. translate fa (pgd_phys sp) va = Some e \<longrightarrow> \<not> pte_is_block e"
    using space_run_inv[OF assms(2,1)] by (auto simp: space_inv_def)
  have ok: "pt_ok fa (oth + T) (pgd_phys sp) tab" using pt_ok_mono[OF t(2)] pt_okD(3)[OF t(2)] by simp
  obtain fa' where "map_page_dmap (pgd_phys sp) va pa MAIR_NORMAL_WB_IDX flags (Some fa) = Some (Some fa')"
    using map_page_progress[OF t(1) assms(1) ok t(3) assms(5,3)] by blast
  moreover have "n AND (PAGE_SIZE - 1) = n mod PAGE_SIZE" for n
    using take_bit_eq_mask[of 12 n] by (simp add: take_bit_eq_mod mask_eq_exp_minus_1 PAGE_SIZE_def)
  moreover have "va < 0x0001000000000000" using assms(6) by simp
  ultimately show ?thesis using assms(4,7,8) unfolding map_user_page_def by (simp add: mod_eq_0_iff_dvd)
qed

subsection \<open>A concrete address space\<close>

text \<open>A kernel pool of eight pages, the first of which holds the bitmap.\<close>

definition demo8_config :: PoolConfig where
  "demo8_config = \<lparr>cfg_kernel = 0x8000, cfg_model = 0, cfg_user = 0, cfg_dma = 0, cfg_reserved = 0\<rparr>"

definition demo8 :: FrameAllocator where
  "demo8 = boot_frames (\<lambda>_. 0) (\<lambda>_. 0) 0x100000 0x108000 demo8_config (0, 0) (0, 0) 8"

abbreviation demo8_pages :: "Pool \<Rightarrow> nat set" where
  "demo8_pages \<equiv> boot_pages 0x100000 0x108000 demo8_config (0, 0) (0, 0)"

lemma demo8_bounds: "pool_bounds 0x100000 0x108000 demo8_config = (0x100000, 0x108000, 0x108000, 0x108000)"
  by (simp add: pool_bounds_def demo8_config_def)

lemma demo8_inv: "frames_inv demo8_pages demo8 {#}"
  unfolding demo8_def by (rule frames_inv_boot) (simp add: layout_ok_def demo8_config_def PAGE_SIZE_def excl_ok_def)

lemma demo8_bitmap: "bitmap_page_count 0x100000 0x108000 = 1"
  by (simp add: bitmap_page_count_def MAX_ORDER_def PAGE_SIZE_def div_ceil_def Let_def upt_rec)

lemma demo8_pages_eq: "demo8_pages PoolKernel = pool_pages 0x100000 0x108000 (0, 0) (0, 0)" "p \<noteq> PoolKernel \<Longrightarrow> demo8_pages p = {}"
  by (simp_all add: boot_pages_def demo8_bounds new_pool_pages_def split: Pool.split)

lemma demo8_page_set: "x \<in> pool_pages 0x100000 0x108000 (0, 0) (0, 0) \<longleftrightarrow> 0x101000 \<le> x \<and> x + PAGE_SIZE \<le> 0x108000 \<and> PAGE_SIZE dvd x"
  by (auto simp: pool_pages_def usable_def demo8_bitmap PAGE_SIZE_def)

lemma demo8_ram: "ram48 demo8_pages"
proof -
  have "x < 2 ^ 48" if "x \<in> demo8_pages p" for x p
    using that demo8_pages_eq demo8_page_set[of x] by (cases p) auto
  then show ?thesis by (simp add: ram48_def)
qed

lemma demo8_free: "4 \<le> pool_free_pages demo8 PoolKernel"
proof -
  have u: "(\<Union>p. demo8_pages p) = pool_pages 0x100000 0x108000 (0, 0) (0, 0)"
    using demo8_pages_eq by (auto split: if_splits) (metis empty_iff)
  have "{0x101000, 0x102000, 0x103000, 0x104000} \<subseteq> pool_pages 0x100000 0x108000 (0, 0) (0, 0)"
    by (simp add: demo8_page_set PAGE_SIZE_def)
  moreover have "finite (pool_pages 0x100000 0x108000 (0, 0) (0, 0))"
    by (rule finite_subset[of _ "{..0x108000}"]) (auto simp: demo8_page_set)
  ultimately have "card {0x101000, 0x102000, 0x103000, 0x104000 :: nat} \<le> card (pool_pages 0x100000 0x108000 (0, 0) (0, 0))"
    by (intro card_mono)
  moreover have "pools_total_free (pools demo8) = card (pool_pages 0x100000 0x108000 (0, 0) (0, 0))"
    using frames_inv_accounting[OF demo8_inv] u by simp
  moreover have "pools_total_free (pools demo8) = pool_free_pages demo8 PoolKernel"
    by (simp add: pools_total_free_def pool_free_pages_def get_pool_def demo8_def boot_frames_def pools_init_def demo8_bounds
        new_pool_def buddy_new_def)
  ultimately show ?thesis by simp
qed

lemma demo8_space:
  obtains sp fa where "space_run demo8_pages sp fa {#}" "3 \<le> pool_free_pages fa PoolKernel"
proof -
  obtain t fa where a: "fa_alloc_pages PoolKernel 0 demo8 = (Some t, fa)" "pool_free_pages demo8 PoolKernel = Suc (pool_free_pages fa PoolKernel)"
    by (rule kernel_page_free[OF demo8_inv]) (use demo8_free in auto)
  let ?fa = "fold (\<lambda>i. fa_write (t + i * 8) 0) [0..<512] fa"
  obtain asid fl aa where "asid_alloc asid_new = ((asid, fl), aa)" by (metis prod.exhaust)
  then obtain sp where "create_user_address_space asid_new (Some demo8) = Some (sp, fl, aa, Some ?fa)"
    using a(1) by (simp add: create_user_address_space_def alloc_page_def fa_alloc_page_def zero_pages_Some PAGE_SIZE_def)
  from space_create[OF demo8_inv this] show thesis using that demo8_free a(2) by simp
qed

lemma demo8_flags: "vm_contains (VM_READ OR VM_WRITE OR VM_USER) VM_USER" "wx_ok (VM_READ OR VM_WRITE OR VM_USER)"
  "vm_contains (VM_READ OR VM_WRITE OR VM_USER) VM_WRITE"
  by (simp_all add: vm_contains_def wx_ok_def VM_READ_def VM_WRITE_def VM_USER_def VM_EXECUTE_def)

theorem user_mapping_succeeds_witness:
  "\<exists>sp fa sp' fa'. space_run demo8_pages sp fa {#} \<and>
     map_user_page 0x400000 0x200000 (VM_READ OR VM_WRITE OR VM_USER) sp (Some fa) = Some (sp', Some fa')"
proof -
  obtain sp fa where s: "space_run demo8_pages sp fa {#}" "3 \<le> pool_free_pages fa PoolKernel" by (rule demo8_space)
  then show ?thesis
    using user_mapping_succeeds[OF demo8_ram s demo8_flags(1,2), of "0x400000" "0x200000"] by (auto simp: PAGE_SIZE_def)
qed


lemma demo8_mapped:
  obtains sp fa sp' fa' e where "space_run demo8_pages sp fa {#}" "space_run demo8_pages sp' fa' {#}"
    "map_user_page 0x400000 0x200000 (VM_READ OR VM_WRITE OR VM_USER) sp (Some fa) = Some (sp', Some fa')"
    "translate fa' (pgd_phys sp') 0x400000 = Some e" "pte_is_writable e"
proof -
  obtain sp fa where s: "space_run demo8_pages sp fa {#}" "3 \<le> pool_free_pages fa PoolKernel" by (rule demo8_space)
  obtain T tab where t: "frames_inv demo8_pages fa ({#} + T)" "pt_ok fa ({#} + T) (pgd_phys sp) tab"
    "\<forall>va e. translate fa (pgd_phys sp) va = Some e \<longrightarrow> \<not> pte_is_block e"
    using space_run_inv[OF s(1) demo8_ram] by (auto simp: space_inv_def)
  have pa: "(0x200000 :: nat) < 2 ^ 48" "PAGE_SIZE dvd (0x200000 :: nat)" by (simp_all add: PAGE_SIZE_def)
  obtain fa' where m: "map_page_dmap (pgd_phys sp) 0x400000 0x200000 MAIR_NORMAL_WB_IDX (VM_READ OR VM_WRITE OR VM_USER) (Some fa) = Some (Some fa')"
    using map_page_progress[OF t(1) demo8_ram t(2,3) demo8_flags(2) s(2), of "0x400000" "0x200000" MAIR_NORMAL_WB_IDX] by blast
  then obtain sp' where r: "map_user_page 0x400000 0x200000 (VM_READ OR VM_WRITE OR VM_USER) sp (Some fa) = Some (sp', Some fa')"
    using demo8_flags(1) by (simp add: map_user_page_def PAGE_SIZE_def)
  obtain fa2 e where e: "Some fa' = Some fa2" "new_page 0x200000 MAIR_NORMAL_WB_IDX (VM_READ OR VM_WRITE OR VM_USER) = Some e"
    "\<And>va'. translate fa2 (pgd_phys sp) va' = (if va_page va' = va_page 0x400000 then Some e else translate fa (pgd_phys sp) va')"
    by (rule space_map_ok[OF demo8_ram t(1) t(2)[unfolded add_0] pa m t(3)]) (rule that; assumption)
  have "space_run demo8_pages sp' fa' {#}" by (rule space_map[OF s(1) pa(1) r])
  then show thesis
    using that[OF s(1) _ r, of e] e(1) e(3)[of "0x400000"] new_page_spec(3)[OF e(2) pa] demo8_flags(3) map_user_page_cases(4)[OF r] by simp
qed

theorem user_mapping_exact_witness:
  "\<exists>sp fa sp' fa' e. map_user_page 0x400000 0x200000 (VM_READ OR VM_WRITE OR VM_USER) sp (Some fa) = Some (sp', Some fa') \<and>
     space_run demo8_pages sp fa {#} \<and> translate fa' (pgd_phys sp') 0x400000 = Some e \<and> pte_phys_addr e = 0x200000 \<and> pte_is_writable e"
proof -
  obtain sp fa sp' fa' where s: "space_run demo8_pages sp fa {#}"
    "map_user_page 0x400000 0x200000 (VM_READ OR VM_WRITE OR VM_USER) sp (Some fa) = Some (sp', Some fa')" by (rule demo8_mapped)
  have "(0x200000 :: nat) < 2 ^ 48" by simp
  from user_mapping_exact[OF demo8_ram s(1) this s(2)] obtain e where
    "translate fa' (pgd_phys sp') 0x400000 = Some e" "pte_phys_addr e = 0x200000" "pte_is_writable e" using demo8_flags(3) by auto
  then show ?thesis using s by blast
qed


end
