(* ===== verification/Kernel_Map.thy ===== *)
theory Kernel_Map
  imports Page_Table
begin

text \<open>
  The kernel's own address space (\<open>kernel/src/mm/kmap.rs\<close>): the sections of the kernel image in 4 KiB
  pages, the direct map of RAM and the device window in 2 MiB blocks. The tables come from the kernel
  pool; \<open>None\<close> is a panic. The linker script \<open>kernel/src/arch/aarch64/linker.ld\<close> fixes what
  \<open>sections_ok\<close> says of the section boundaries. The invariant counts the table pages that are still
  needed, so that the construction is shown to return and to give exactly the intended map.
\<close>

section \<open>Mapping functions\<close>

definition BLOCK_2M :: nat where "BLOCK_2M = 2 * 1024 * 1024"

definition ensure_table :: "nat \<Rightarrow> nat \<Rightarrow> FrameAllocator option \<Rightarrow> (nat \<times> FrameAllocator option) option" where
  "ensure_table table_phys index g =
     (case ram_read (table_phys + index * 8) g of
        None \<Rightarrow> None
      | Some v \<Rightarrow>
          let raw = word_of_nat v :: u64 in
          if raw \<noteq> 0 then
            if raw AND (PTE_VALID OR PTE_TABLE) = (PTE_VALID OR PTE_TABLE)
            then Some (unat (raw AND PHYS_MASK), g) else None
          else
            (case alloc_page g of
               (None, _) \<Rightarrow> None
             | (Some new_pg, g1) \<Rightarrow>
                 Some (new_pg, ram_write (table_phys + index * 8) (unat (new_table new_pg)) (zero_pages new_pg 0 g1))))"

definition map_page ::
  "nat \<Rightarrow> nat \<Rightarrow> nat \<Rightarrow> u64 \<Rightarrow> VmFlags \<Rightarrow> FrameAllocator option \<Rightarrow> FrameAllocator option option" where
  "map_page pgd va pa mair_idx flags g = do {
     (l1, g1) \<leftarrow> ensure_table pgd (l0_index va) g;
     (l2, g2) \<leftarrow> ensure_table l1 (l1_index va) g1;
     (l3, g3) \<leftarrow> ensure_table l2 (l2_index va) g2;
     pte \<leftarrow> new_page pa mair_idx flags;
     Some (ram_write (l3 + l3_index va * 8) (unat pte) g3)
   }"

definition map_block_2m ::
  "nat \<Rightarrow> nat \<Rightarrow> nat \<Rightarrow> u64 \<Rightarrow> VmFlags \<Rightarrow> FrameAllocator option \<Rightarrow> FrameAllocator option option" where
  "map_block_2m pgd va pa mair_idx flags g =
     (if va AND (BLOCK_2M - 1) \<noteq> 0 then None
      else do {
        (l1, g1) \<leftarrow> ensure_table pgd (l0_index va) g;
        (l2, g2) \<leftarrow> ensure_table l1 (l1_index va) g1;
        pte \<leftarrow> new_block_2m pa mair_idx flags;
        Some (ram_write (l2 + l2_index va * 8) (unat pte) g2)
      })"

function map_pages_loop ::
  "nat \<Rightarrow> nat \<Rightarrow> nat \<Rightarrow> nat \<Rightarrow> u64 \<Rightarrow> VmFlags \<Rightarrow> FrameAllocator option \<Rightarrow> FrameAllocator option option" where
  "map_pages_loop pgd va en pa mair_idx flags g =
     (if va < en then
        (case map_page pgd va pa mair_idx flags g of
           None \<Rightarrow> None
         | Some g' \<Rightarrow> map_pages_loop pgd (va + PAGE_SIZE) en (pa + PAGE_SIZE) mair_idx flags g')
      else Some g)"
  by pat_completeness auto
termination by (relation "measure (\<lambda>(_, va, en, _). en - va)") (auto simp: PAGE_SIZE_def)

declare map_pages_loop.simps [simp del]

text \<open>The sums do not wrap where the theorems use them: \<open>va_end\<close> is at most \<open>2\<^sup>64 - 2\<^sup>21\<close> there.\<close>

definition map_range_4k ::
  "nat \<Rightarrow> nat \<Rightarrow> nat \<Rightarrow> nat \<Rightarrow> u64 \<Rightarrow> VmFlags \<Rightarrow> FrameAllocator option \<Rightarrow> FrameAllocator option option" where
  "map_range_4k pgd va_start va_end pa_start mair_idx flags g =
     (let va = va_start div 0x1000 * 0x1000;
          pa = pa_start div 0x1000 * 0x1000;
          en = (va_end + 0xFFF) div 0x1000 * 0x1000
      in map_pages_loop pgd va en pa mair_idx flags g)"

function map_blocks_loop ::
  "nat \<Rightarrow> nat \<Rightarrow> nat \<Rightarrow> nat \<Rightarrow> u64 \<Rightarrow> VmFlags \<Rightarrow> FrameAllocator option \<Rightarrow> FrameAllocator option option" where
  "map_blocks_loop pgd va en pa mair_idx flags g =
     (if va < en then
        (case map_block_2m pgd va pa mair_idx flags g of
           None \<Rightarrow> None
         | Some g' \<Rightarrow> map_blocks_loop pgd (va + BLOCK_2M) en (pa + BLOCK_2M) mair_idx flags g')
      else Some g)"
  by pat_completeness auto
termination by (relation "measure (\<lambda>(_, va, en, _). en - va)") (auto simp: BLOCK_2M_def)

declare map_blocks_loop.simps [simp del]

definition map_range_2m ::
  "nat \<Rightarrow> nat \<Rightarrow> nat \<Rightarrow> nat \<Rightarrow> u64 \<Rightarrow> VmFlags \<Rightarrow> FrameAllocator option \<Rightarrow> FrameAllocator option option" where
  "map_range_2m pgd va_start va_end pa_start mair_idx flags g =
     (if va_start AND (BLOCK_2M - 1) \<noteq> 0 then None
      else if pa_start AND (BLOCK_2M - 1) \<noteq> 0 then None
      else
        let en = (va_end + BLOCK_2M - 1) div BLOCK_2M * BLOCK_2M
        in map_blocks_loop pgd va_start en pa_start mair_idx flags g)"

section \<open>The kernel address space\<close>

definition KERNEL_BASE :: nat where "KERNEL_BASE = 0xFFFF000000000000"
definition DIRECT_MAP_BASE :: nat where "DIRECT_MAP_BASE = 0xFFFF000100000000"
definition MMIO_BASE :: nat where "MMIO_BASE = 0xFFFF001000000000"
definition VIRT_PHYS_OFFSET :: u64 where "VIRT_PHYS_OFFSET = 0xFFFEFFFFC0000000"

definition virt_to_phys :: "nat \<Rightarrow> nat" where
  "virt_to_phys va = unat ((word_of_nat va :: u64) - VIRT_PHYS_OFFSET)"

text \<open>The section boundaries, which the linker defines.\<close>

record Sections =
  text_start :: nat
  text_end :: nat
  rodata_start :: nat
  rodata_end :: nat
  data_start :: nat
  data_end :: nat

definition init_kernel_address_space ::
  "Sections \<Rightarrow> nat \<Rightarrow> nat \<Rightarrow> FrameAllocator option \<Rightarrow> (nat \<times> FrameAllocator option) option" where
  "init_kernel_address_space s ram_start ram_size g =
     (case alloc_page g of
        (None, _) \<Rightarrow> None
      | (Some pgd, g0) \<Rightarrow> do {
          g1 \<leftarrow> map_range_4k pgd (text_start s) (text_end s) (virt_to_phys (text_start s)) MAIR_NORMAL_WB_IDX
                 (VM_READ OR VM_EXECUTE) (zero_pages pgd 0 g0);
          g2 \<leftarrow> map_range_4k pgd (rodata_start s) (rodata_end s) (virt_to_phys (rodata_start s)) MAIR_NORMAL_WB_IDX
                 VM_READ g1;
          g3 \<leftarrow> map_range_4k pgd (data_start s) (data_end s) (virt_to_phys (data_start s)) MAIR_NORMAL_WB_IDX
                 (VM_READ OR VM_WRITE) g2;
          g4 \<leftarrow> map_range_2m pgd (DIRECT_MAP_BASE + ram_start) (DIRECT_MAP_BASE + ram_start + ram_size) ram_start
                 MAIR_NORMAL_WB_IDX (VM_READ OR VM_WRITE) g3;
          g5 \<leftarrow> map_range_2m pgd MMIO_BASE (MMIO_BASE + 0x40000000) 0 MAIR_DEVICE_IDX (VM_READ OR VM_WRITE) g4;
          Some (pgd, g5)
        })"

section \<open>Page numbers and indices\<close>

lemma va_page_lt: "va_page va < 2 ^ 36"
  by (simp add: va_page_def)

lemma digit_div_mod:
  assumes "(a :: nat) < 512"
  shows "(a + 512 * x) div 512 = x" "(a + 512 * x) mod 512 = a"
  using assms by simp_all

lemma page_block: "va_page va div 512 = l2_index va + 512 * (l1_index va + 512 * l0_index va)"
  unfolding va_page_def va_page_digits by (rule digit_div_mod(1)[OF index_bounds(4)])

lemma page_indices:
  "l0_index va = va_page va div 2 ^ 27" "l1_index va = va_page va div 2 ^ 18 mod 512"
  "l2_index va = va_page va div 512 mod 512" "l3_index va = va_page va mod 512"
proof -
  note b = index_bounds[of va]
  have e2: "va_page va div 512 div 512 = l1_index va + 512 * l0_index va" unfolding page_block by (rule digit_div_mod(1)[OF b(3)])
  have e3: "va_page va div 512 div 512 div 512 = l0_index va" unfolding e2 by (rule digit_div_mod(1)[OF b(2)])
  show "l3_index va = va_page va mod 512" unfolding va_page_def va_page_digits by (rule digit_div_mod(2)[OF b(4), symmetric])
  show "l2_index va = va_page va div 512 mod 512" unfolding page_block by (rule digit_div_mod(2)[OF b(3), symmetric])
  have "l1_index va = va_page va div 512 div 512 mod 512" unfolding e2 by (rule digit_div_mod(2)[OF b(2), symmetric])
  then show "l1_index va = va_page va div 2 ^ 18 mod 512" by (simp add: div_mult2_eq[symmetric])
  show "l0_index va = va_page va div 2 ^ 27" using e3 by (simp add: div_mult2_eq[symmetric])
qed

lemma va_block_indices:
  "va_page va div 512 = va_page va' div 512 \<longleftrightarrow>
     [l0_index va, l1_index va] = [l0_index va', l1_index va'] \<and> l2_index va = l2_index va'"
proof
  show "va_page va div 512 = va_page va' div 512" if "[l0_index va, l1_index va] = [l0_index va', l1_index va'] \<and> l2_index va = l2_index va'"
    using that unfolding page_block by simp
  assume a: "va_page va div 512 = va_page va' div 512"
  have "va_page va div 2 ^ 27 = va_page va' div 2 ^ 27" "va_page va div 2 ^ 18 = va_page va' div 2 ^ 18"
    using arg_cong[OF a, of "\<lambda>n. n div 512"] arg_cong[OF a, of "\<lambda>n. n div 2 ^ 18"] by (simp_all add: div_mult2_eq[symmetric])
  then show "[l0_index va, l1_index va] = [l0_index va', l1_index va'] \<and> l2_index va = l2_index va'"
    using a by (simp add: page_indices)
qed

section \<open>A budget of tables\<close>

text \<open>
  \<open>P\<close> is the set of the table paths that the mappings may need. As long as the free pages cover the
  paths that have no table yet, no allocation fails.
\<close>

definition kmap_inv :: "(Pool \<Rightarrow> nat set) \<Rightarrow> nat list set \<Rightarrow> nat \<Rightarrow> FrameAllocator \<Rightarrow> (nat \<times> nat) multiset \<Rightarrow> (nat list \<Rightarrow> nat option) \<Rightarrow> bool" where
  "kmap_inv U P pgd fa al tab \<longleftrightarrow> ram48 U \<and> finite P \<and> frames_inv U fa al \<and> pt_ok fa al pgd tab \<and> dom tab \<subseteq> P \<and>
     card P \<le> pool_free_pages fa PoolKernel + card (dom tab)"

lemma ensure_table_eq: "ensure_table = ensure_table_dmap"
  by (intro ext) (simp add: ensure_table_def ensure_table_dmap_def)

lemma ensure_table_total:
  assumes inv: "kmap_inv U P pgd fa al tab" and t: "tab p = Some t" "length p < 3" "i < 512" "p @ [i] \<in> P"
    and nb: "\<not> pte_is_block (entry fa t i)"
  obtains t' fa' al' tab' where "ensure_table t i (Some fa) = Some (t', Some fa')" "kmap_inv U P pgd fa' al' tab'"
    "tab' (p @ [i]) = Some t'" "al \<subseteq># al'" "\<And>va. translate fa' pgd va = translate fa pgd va"
proof -
  have k: "ram48 U" "finite P" "frames_inv U fa al" "pt_ok fa al pgd tab" "dom tab \<subseteq> P"
    "card P \<le> pool_free_pages fa PoolKernel + card (dom tab)" using inv by (simp_all add: kmap_inv_def)
  have fin: "finite (dom tab)" by (rule finite_subset[OF k(5,2)])
  obtain t' fa' where e: "ensure_table_dmap t i (Some fa) = Some (t', Some fa')"
  proof (cases "tab (p @ [i])")
    case None
    then have "dom tab \<subset> P" using k(5) t(4) by auto
    then have "card (dom tab) < card P" by (rule psubset_card_mono[OF k(2)])
    then have "0 < pool_free_pages fa PoolKernel" using k(6) by simp
    then show thesis using ensure_table_progress[OF k(3,4) t(1-3) nb] that by blast
  next
    case (Some s)
    obtain v where v: "fa_read (t + i * 8) fa = Some v"
      by (rule owned_read[OF k(3) pt_okD(3)[OF k(4) t(1)] slot_in_table[OF t(3)]])
    then have e: "entry fa t i = word_of_nat v" by (simp add: entry_def)
    have "entry fa t i = new_table s" "s < 2 ^ 48 \<and> PAGE_SIZE dvd s" using pt_okD(6)[OF k(4) Some t(1)] pt_okD(4)[OF k(4) Some] by simp_all
    then have "entry fa t i \<noteq> 0" "pte_is_table (entry fa t i)" using new_table_spec by simp_all
    then show thesis using v that unfolding e by (simp add: ensure_table_dmap_def ram_read_def pte_is_table_def Let_def)
  qed
  obtain fa1 al' tab' where o: "Some fa' = Some fa1" "frames_inv U fa1 al'" "pt_ok fa1 al' pgd tab'" "tab' (p @ [i]) = Some t'"
    "al \<subseteq># al'" "\<And>va. translate fa1 pgd va = translate fa pgd va" "dom tab' = insert (p @ [i]) (dom tab)"
    "pool_free_pages fa PoolKernel = pool_free_pages fa1 PoolKernel + (if tab (p @ [i]) = None then 1 else 0)"
    by (rule ensure_table_ok[OF k(3,1,4) t(1-3) e]) simp_all
  have "card (dom tab') = card (dom tab) + (if tab (p @ [i]) = None then 1 else 0)"
    unfolding o(7) by (simp add: fin card_insert_if domIff)
  then have "kmap_inv U P pgd fa' al' tab'" using k o t(4) by (simp add: kmap_inv_def)
  then show thesis using that[of t' fa' al' tab'] e o by (simp add: ensure_table_eq)
qed

lemma upper_not_block:
  assumes "kmap_inv U P pgd fa al tab" "tab p = Some t" "length p < 2" "i < 512"
  shows "\<not> pte_is_block (entry fa t i)"
proof -
  have ok: "pt_ok fa al pgd tab" using assms(1) by (simp add: kmap_inv_def)
  show ?thesis using step_table[OF ok assms(2-4)] block_not_table pt_okD(8)[OF ok assms(2) _ assms(4)] assms(3)
    by (cases "tab (p @ [i])") auto
qed

text \<open>The two upper levels, shared by pages and blocks.\<close>

lemma upper_tables:
  assumes inv: "kmap_inv U P pgd fa al tab" and P: "[l0_index va] \<in> P" "[l0_index va, l1_index va] \<in> P"
  obtains t1 fa1 t2 fa2 al2 tab2 where "ensure_table pgd (l0_index va) (Some fa) = Some (t1, Some fa1)"
    "ensure_table t1 (l1_index va) (Some fa1) = Some (t2, Some fa2)" "kmap_inv U P pgd fa2 al2 tab2"
    "tab2 [l0_index va, l1_index va] = Some t2" "al \<subseteq># al2" "\<And>va'. translate fa2 pgd va' = translate fa pgd va'"
proof -
  let ?a = "l0_index va" and ?b = "l1_index va"
  have root: "tab [] = Some pgd" using inv pt_okD(1) by (auto simp: kmap_inv_def)
  have s0: "length ([] :: nat list) < 3" "[] @ [?a] \<in> P" "\<not> pte_is_block (entry fa pgd ?a)" using P(1) upper_not_block[OF inv root] by simp_all
  obtain t1 fa1 al1 tab1 where 1: "ensure_table pgd ?a (Some fa) = Some (t1, Some fa1)" "kmap_inv U P pgd fa1 al1 tab1"
    "tab1 ([] @ [?a]) = Some t1" "al \<subseteq># al1" "\<And>va. translate fa1 pgd va = translate fa pgd va"
    by (rule ensure_table_total[OF inv root s0(1) index_bounds(1) s0(2,3)]) (rule that; assumption)
  have t1: "tab1 [?a] = Some t1" using 1(3) by simp
  have s1: "length [?a] < 3" "[?a] @ [?b] \<in> P" "\<not> pte_is_block (entry fa1 t1 ?b)" using P(2) upper_not_block[OF 1(2) t1] by simp_all
  obtain t2 fa2 al2 tab2 where 2: "ensure_table t1 ?b (Some fa1) = Some (t2, Some fa2)" "kmap_inv U P pgd fa2 al2 tab2"
    "tab2 ([?a] @ [?b]) = Some t2" "al1 \<subseteq># al2" "\<And>va. translate fa2 pgd va = translate fa1 pgd va"
    by (rule ensure_table_total[OF 1(2) t1 s1(1) index_bounds(2) s1(2,3)]) (rule that; assumption)
  have "tab2 [?a, ?b] = Some t2" "al \<subseteq># al2" using 2(3) subset_mset.order_trans[OF 1(4) 2(4)] by simp_all
  then show thesis using that[OF 1(1) 2(1,2)] 1(5) 2(5) by simp
qed

lemma map_page_total:
  assumes inv: "kmap_inv U P pgd fa al tab"
    and P: "[l0_index va] \<in> P" "[l0_index va, l1_index va] \<in> P" "[l0_index va, l1_index va, l2_index va] \<in> P"
    and nb: "\<forall>va e. translate fa pgd va = Some e \<longrightarrow> \<not> pte_is_block e" and wx: "wx_ok flags" and pa: "pa < 2 ^ 48" "PAGE_SIZE dvd pa"
  obtains fa' al' tab' where "map_page pgd va pa mair flags (Some fa) = Some (Some fa')"
    "kmap_inv U P pgd fa' al' tab'" "al \<subseteq># al'"
    "\<And>va'. translate fa' pgd va' = (if va_page va' = va_page va then new_page pa mair flags else translate fa pgd va')"
proof -
  let ?a = "l0_index va" and ?b = "l1_index va" and ?c = "l2_index va"
  obtain t1 fa1 t2 fa2 al2 tab2 where 2: "ensure_table pgd ?a (Some fa) = Some (t1, Some fa1)"
    "ensure_table t1 ?b (Some fa1) = Some (t2, Some fa2)" "kmap_inv U P pgd fa2 al2 tab2"
    "tab2 [?a, ?b] = Some t2" "al \<subseteq># al2" "\<And>va'. translate fa2 pgd va' = translate fa pgd va'"
    by (rule upper_tables[OF inv P(1,2)]) (rule that; assumption)
  have ok2: "pt_ok fa2 al2 pgd tab2" using 2(3) by (simp add: kmap_inv_def)
  have nb2: "\<not> pte_is_block (entry fa2 t2 ?c)"
  proof
    assume b: "pte_is_block (entry fa2 t2 ?c)"
    have "tab2 [?a, ?b, ?c] = None" using step_table2[OF ok2 2(4), of ?c] b by (cases "tab2 [?a, ?b, ?c]") auto
    then have "translate fa2 pgd va = Some (entry fa2 t2 ?c)" using b 2(4) by (simp add: translate_tab[OF ok2] walk_tab_def)
    then show False using b nb 2(6)[of va] by auto
  qed
  have s2: "length [?a, ?b] < 3" "[?a, ?b] @ [?c] \<in> P" using P(3) by simp_all
  obtain t3 fa3 al3 tab3 where 3: "ensure_table t2 ?c (Some fa2) = Some (t3, Some fa3)" "kmap_inv U P pgd fa3 al3 tab3"
    "tab3 ([?a, ?b] @ [?c]) = Some t3" "al2 \<subseteq># al3" "\<And>va. translate fa3 pgd va = translate fa2 pgd va"
    by (rule ensure_table_total[OF 2(3,4) s2(1) index_bounds(3) s2(2) nb2]) (rule that; assumption)
  have t3: "tab3 [?a, ?b, ?c] = Some t3" using 3(3) by simp
  obtain e where e: "new_page pa mair flags = Some e" using new_page_None[of pa mair flags] wx by auto
  have lf: "leaf_ok e" using new_page_spec[OF e pa] wx by (simp add: leaf_ok_def wx_ok_def)
  have k3: "frames_inv U fa3 al3" "pt_ok fa3 al3 pgd tab3" using 3(2) by (simp_all add: kmap_inv_def)
  note lw = leaf_write[OF k3 t3 _ index_bounds(4)[of va] new_page_spec(2)[OF e pa] lf]
  let ?fa = "fa_write (t3 + l3_index va * 8) (unat e) fa3"
  have "map_page pgd va pa mair flags (Some fa) = Some (Some ?fa)"
    using 2(1,2) 3(1) e by (simp add: map_page_def ram_write_def)
  moreover have "kmap_inv U P pgd ?fa al3 tab3" using 3(2) lw(1,2) by (simp add: kmap_inv_def)
  moreover have "translate ?fa pgd va' = (if va_page va' = va_page va then new_page pa mair flags else translate fa pgd va')" for va'
    using lw(3)[of va'] 2(6)[of va'] 3(5)[of va'] e unfolding va_page_indices by simp
  moreover have "al \<subseteq># al3" by (rule subset_mset.order_trans[OF 2(5) 3(4)])
  ultimately show thesis using that by blast
qed

text \<open>A block descriptor of level 2, where no table hangs.\<close>

lemma block_write:
  assumes inv: "frames_inv U fa al" and ok: "pt_ok fa al pgd tab" and t: "tab p = Some t" "length p = 2" "j < 512" "tab (p @ [j]) = None"
    and e: "pte_is_block e" "leaf_ok e"
  defines "fa' \<equiv> fa_write (t + j * 8) (unat e) fa"
  shows "frames_inv U fa' al" "pt_ok fa' al pgd tab"
    "translate fa' pgd va = (if [l0_index va, l1_index va] = p \<and> l2_index va = j then Some e else translate fa pgd va)"
proof -
  note d = pt_okD[OF ok]
  show "frames_inv U fa' al" unfolding fa'_def by (rule frames_inv_write[OF inv d(3)[OF t(1)] slot_in_table[OF t(3)]])
  have en: "entry fa' s i = (if s = t \<and> i = j then e else entry fa s i)" if "tab q = Some s" "i < 512" for q s i
    unfolding fa'_def by (rule entry_write[OF inv d(3)[OF t(1)] d(3)[OF that(1)] t(3) that(2)])
  have other: "entry fa' s i = entry fa s i" if "tab q = Some s" "i < 512" "q @ [i] \<noteq> p @ [j]" for q s i
    using en[OF that(1,2)] d(5)[OF that(1), of p] t(1) that(3) by auto
  have c4: "i < 512 \<and> (\<exists>t0. tab q = Some t0 \<and> entry fa' t0 i = new_table s)" if a: "tab (q @ [i]) = Some s" for q i s
  proof -
    obtain t0 where t0: "tab q = Some t0" using d(7)[OF a] by blast
    have "q @ [i] \<noteq> p @ [j]" using a t(4) by auto
    then show ?thesis using t0 d(6)[OF a t0] d(10)[OF a] other[OF t0] by auto
  qed
  have c5: "entry fa' s i = 0 \<or> length q = 2 \<and> pte_is_block (entry fa' s i) \<and> leaf_ok (entry fa' s i)"
    if a: "tab q = Some s" "length q < 3" "i < 512" "tab (q @ [i]) = None" for q s i
  proof (cases "q @ [i] = p @ [j]")
    case True
    then have "s = t" "i = j" "q = p" using a(1) t(1) by auto
    then show ?thesis using en[OF a(1,3)] t(2) e by simp
  next
    case False
    then show ?thesis using other[OF a(1,3)] d(8)[OF a] by simp
  qed
  have c6: "leaf_ok (entry fa' s i)" if a: "tab q = Some s" "length q = 3" "i < 512" "pte_is_table (entry fa' s i)" for q s i
  proof -
    have "q @ [i] \<noteq> p @ [j]" using a(2) t(2) by auto
    then show ?thesis using other[OF a(1,3)] d(9)[OF a(1-3)] a(4) by simp
  qed
  show ok': "pt_ok fa' al pgd tab"
    unfolding pt_ok_def using d(1-5) c4 c5 c6 by (intro conjI allI impI) blast+
  have l3: "entry fa' s (l3_index va) = entry fa s (l3_index va)" if "tab [l0_index va, l1_index va, l2_index va] = Some s" for s
  proof -
    have "[l0_index va, l1_index va, l2_index va] @ [l3_index va] \<noteq> p @ [j]" using t(2) by auto
    then show ?thesis using other[OF that index_bounds(4)] by blast
  qed
  show "translate fa' pgd va = (if [l0_index va, l1_index va] = p \<and> l2_index va = j then Some e else translate fa pgd va)"
  proof (cases "[l0_index va, l1_index va] = p \<and> l2_index va = j")
    case True
    then have n: "tab [l0_index va, l1_index va, l2_index va] = None" "tab [l0_index va, l1_index va] = Some t" using t(1,4) by auto
    have "entry fa' t (l2_index va) = e" using en[OF t(1,3)] True by simp
    then show ?thesis using True n e(1) by (simp add: translate_tab[OF ok'] walk_tab_def)
  next
    case False
    have "entry fa' s (l2_index va) = entry fa s (l2_index va)" if "tab [l0_index va, l1_index va] = Some s" for s
      using other[OF that index_bounds(3), of va] False by auto
    then show ?thesis using False l3 unfolding translate_tab[OF ok'] translate_tab[OF ok] walk_tab_def by (auto split: option.split)
  qed
qed

lemma map_block_total:
  assumes inv: "kmap_inv U P pgd fa al tab"
    and P: "[l0_index va] \<in> P" "[l0_index va, l1_index va] \<in> P" "[l0_index va, l1_index va, l2_index va] \<notin> P"
    and e: "new_block_2m pa mair flags = Some e" and va: "BLOCK_2M dvd va" and pa: "pa < 2 ^ 48"
  obtains fa' al' tab' where "map_block_2m pgd va pa mair flags (Some fa) = Some (Some fa')"
    "kmap_inv U P pgd fa' al' tab'" "al \<subseteq># al'"
    "\<And>va'. translate fa' pgd va' = (if va_page va' div 512 = va_page va div 512 then Some e else translate fa pgd va')"
proof -
  let ?a = "l0_index va" and ?b = "l1_index va" and ?c = "l2_index va"
  obtain t1 fa1 t2 fa2 al2 tab2 where 2: "ensure_table pgd ?a (Some fa) = Some (t1, Some fa1)"
    "ensure_table t1 ?b (Some fa1) = Some (t2, Some fa2)" "kmap_inv U P pgd fa2 al2 tab2"
    "tab2 [?a, ?b] = Some t2" "al \<subseteq># al2" "\<And>va'. translate fa2 pgd va' = translate fa pgd va'"
    by (rule upper_tables[OF inv P(1,2)]) (rule that; assumption)
  have k2: "frames_inv U fa2 al2" "pt_ok fa2 al2 pgd tab2" using 2(3) by (simp_all add: kmap_inv_def)
  have none: "tab2 ([?a, ?b] @ [?c]) = None" using P(3) 2(3) by (auto simp: kmap_inv_def)
  have "wx_ok flags" using e by (simp add: new_block_2m_def wx_ok_iff split: if_splits)
  then have lf: "leaf_ok e" using new_block_spec[OF e pa] by (simp add: leaf_ok_def wx_ok_def)
  note bw = block_write[OF k2 2(4) _ index_bounds(3) none new_block_spec(2)[OF e pa] lf]
  let ?fa = "fa_write (t2 + ?c * 8) (unat e) fa2"
  have "va AND (BLOCK_2M - 1) = va mod BLOCK_2M"
    using take_bit_eq_mask[of 21 va] by (simp add: take_bit_eq_mod mask_eq_exp_minus_1 BLOCK_2M_def)
  then have "map_block_2m pgd va pa mair flags (Some fa) = Some (Some ?fa)"
    using 2(1,2) e va by (simp add: map_block_2m_def ram_write_def)
  moreover have "kmap_inv U P pgd ?fa al2 tab2" using 2(3) bw(1,2) by (simp add: kmap_inv_def)
  moreover have "translate ?fa pgd va' = (if va_page va' div 512 = va_page va div 512 then Some e else translate fa pgd va')" for va'
    using bw(3)[of va'] 2(6)[of va'] unfolding va_block_indices by simp
  ultimately show thesis using that 2(5) by blast
qed

section \<open>Ranges\<close>

lemma va_page_add:
  assumes "va_page va + k < 2 ^ 36"
  shows "va_page (va + k * PAGE_SIZE) = va_page va + k"
proof -
  have "(va + k * PAGE_SIZE) div PAGE_SIZE = va div PAGE_SIZE + k" by (simp add: PAGE_SIZE_def)
  moreover have "(va div PAGE_SIZE + k) mod 2 ^ 36 = (va div PAGE_SIZE mod 2 ^ 36 + k) mod 2 ^ 36" by (simp add: mod_add_left_eq)
  ultimately show ?thesis using assms by (simp add: va_page_def)
qed

definition page_path :: "nat list set \<Rightarrow> nat \<Rightarrow> bool" where
  "page_path P p \<longleftrightarrow> [p div 2 ^ 27] \<in> P \<and> [p div 2 ^ 27, p div 2 ^ 18 mod 512] \<in> P \<and> [p div 2 ^ 27, p div 2 ^ 18 mod 512, p div 512 mod 512] \<in> P"

definition block_path :: "nat list set \<Rightarrow> nat \<Rightarrow> bool" where
  "block_path P b \<longleftrightarrow> [b div 2 ^ 18] \<in> P \<and> [b div 2 ^ 18, b div 2 ^ 9 mod 512] \<in> P \<and> [b div 2 ^ 18, b div 2 ^ 9 mod 512, b mod 512] \<notin> P"

lemma map_pages_total:
  assumes "kmap_inv U P pgd fa al tab" "va_page va + n < 2 ^ 36" "\<And>p. va_page va \<le> p \<Longrightarrow> p < va_page va + n \<Longrightarrow> page_path P p"
    and "\<forall>va e. translate fa pgd va = Some e \<longrightarrow> \<not> pte_is_block e" "wx_ok flags" "pa + n * PAGE_SIZE \<le> 2 ^ 48" "PAGE_SIZE dvd pa"
  shows "\<exists>fa' al' tab'. map_pages_loop pgd va (va + n * PAGE_SIZE) pa mair flags (Some fa) = Some (Some fa') \<and>
    kmap_inv U P pgd fa' al' tab' \<and> al \<subseteq># al' \<and>
    (\<forall>va'. translate fa' pgd va' = (if va_page va \<le> va_page va' \<and> va_page va' < va_page va + n
       then new_page (pa + (va_page va' - va_page va) * PAGE_SIZE) mair flags else translate fa pgd va')) \<and>
    (\<forall>va e. translate fa' pgd va = Some e \<longrightarrow> \<not> pte_is_block e)"
  using assms
proof (induction n arbitrary: fa al tab va pa)
  case 0
  then show ?case by (auto simp: map_pages_loop.simps)
next
  case (Suc n)
  have path: "page_path P (va_page va)" using Suc.prems(3)[of "va_page va"] by simp
  have pa: "pa < 2 ^ 48" using Suc.prems(6) by (simp add: PAGE_SIZE_def)
  have pp: "[l0_index va] \<in> P" "[l0_index va, l1_index va] \<in> P" "[l0_index va, l1_index va, l2_index va] \<in> P"
    using path by (simp_all add: page_path_def page_indices)
  obtain fa1 al1 tab1 where 1: "map_page pgd va pa mair flags (Some fa) = Some (Some fa1)" "kmap_inv U P pgd fa1 al1 tab1" "al \<subseteq># al1"
    "\<And>va'. translate fa1 pgd va' = (if va_page va' = va_page va then new_page pa mair flags else translate fa pgd va')"
    by (rule map_page_total[OF Suc.prems(1) pp Suc.prems(4,5) pa Suc.prems(7)]) (rule that; assumption)
  have nb: "\<not> pte_is_block e" if a: "translate fa1 pgd va' = Some e" for va' e
  proof (cases "va_page va' = va_page va")
    case True
    then have "new_page pa mair flags = Some e" using a 1(4)[of va'] by simp
    then show ?thesis using new_page_spec(2)[OF _ pa Suc.prems(7)] block_not_table by blast
  next
    case False
    then show ?thesis using a 1(4)[of va'] Suc.prems(4) by simp
  qed
  have nx: "va_page (va + PAGE_SIZE) = va_page va + 1" using va_page_add[of va 1] Suc.prems(2) by simp
  have "PAGE_SIZE dvd pa + PAGE_SIZE" using Suc.prems(7) by simp
  moreover have "pa + PAGE_SIZE + n * PAGE_SIZE \<le> 2 ^ 48" using Suc.prems(6) by simp
  moreover have "page_path P p" if "va_page (va + PAGE_SIZE) \<le> p" "p < va_page (va + PAGE_SIZE) + n" for p
    using Suc.prems(3)[of p] that nx by simp
  moreover have "va_page (va + PAGE_SIZE) + n < 2 ^ 36" using Suc.prems(2) nx by simp
  ultimately obtain fa2 al2 tab2 where 2: "map_pages_loop pgd (va + PAGE_SIZE) (va + PAGE_SIZE + n * PAGE_SIZE) (pa + PAGE_SIZE) mair flags (Some fa1) = Some (Some fa2)"
    "kmap_inv U P pgd fa2 al2 tab2" "al1 \<subseteq># al2"
    "\<forall>va'. translate fa2 pgd va' = (if va_page (va + PAGE_SIZE) \<le> va_page va' \<and> va_page va' < va_page (va + PAGE_SIZE) + n
       then new_page (pa + PAGE_SIZE + (va_page va' - va_page (va + PAGE_SIZE)) * PAGE_SIZE) mair flags else translate fa1 pgd va')"
    "\<forall>va e. translate fa2 pgd va = Some e \<longrightarrow> \<not> pte_is_block e"
    using Suc.IH[OF 1(2), of "va + PAGE_SIZE" "pa + PAGE_SIZE"] nb Suc.prems(5) by blast
  have "va < va + Suc n * PAGE_SIZE" by (simp add: PAGE_SIZE_def)
  then have l: "map_pages_loop pgd va (va + Suc n * PAGE_SIZE) pa mair flags (Some fa) = Some (Some fa2)"
    using 2(1) 1(1) by (subst map_pages_loop.simps) (simp add: add.assoc)
  have "translate fa2 pgd va' = (if va_page va \<le> va_page va' \<and> va_page va' < va_page va + Suc n
       then new_page (pa + (va_page va' - va_page va) * PAGE_SIZE) mair flags else translate fa pgd va')" for va'
  proof (cases "va_page va < va_page va' \<and> va_page va' < va_page va + Suc n")
    case True
    then have "pa + PAGE_SIZE + (va_page va' - (va_page va + 1)) * PAGE_SIZE = pa + (va_page va' - va_page va) * PAGE_SIZE"
      by (metis Suc_diff_Suc add.assoc mult_Suc Suc_eq_plus1)
    note eq = this
    have "translate fa2 pgd va' = new_page (pa + (va_page va' - va_page va) * PAGE_SIZE) mair flags" using 2(4)[rule_format, of va'] True unfolding nx eq by simp
    then show ?thesis using True by simp
  next
    case False
    then show ?thesis using 2(4)[rule_format, of va'] 1(4)[of va'] unfolding nx by auto
  qed
  then show ?case using l 2(2,5) subset_mset.order_trans[OF 1(3) 2(3)] by blast
qed

lemma map_blocks_total:
  assumes "kmap_inv U P pgd fa al tab" "va_page va div 512 + n < 2 ^ 27"
    and "\<And>b. va_page va div 512 \<le> b \<Longrightarrow> b < va_page va div 512 + n \<Longrightarrow> block_path P b"
    and "wx_ok flags" "pa + n * BLOCK_2M \<le> 2 ^ 48" "BLOCK_2M dvd pa" "BLOCK_2M dvd va"
  shows "\<exists>fa' al' tab'. map_blocks_loop pgd va (va + n * BLOCK_2M) pa mair flags (Some fa) = Some (Some fa') \<and>
    kmap_inv U P pgd fa' al' tab' \<and> al \<subseteq># al' \<and>
    (\<forall>va'. translate fa' pgd va' = (if va_page va div 512 \<le> va_page va' div 512 \<and> va_page va' div 512 < va_page va div 512 + n
       then new_block_2m (pa + (va_page va' div 512 - va_page va div 512) * BLOCK_2M) mair flags else translate fa pgd va'))"
  using assms
proof (induction n arbitrary: fa al tab va pa)
  case 0
  then show ?case by (auto simp: map_blocks_loop.simps)
next
  case (Suc n)
  have path: "block_path P (va_page va div 512)" using Suc.prems(3)[of "va_page va div 512"] by simp
  have pa: "pa < 2 ^ 48" using Suc.prems(5) by (simp add: BLOCK_2M_def)
  have "pa AND 0x1FFFFF = pa mod BLOCK_2M"
    using take_bit_eq_mask[of 21 pa] by (simp add: take_bit_eq_mod mask_eq_exp_minus_1 BLOCK_2M_def)
  then obtain e where e: "new_block_2m pa mair flags = Some e" using Suc.prems(4,6) by (simp add: new_block_2m_def wx_ok_iff)
  have pp: "[l0_index va] \<in> P" "[l0_index va, l1_index va] \<in> P" "[l0_index va, l1_index va, l2_index va] \<notin> P"
    using path by (simp_all add: block_path_def page_indices div_mult2_eq[symmetric])
  obtain fa1 al1 tab1 where 1: "map_block_2m pgd va pa mair flags (Some fa) = Some (Some fa1)" "kmap_inv U P pgd fa1 al1 tab1" "al \<subseteq># al1"
    "\<And>va'. translate fa1 pgd va' = (if va_page va' div 512 = va_page va div 512 then Some e else translate fa pgd va')"
    by (rule map_block_total[OF Suc.prems(1) pp e Suc.prems(7) pa]) (rule that; assumption)
  have va: "va + BLOCK_2M = va + 512 * PAGE_SIZE" by (simp add: BLOCK_2M_def PAGE_SIZE_def)
  have "va_page va + 512 < 2 ^ 36" using Suc.prems(2) by simp
  then have nx: "va_page (va + BLOCK_2M) div 512 = va_page va div 512 + 1" using va_page_add[of va 512] unfolding va by simp
  have "BLOCK_2M dvd pa + BLOCK_2M" "BLOCK_2M dvd va + BLOCK_2M" using Suc.prems(6,7) by simp_all
  moreover have "pa + BLOCK_2M + n * BLOCK_2M \<le> 2 ^ 48" using Suc.prems(5) by simp
  moreover have "block_path P b" if "va_page (va + BLOCK_2M) div 512 \<le> b" "b < va_page (va + BLOCK_2M) div 512 + n" for b
    using Suc.prems(3)[of b] that nx by simp
  moreover have "va_page (va + BLOCK_2M) div 512 + n < 2 ^ 27" using Suc.prems(2) nx by simp
  ultimately obtain fa2 al2 tab2 where 2: "map_blocks_loop pgd (va + BLOCK_2M) (va + BLOCK_2M + n * BLOCK_2M) (pa + BLOCK_2M) mair flags (Some fa1) = Some (Some fa2)"
    "kmap_inv U P pgd fa2 al2 tab2" "al1 \<subseteq># al2"
    "\<forall>va'. translate fa2 pgd va' = (if va_page (va + BLOCK_2M) div 512 \<le> va_page va' div 512 \<and> va_page va' div 512 < va_page (va + BLOCK_2M) div 512 + n
       then new_block_2m (pa + BLOCK_2M + (va_page va' div 512 - va_page (va + BLOCK_2M) div 512) * BLOCK_2M) mair flags else translate fa1 pgd va')"
    using Suc.IH[OF 1(2), of "va + BLOCK_2M" "pa + BLOCK_2M"] Suc.prems(4) by blast
  have "va < va + Suc n * BLOCK_2M" by (simp add: BLOCK_2M_def)
  then have l: "map_blocks_loop pgd va (va + Suc n * BLOCK_2M) pa mair flags (Some fa) = Some (Some fa2)"
    using 2(1) 1(1) by (subst map_blocks_loop.simps) (simp add: add.assoc)
  have "translate fa2 pgd va' = (if va_page va div 512 \<le> va_page va' div 512 \<and> va_page va' div 512 < va_page va div 512 + Suc n
       then new_block_2m (pa + (va_page va' div 512 - va_page va div 512) * BLOCK_2M) mair flags else translate fa pgd va')" for va'
  proof (cases "va_page va div 512 < va_page va' div 512 \<and> va_page va' div 512 < va_page va div 512 + Suc n")
    case True
    then have "pa + BLOCK_2M + (va_page va' div 512 - (va_page va div 512 + 1)) * BLOCK_2M = pa + (va_page va' div 512 - va_page va div 512) * BLOCK_2M"
      by (metis Suc_diff_Suc add.assoc mult_Suc Suc_eq_plus1)
    note eq = this
    have "translate fa2 pgd va' = new_block_2m (pa + (va_page va' div 512 - va_page va div 512) * BLOCK_2M) mair flags" using 2(4)[rule_format, of va'] True unfolding nx eq by simp
    then show ?thesis using True by simp
  next
    case False
    then show ?thesis using 2(4)[rule_format, of va'] 1(4)[of va'] e unfolding nx by auto
  qed
  then show ?case using l 2(2) subset_mset.order_trans[OF 1(3) 2(3)] by blast
qed

section \<open>The whole map\<close>

text \<open>What the linker script fixes of the sections.\<close>

definition sections_ok :: "Sections \<Rightarrow> bool" where
  "sections_ok s \<longleftrightarrow>
     KERNEL_BASE \<le> text_start s \<and> text_start s \<le> text_end s \<and> text_end s \<le> rodata_start s \<and> rodata_start s \<le> rodata_end s \<and>
     rodata_end s \<le> data_start s \<and> data_start s \<le> data_end s \<and> data_end s \<le> KERNEL_BASE + 0x800000 \<and>
     (\<forall>x\<in>{text_start s, text_end s, rodata_start s, rodata_end s, data_start s, data_end s}. PAGE_SIZE dvd x)"

text \<open>The map as it is meant: the descriptor of every kernel address.\<close>

definition kernel_page :: "nat \<Rightarrow> VmFlags \<Rightarrow> u64 option" where
  "kernel_page va flags = new_page ((va - KERNEL_BASE) div PAGE_SIZE * PAGE_SIZE + 0x40000000) MAIR_NORMAL_WB_IDX flags"

definition kernel_leaf :: "Sections \<Rightarrow> nat \<Rightarrow> nat \<Rightarrow> nat \<Rightarrow> u64 option" where
  "kernel_leaf s ram_start ram_size va =
     (if text_start s \<le> va \<and> va < text_end s then kernel_page va (VM_READ OR VM_EXECUTE)
      else if rodata_start s \<le> va \<and> va < rodata_end s then kernel_page va VM_READ
      else if data_start s \<le> va \<and> va < data_end s then kernel_page va (VM_READ OR VM_WRITE)
      else if DIRECT_MAP_BASE + ram_start \<le> va \<and> va < DIRECT_MAP_BASE + (ram_start + ram_size + BLOCK_2M - 1) div BLOCK_2M * BLOCK_2M
      then new_block_2m ((va - DIRECT_MAP_BASE) div BLOCK_2M * BLOCK_2M) MAIR_NORMAL_WB_IDX (VM_READ OR VM_WRITE)
      else if MMIO_BASE \<le> va \<and> va < MMIO_BASE + 0x40000000
      then new_block_2m ((va - MMIO_BASE) div BLOCK_2M * BLOCK_2M) MAIR_DEVICE_IDX (VM_READ OR VM_WRITE)
      else None)"

definition kernel_paths :: "nat list set" where
  "kernel_paths = {[], [0]} \<union> (\<lambda>i. [0, i]) ` {..64} \<union> (\<lambda>j. [0, 0, j]) ` {..<4}"

lemma card_kernel_paths: "finite kernel_paths" "card kernel_paths = 71"
proof -
  let ?A = "(\<lambda>i :: nat. [0 :: nat, i]) ` {..64}" and ?B = "(\<lambda>j :: nat. [0 :: nat, 0, j]) ` {..<4}"
  show "finite kernel_paths" by (simp add: kernel_paths_def)
  have "card ?A = 65" "card ?B = 4" by (subst card_image; auto simp: inj_on_def)+
  moreover have "?A \<inter> ?B = {}" "{[], [0 :: nat]} \<inter> (?A \<union> ?B) = {}" by auto
  ultimately show "card kernel_paths = 71"
    unfolding kernel_paths_def Un_assoc by (subst card_Un_disjoint; simp add: card_Un_disjoint)
qed

lemma kernel_page_path: "p < 2048 \<Longrightarrow> page_path kernel_paths p"
  by (auto simp: page_path_def kernel_paths_def)

lemma kernel_block_path:
  assumes "2048 \<le> b" "b < 65 * 512"
  shows "block_path kernel_paths b"
proof -
  have "b div 2 ^ 18 = 0" "b div 2 ^ 9 mod 512 = b div 512" "4 \<le> b div 512" "b div 512 \<le> 64" using assms by auto
  then show ?thesis by (auto simp: block_path_def kernel_paths_def)
qed

lemma kernel_va_page: "KERNEL_BASE \<le> va \<Longrightarrow> va < 2 ^ 64 \<Longrightarrow> va_page va = (va - KERNEL_BASE) div PAGE_SIZE"
proof -
  assume a: "KERNEL_BASE \<le> va" "va < 2 ^ 64"
  obtain x where x: "va = KERNEL_BASE + x" "x < 2 ^ 48" using a by (auto simp: KERNEL_BASE_def le_iff_add)
  have "KERNEL_BASE = 0xFFFF000000000 * PAGE_SIZE" by (simp add: KERNEL_BASE_def PAGE_SIZE_def)
  then have "va div PAGE_SIZE = x div PAGE_SIZE + 0xFFFF000000000" using x(1) by (simp add: PAGE_SIZE_def)
  moreover have "(0xFFFF000000000 :: nat) = 65535 * 2 ^ 36" by simp
  ultimately have "va_page va = x div PAGE_SIZE mod 2 ^ 36" unfolding va_page_def by (metis mod_mult_self1)
  moreover have "x div PAGE_SIZE < 2 ^ 36" using x(2) by (simp add: PAGE_SIZE_def)
  ultimately show ?thesis using x(1) by simp
qed

lemma virt_to_phys_eq: "KERNEL_BASE \<le> va \<Longrightarrow> va < 2 ^ 64 \<Longrightarrow> virt_to_phys va = va - KERNEL_BASE + 0x40000000"
proof -
  assume a: "KERNEL_BASE \<le> va" "va < 2 ^ 64"
  have u: "unat (word_of_nat va :: u64) = va" using a(2) by (simp add: unat_of_nat take_bit_nat_eq_self_iff[symmetric] take_bit_eq_mod)
  have o: "unat VIRT_PHYS_OFFSET = 0xFFFEFFFFC0000000" by (simp add: VIRT_PHYS_OFFSET_def)
  have "VIRT_PHYS_OFFSET \<le> word_of_nat va" using a(1) u o by (simp add: word_le_nat_alt KERNEL_BASE_def)
  then have "virt_to_phys va = va - 0xFFFEFFFFC0000000" unfolding virt_to_phys_def by (simp add: unat_sub u o)
  then show ?thesis using a(1) by (simp add: KERNEL_BASE_def)
qed

text \<open>One section.\<close>

lemma map_section:
  assumes inv: "kmap_inv U kernel_paths pgd fa al tab" and nb: "\<forall>va e. translate fa pgd va = Some e \<longrightarrow> \<not> pte_is_block e"
    and r: "KERNEL_BASE \<le> x" "x \<le> y" "y \<le> KERNEL_BASE + 0x800000" "PAGE_SIZE dvd x" "PAGE_SIZE dvd y" and wx: "wx_ok flags"
  obtains fa' al' tab' where "map_range_4k pgd x y (virt_to_phys x) MAIR_NORMAL_WB_IDX flags (Some fa) = Some (Some fa')"
    "kmap_inv U kernel_paths pgd fa' al' tab'" "al \<subseteq># al'"
    "\<And>va. KERNEL_BASE \<le> va \<Longrightarrow> va < 2 ^ 64 \<Longrightarrow>
       translate fa' pgd va = (if x \<le> va \<and> va < y then kernel_page va flags else translate fa pgd va)"
    "\<forall>va e. translate fa' pgd va = Some e \<longrightarrow> \<not> pte_is_block e"
proof -
  obtain a b where ab: "x = KERNEL_BASE + a * PAGE_SIZE" "y = x + b * PAGE_SIZE" "a + b \<le> 2048"
  proof -
    have kb: "PAGE_SIZE dvd KERNEL_BASE" by (simp add: KERNEL_BASE_def PAGE_SIZE_def)
    obtain a where a: "x - KERNEL_BASE = PAGE_SIZE * a" using dvd_diff_nat[OF r(4) kb] by (auto elim: dvdE)
    obtain b where b: "y - x = PAGE_SIZE * b" using dvd_diff_nat[OF r(5,4)] by (auto elim: dvdE)
    have "PAGE_SIZE * (a + b) \<le> 0x800000" using a b r(1-3) by (simp add: algebra_simps)
    then show thesis using that[of a b] a b r(1,2) by (simp add: PAGE_SIZE_def mult.commute)
  qed
  have x64: "x < 2 ^ 64" using r by (simp add: KERNEL_BASE_def)
  have vx: "va_page x = a" using kernel_va_page[OF r(1) x64] ab(1) by (simp add: PAGE_SIZE_def)
  have px: "virt_to_phys x = a * PAGE_SIZE + 0x40000000" using virt_to_phys_eq[OF r(1) x64] ab(1) by simp
  have bnd: "va_page x + b < 2 ^ 36" "virt_to_phys x + b * PAGE_SIZE \<le> 2 ^ 48" "PAGE_SIZE dvd virt_to_phys x"
    using ab(3) vx px by (simp_all add: PAGE_SIZE_def)
  have path: "page_path kernel_paths p" if "va_page x \<le> p" "p < va_page x + b" for p
    using kernel_page_path that vx ab(3) by simp
  obtain fa' al' tab' where l: "map_pages_loop pgd x (x + b * PAGE_SIZE) (virt_to_phys x) MAIR_NORMAL_WB_IDX flags (Some fa) = Some (Some fa')"
    "kmap_inv U kernel_paths pgd fa' al' tab'" "al \<subseteq># al'"
    "\<forall>va'. translate fa' pgd va' = (if va_page x \<le> va_page va' \<and> va_page va' < va_page x + b
       then new_page (virt_to_phys x + (va_page va' - va_page x) * PAGE_SIZE) MAIR_NORMAL_WB_IDX flags else translate fa pgd va')"
    "\<forall>va e. translate fa' pgd va = Some e \<longrightarrow> \<not> pte_is_block e"
    using map_pages_total[OF inv bnd(1) path nb wx bnd(2,3)] by blast
  have "(y + 0xFFF) div 0x1000 * 0x1000 = y" "x div 0x1000 * 0x1000 = x" "virt_to_phys x div 0x1000 * 0x1000 = virt_to_phys x"
    using r(4,5) bnd(3) by (auto simp: PAGE_SIZE_def elim!: dvdE)
  then have m: "map_range_4k pgd x y (virt_to_phys x) MAIR_NORMAL_WB_IDX flags (Some fa) = Some (Some fa')"
    using l(1) ab(2) by (simp add: map_range_4k_def)
  have tr: "translate fa' pgd va = (if x \<le> va \<and> va < y then kernel_page va flags else translate fa pgd va)"
    if v: "KERNEL_BASE \<le> va" "va < 2 ^ 64" for va
  proof -
    let ?q = "(va - KERNEL_BASE) div PAGE_SIZE"
    have le: "x \<le> va \<longleftrightarrow> a \<le> ?q" using ab(1) v(1) by (simp add: less_eq_div_iff_mult_less_eq PAGE_SIZE_def le_diff_conv2 add.commute)
    have lt: "va < y \<longleftrightarrow> ?q < a + b" using ab v(1) by (simp add: div_less_iff_less_mult PAGE_SIZE_def) linarith
    have "virt_to_phys x + (?q - a) * PAGE_SIZE = ?q * PAGE_SIZE + 0x40000000" if "a \<le> ?q"
      using px that by (simp add: diff_mult_distrib mult_le_mono1)
    then show ?thesis using l(4)[rule_format, of va] unfolding vx kernel_va_page[OF v] le lt kernel_page_def by auto
  qed
  show thesis by (rule that[OF m l(2,3) tr l(5)])
qed

text \<open>A region of blocks.\<close>

lemma map_region:
  assumes inv: "kmap_inv U kernel_paths pgd fa al tab" and wx: "wx_ok flags"
    and r: "x = KERNEL_BASE + a * BLOCK_2M" "2048 \<le> a" "a + b \<le> 65 * 512" "(y + BLOCK_2M - 1) div BLOCK_2M * BLOCK_2M = x + b * BLOCK_2M"
    and pa: "pa = c * BLOCK_2M" "c + b \<le> 2 ^ 27"
  obtains fa' al' tab' where "map_range_2m pgd x y pa mair flags (Some fa) = Some (Some fa')"
    "kmap_inv U kernel_paths pgd fa' al' tab'" "al \<subseteq># al'"
    "\<And>va. KERNEL_BASE \<le> va \<Longrightarrow> va < 2 ^ 64 \<Longrightarrow>
       translate fa' pgd va = (if x \<le> va \<and> va < x + b * BLOCK_2M
         then new_block_2m ((va - x) div BLOCK_2M * BLOCK_2M + pa) mair flags else translate fa pgd va)"
proof -
  have x64: "x < 2 ^ 64" "KERNEL_BASE \<le> x" using r(1,3) by (simp_all add: KERNEL_BASE_def BLOCK_2M_def)
  have q: "va_page va div 512 = (va - KERNEL_BASE) div BLOCK_2M" if "KERNEL_BASE \<le> va" "va < 2 ^ 64" for va
    using kernel_va_page[OF that] by (simp add: PAGE_SIZE_def BLOCK_2M_def div_mult2_eq[symmetric])
  have vx: "va_page x div 512 = a" using q[OF x64(2,1)] r(1) by (simp add: BLOCK_2M_def)
  have dv: "BLOCK_2M dvd KERNEL_BASE" by (simp add: KERNEL_BASE_def BLOCK_2M_def)
  have d: "BLOCK_2M dvd x" "BLOCK_2M dvd pa" using r(1) pa(1) dv by simp_all
  have bnd: "va_page x div 512 + b < 2 ^ 27" "pa + b * BLOCK_2M \<le> 2 ^ 48" using r(3) vx pa by (simp_all add: BLOCK_2M_def)
  have path: "block_path kernel_paths p" if "va_page x div 512 \<le> p" "p < va_page x div 512 + b" for p
    using kernel_block_path that vx r(2,3) by simp
  obtain fa' al' tab' where l: "map_blocks_loop pgd x (x + b * BLOCK_2M) pa mair flags (Some fa) = Some (Some fa')"
    "kmap_inv U kernel_paths pgd fa' al' tab'" "al \<subseteq># al'"
    "\<forall>va'. translate fa' pgd va' = (if va_page x div 512 \<le> va_page va' div 512 \<and> va_page va' div 512 < va_page x div 512 + b
       then new_block_2m (pa + (va_page va' div 512 - va_page x div 512) * BLOCK_2M) mair flags else translate fa pgd va')"
    using map_blocks_total[OF inv bnd(1) path wx bnd(2) d(2,1)] by blast
  have msk: "n AND (BLOCK_2M - 1) = n mod BLOCK_2M" for n
    using take_bit_eq_mask[of 21 n] by (simp add: take_bit_eq_mod mask_eq_exp_minus_1 BLOCK_2M_def)
  have m: "map_range_2m pgd x y pa mair flags (Some fa) = Some (Some fa')"
    using l(1) d unfolding map_range_2m_def msk r(4) by simp
  have tr: "translate fa' pgd va = (if x \<le> va \<and> va < x + b * BLOCK_2M
         then new_block_2m ((va - x) div BLOCK_2M * BLOCK_2M + pa) mair flags else translate fa pgd va)"
    if v: "KERNEL_BASE \<le> va" "va < 2 ^ 64" for va
  proof -
    let ?q = "(va - KERNEL_BASE) div BLOCK_2M"
    have le: "x \<le> va \<longleftrightarrow> a \<le> ?q" using r(1) v(1) by (simp add: less_eq_div_iff_mult_less_eq BLOCK_2M_def le_diff_conv2 add.commute)
    have lt: "va < x + b * BLOCK_2M \<longleftrightarrow> ?q < a + b" using r(1) v(1) by (simp add: div_less_iff_less_mult BLOCK_2M_def) linarith
    have "(va - x) div BLOCK_2M = ?q - a" using r(1) by (simp add: div_mult_self1 BLOCK_2M_def flip: diff_diff_left) 
    then show ?thesis using l(4)[rule_format, of va] unfolding vx q[OF v] le lt by (auto simp: add.commute)
  qed
  show thesis by (rule that[OF m l(2,3) tr])
qed

lemma kernel_flags:
  "wx_ok (VM_READ OR VM_EXECUTE)" "wx_ok VM_READ" "wx_ok (VM_READ OR VM_WRITE)"
  "vm_contains (VM_READ OR VM_EXECUTE) VM_EXECUTE" "\<not> vm_contains (VM_READ OR VM_EXECUTE) VM_WRITE" "\<not> vm_contains (VM_READ OR VM_EXECUTE) VM_USER"
  "\<not> vm_contains VM_READ VM_EXECUTE" "\<not> vm_contains VM_READ VM_WRITE" "\<not> vm_contains VM_READ VM_USER"
  "\<not> vm_contains (VM_READ OR VM_WRITE) VM_EXECUTE" "vm_contains (VM_READ OR VM_WRITE) VM_WRITE" "\<not> vm_contains (VM_READ OR VM_WRITE) VM_USER"
  by (simp_all add: vm_contains_def wx_ok_def VM_READ_def VM_WRITE_def VM_USER_def VM_EXECUTE_def)

lemma kmap_inv_start:
  assumes "ram48 U" "frames_inv U fa oth" "71 \<le> pool_free_pages fa PoolKernel"
  obtains pgd fa1 fa0 where "alloc_page (Some fa) = (Some pgd, Some fa1)" "zero_pages pgd 0 (Some fa1) = Some fa0"
    "kmap_inv U kernel_paths pgd fa0 (add_mset (pgd, 0) oth) [[] \<mapsto> pgd]" "\<And>va. translate fa0 pgd va = None"
proof -
  obtain t fa1 where a: "fa_alloc_pages PoolKernel 0 fa = (Some t, fa1)" "pool_free_pages fa PoolKernel = Suc (pool_free_pages fa1 PoolKernel)"
    by (rule kernel_page_free[OF assms(2)]) (use assms(3) in auto)
  let ?fa = "fold (\<lambda>i. fa_write (t + i * 8) 0) [0..<512] fa1"
  have i1: "frames_inv U fa1 (add_mset (t, 0) oth)" using frames_inv_alloc[OF assms(2) a(1)] by simp
  have i2: "frames_inv U ?fa (add_mset (t, 0) oth)" using zero_fold_inv[OF i1, of t 0 512] by (simp add: PAGE_SIZE_def)
  have e: "entry ?fa t j = 0" if "j < 512" for j using zero_table_entry[OF i1 _ _ that, of t t] by simp
  have "t < 2 ^ 48 \<and> PAGE_SIZE dvd t" using frames_block_start[OF i1 _ assms(1), of "(t, 0)"] by simp
  then have ok: "pt_ok ?fa (add_mset (t, 0) oth) t [[] \<mapsto> t]" using e by (auto simp: pt_ok_def split: if_splits)
  have tr: "translate ?fa t va = None" for va unfolding translate_tab[OF ok] by (simp add: walk_tab_def)
  have "kmap_inv U kernel_paths t ?fa (add_mset (t, 0) oth) [[] \<mapsto> t]"
    using assms i2 ok a(2) card_kernel_paths by (auto simp: kmap_inv_def kernel_paths_def)
  then show thesis
    using that[of t fa1 ?fa] a(1) tr by (simp add: alloc_page_def fa_alloc_page_def zero_pages_Some PAGE_SIZE_def)
qed

lemma direct_map_blocks:
  assumes "ram_start = c * BLOCK_2M" "ram_start + ram_size \<le> MMIO_BASE - DIRECT_MAP_BASE"
  defines "n \<equiv> (ram_size + BLOCK_2M - 1) div BLOCK_2M"
  shows "c + n \<le> 60 * 512" "(DIRECT_MAP_BASE + ram_start + ram_size + BLOCK_2M - 1) div BLOCK_2M * BLOCK_2M = DIRECT_MAP_BASE + ram_start + n * BLOCK_2M"
    "(ram_start + ram_size + BLOCK_2M - 1) div BLOCK_2M * BLOCK_2M = ram_start + n * BLOCK_2M"
proof -
  have "c * 2097152 + ram_size \<le> 60 * 512 * 2097152" using assms(1,2) by (simp add: MMIO_BASE_def DIRECT_MAP_BASE_def BLOCK_2M_def)
  moreover have "n * 2097152 \<le> ram_size + 2097151" unfolding n_def BLOCK_2M_def using div_times_less_eq_dividend[of "ram_size + 2097151" 2097152] by simp
  ultimately show "c + n \<le> 60 * 512" by linarith
  have s: "(k * BLOCK_2M + ram_size + BLOCK_2M - 1) div BLOCK_2M * BLOCK_2M = k * BLOCK_2M + n * BLOCK_2M" for k
  proof -
    have "k * BLOCK_2M + ram_size + BLOCK_2M - 1 = (ram_size + BLOCK_2M - 1) + k * BLOCK_2M" by (simp add: BLOCK_2M_def)
    moreover have "((ram_size + BLOCK_2M - 1) + k * BLOCK_2M) div BLOCK_2M = k + n"
      unfolding n_def by (rule div_mult_self1) (simp add: BLOCK_2M_def)
    ultimately show ?thesis by (simp add: distrib_right)
  qed
  have "DIRECT_MAP_BASE = 0x7fff8000800 * BLOCK_2M" by (simp add: DIRECT_MAP_BASE_def BLOCK_2M_def)
  then show "(DIRECT_MAP_BASE + ram_start + ram_size + BLOCK_2M - 1) div BLOCK_2M * BLOCK_2M = DIRECT_MAP_BASE + ram_start + n * BLOCK_2M"
    using s[of "0x7fff8000800 + c"] assms(1) by (simp add: distrib_right)
  show "(ram_start + ram_size + BLOCK_2M - 1) div BLOCK_2M * BLOCK_2M = ram_start + n * BLOCK_2M" using s[of c] assms(1) by simp
qed

lemma mmio_blocks:
  "(MMIO_BASE + 0x40000000 + BLOCK_2M - 1) div BLOCK_2M * BLOCK_2M = MMIO_BASE + 512 * BLOCK_2M"
  "MMIO_BASE = KERNEL_BASE + 32768 * BLOCK_2M" "(0 :: nat) = 0 * BLOCK_2M"
  by (simp_all add: MMIO_BASE_def KERNEL_BASE_def BLOCK_2M_def)

lemma kernel_sections:
  assumes ok: "sections_ok s" and inv: "kmap_inv U kernel_paths pgd fa0 al tab" and nb0: "\<forall>va e. translate fa0 pgd va = Some e \<longrightarrow> \<not> pte_is_block e"
  obtains fa2 fa3 fa4 al4 tab4 where
    "map_range_4k pgd (text_start s) (text_end s) (virt_to_phys (text_start s)) MAIR_NORMAL_WB_IDX (VM_READ OR VM_EXECUTE) (Some fa0) = Some (Some fa2)"
    "map_range_4k pgd (rodata_start s) (rodata_end s) (virt_to_phys (rodata_start s)) MAIR_NORMAL_WB_IDX VM_READ (Some fa2) = Some (Some fa3)"
    "map_range_4k pgd (data_start s) (data_end s) (virt_to_phys (data_start s)) MAIR_NORMAL_WB_IDX (VM_READ OR VM_WRITE) (Some fa3) = Some (Some fa4)"
    "kmap_inv U kernel_paths pgd fa4 al4 tab4" "al \<subseteq># al4"
    "\<And>va. KERNEL_BASE \<le> va \<Longrightarrow> va < 2 ^ 64 \<Longrightarrow> translate fa4 pgd va =
       (if text_start s \<le> va \<and> va < text_end s then kernel_page va (VM_READ OR VM_EXECUTE)
        else if rodata_start s \<le> va \<and> va < rodata_end s then kernel_page va VM_READ
        else if data_start s \<le> va \<and> va < data_end s then kernel_page va (VM_READ OR VM_WRITE) else translate fa0 pgd va)"
proof -
  note s = ok[unfolded sections_ok_def]
  have al: "PAGE_SIZE dvd text_start s" "PAGE_SIZE dvd text_end s" "PAGE_SIZE dvd rodata_start s" "PAGE_SIZE dvd rodata_end s"
    "PAGE_SIZE dvd data_start s" "PAGE_SIZE dvd data_end s" using s by simp_all
  have o: "KERNEL_BASE \<le> text_start s" "text_start s \<le> text_end s" "text_end s \<le> KERNEL_BASE + 0x800000"
    "KERNEL_BASE \<le> rodata_start s" "rodata_start s \<le> rodata_end s" "rodata_end s \<le> KERNEL_BASE + 0x800000"
    "KERNEL_BASE \<le> data_start s" "data_start s \<le> data_end s" "data_end s \<le> KERNEL_BASE + 0x800000" using s by linarith+
  obtain fa2 al2 tab2 where 2: "map_range_4k pgd (text_start s) (text_end s) (virt_to_phys (text_start s)) MAIR_NORMAL_WB_IDX (VM_READ OR VM_EXECUTE) (Some fa0) = Some (Some fa2)"
    "kmap_inv U kernel_paths pgd fa2 al2 tab2" "al \<subseteq># al2"
    "\<And>va. KERNEL_BASE \<le> va \<Longrightarrow> va < 2 ^ 64 \<Longrightarrow> translate fa2 pgd va =
       (if text_start s \<le> va \<and> va < text_end s then kernel_page va (VM_READ OR VM_EXECUTE) else translate fa0 pgd va)"
    "\<forall>va e. translate fa2 pgd va = Some e \<longrightarrow> \<not> pte_is_block e"
    by (rule map_section[OF inv nb0 o(1-3) al(1,2) kernel_flags(1)]) (rule that; assumption)
  obtain fa3 al3 tab3 where 3: "map_range_4k pgd (rodata_start s) (rodata_end s) (virt_to_phys (rodata_start s)) MAIR_NORMAL_WB_IDX VM_READ (Some fa2) = Some (Some fa3)"
    "kmap_inv U kernel_paths pgd fa3 al3 tab3" "al2 \<subseteq># al3"
    "\<And>va. KERNEL_BASE \<le> va \<Longrightarrow> va < 2 ^ 64 \<Longrightarrow> translate fa3 pgd va =
       (if rodata_start s \<le> va \<and> va < rodata_end s then kernel_page va VM_READ else translate fa2 pgd va)"
    "\<forall>va e. translate fa3 pgd va = Some e \<longrightarrow> \<not> pte_is_block e"
    by (rule map_section[OF 2(2,5) o(4-6) al(3,4) kernel_flags(2)]) (rule that; assumption)
  obtain fa4 al4 tab4 where 4: "map_range_4k pgd (data_start s) (data_end s) (virt_to_phys (data_start s)) MAIR_NORMAL_WB_IDX (VM_READ OR VM_WRITE) (Some fa3) = Some (Some fa4)"
    "kmap_inv U kernel_paths pgd fa4 al4 tab4" "al3 \<subseteq># al4"
    "\<And>va. KERNEL_BASE \<le> va \<Longrightarrow> va < 2 ^ 64 \<Longrightarrow> translate fa4 pgd va =
       (if data_start s \<le> va \<and> va < data_end s then kernel_page va (VM_READ OR VM_WRITE) else translate fa3 pgd va)"
    "\<forall>va e. translate fa4 pgd va = Some e \<longrightarrow> \<not> pte_is_block e"
    by (rule map_section[OF 3(2,5) o(7-9) al(5,6) kernel_flags(3)]) (rule that; assumption)
  have le: "al \<subseteq># al4" using 2(3) 3(3) 4(3) by (meson subset_mset.order_trans)
  have ord: "text_end s \<le> rodata_start s" "rodata_end s \<le> data_start s" using s by simp_all
  show thesis
    by (rule that[OF 2(1) 3(1) 4(1,2) le]) (use ord o in \<open>auto simp: 4(4) 3(4) 2(4)\<close>)
qed

lemma kernel_regions:
  assumes inv: "kmap_inv U kernel_paths pgd fa4 al tab" and ram: "BLOCK_2M dvd ram_start" "ram_start + ram_size \<le> MMIO_BASE - DIRECT_MAP_BASE"
  obtains fa5 fa6 al6 tab6 where
    "map_range_2m pgd (DIRECT_MAP_BASE + ram_start) (DIRECT_MAP_BASE + ram_start + ram_size) ram_start MAIR_NORMAL_WB_IDX (VM_READ OR VM_WRITE) (Some fa4) = Some (Some fa5)"
    "map_range_2m pgd MMIO_BASE (MMIO_BASE + 0x40000000) 0 MAIR_DEVICE_IDX (VM_READ OR VM_WRITE) (Some fa5) = Some (Some fa6)"
    "kmap_inv U kernel_paths pgd fa6 al6 tab6" "al \<subseteq># al6"
    "\<And>va. KERNEL_BASE \<le> va \<Longrightarrow> va < 2 ^ 64 \<Longrightarrow> translate fa6 pgd va =
       (if DIRECT_MAP_BASE + ram_start \<le> va \<and> va < DIRECT_MAP_BASE + (ram_start + ram_size + BLOCK_2M - 1) div BLOCK_2M * BLOCK_2M
        then new_block_2m ((va - DIRECT_MAP_BASE) div BLOCK_2M * BLOCK_2M) MAIR_NORMAL_WB_IDX (VM_READ OR VM_WRITE)
        else if MMIO_BASE \<le> va \<and> va < MMIO_BASE + 0x40000000
        then new_block_2m ((va - MMIO_BASE) div BLOCK_2M * BLOCK_2M) MAIR_DEVICE_IDX (VM_READ OR VM_WRITE)
        else translate fa4 pgd va)"
proof -
  obtain c where c: "ram_start = c * BLOCK_2M" using ram(1) by (metis dvdE mult.commute)
  define n where "n = (ram_size + BLOCK_2M - 1) div BLOCK_2M"
  note dm = direct_map_blocks[OF c ram(2), folded n_def]
  have dmb: "DIRECT_MAP_BASE + ram_start = KERNEL_BASE + (2048 + c) * BLOCK_2M"
    using c by (simp add: DIRECT_MAP_BASE_def KERNEL_BASE_def BLOCK_2M_def)
  have bn: "2048 + c + n \<le> 65 * 512" "c + n \<le> 2 ^ 27" "2048 \<le> 2048 + c" using dm(1) by simp_all
  obtain fa5 al5 tab5 where 5: "map_range_2m pgd (DIRECT_MAP_BASE + ram_start) (DIRECT_MAP_BASE + ram_start + ram_size) ram_start MAIR_NORMAL_WB_IDX (VM_READ OR VM_WRITE) (Some fa4) = Some (Some fa5)"
    "kmap_inv U kernel_paths pgd fa5 al5 tab5" "al \<subseteq># al5"
    "\<And>va. KERNEL_BASE \<le> va \<Longrightarrow> va < 2 ^ 64 \<Longrightarrow> translate fa5 pgd va =
       (if DIRECT_MAP_BASE + ram_start \<le> va \<and> va < DIRECT_MAP_BASE + ram_start + n * BLOCK_2M
        then new_block_2m ((va - (DIRECT_MAP_BASE + ram_start)) div BLOCK_2M * BLOCK_2M + ram_start) MAIR_NORMAL_WB_IDX (VM_READ OR VM_WRITE)
        else translate fa4 pgd va)"
    by (rule map_region[OF inv kernel_flags(3) dmb bn(3,1) dm(2) c bn(2)]) (rule that; assumption)
  have mn: "(2048 :: nat) \<le> 32768" "32768 + 512 \<le> (65 * 512 :: nat)" "0 + 512 \<le> (2 ^ 27 :: nat)" by simp_all
  obtain fa6 al6 tab6 where 6: "map_range_2m pgd MMIO_BASE (MMIO_BASE + 0x40000000) 0 MAIR_DEVICE_IDX (VM_READ OR VM_WRITE) (Some fa5) = Some (Some fa6)"
    "kmap_inv U kernel_paths pgd fa6 al6 tab6" "al5 \<subseteq># al6"
    "\<And>va. KERNEL_BASE \<le> va \<Longrightarrow> va < 2 ^ 64 \<Longrightarrow> translate fa6 pgd va =
       (if MMIO_BASE \<le> va \<and> va < MMIO_BASE + 512 * BLOCK_2M
        then new_block_2m ((va - MMIO_BASE) div BLOCK_2M * BLOCK_2M + 0) MAIR_DEVICE_IDX (VM_READ OR VM_WRITE) else translate fa5 pgd va)"
    by (rule map_region[OF 5(2) kernel_flags(3) mmio_blocks(2) mn(1,2) mmio_blocks(1,3) mn(3)]) (rule that; assumption)
  have le: "al \<subseteq># al6" by (rule subset_mset.order_trans[OF 5(3) 6(3)])
  have e: "(va - (DIRECT_MAP_BASE + ram_start)) div BLOCK_2M * BLOCK_2M + ram_start = (va - DIRECT_MAP_BASE) div BLOCK_2M * BLOCK_2M"
    if "DIRECT_MAP_BASE + ram_start \<le> va" for va
  proof -
    have "va - DIRECT_MAP_BASE = (va - (DIRECT_MAP_BASE + ram_start)) + c * BLOCK_2M" using that c by simp
    then show ?thesis using c by (simp add: BLOCK_2M_def)
  qed
  have mm: "DIRECT_MAP_BASE + ram_start + n * BLOCK_2M \<le> MMIO_BASE"
    using dm(1) c by (simp add: DIRECT_MAP_BASE_def MMIO_BASE_def BLOCK_2M_def)
  have "512 * BLOCK_2M = 0x40000000" by (simp add: BLOCK_2M_def)
  note e512 = this
  have e3: "DIRECT_MAP_BASE + (ram_start + ram_size + BLOCK_2M - 1) div BLOCK_2M * BLOCK_2M = DIRECT_MAP_BASE + ram_start + n * BLOCK_2M"
    unfolding dm(3) by simp
  have "translate fa6 pgd va = (if DIRECT_MAP_BASE + ram_start \<le> va \<and> va < DIRECT_MAP_BASE + ram_start + n * BLOCK_2M
        then new_block_2m ((va - DIRECT_MAP_BASE) div BLOCK_2M * BLOCK_2M) MAIR_NORMAL_WB_IDX (VM_READ OR VM_WRITE)
        else if MMIO_BASE \<le> va \<and> va < MMIO_BASE + 0x40000000
        then new_block_2m ((va - MMIO_BASE) div BLOCK_2M * BLOCK_2M) MAIR_DEVICE_IDX (VM_READ OR VM_WRITE)
        else translate fa4 pgd va)" if v: "KERNEL_BASE \<le> va" "va < 2 ^ 64" for va
    using mm e[of va] unfolding 6(4)[OF v] 5(4)[OF v] e512 by simp
  then show thesis by (intro that[OF 5(1) 6(1,2) le]) (simp only: e3)
qed

lemma kernel_map_built:
  assumes "ram48 U" "frames_inv U fa oth" "71 \<le> pool_free_pages fa PoolKernel" "sections_ok s"
    and "BLOCK_2M dvd ram_start" "ram_start + ram_size \<le> MMIO_BASE - DIRECT_MAP_BASE"
  shows "\<exists>pgd fa' T. init_kernel_address_space s ram_start ram_size (Some fa) = Some (pgd, Some fa') \<and> frames_inv U fa' (oth + T) \<and>
    (\<forall>va. KERNEL_BASE \<le> va \<and> va < 2 ^ 64 \<longrightarrow> translate fa' pgd va = kernel_leaf s ram_start ram_size va)"
proof -
  obtain pgd fa1 fa0 where 0: "alloc_page (Some fa) = (Some pgd, Some fa1)" "zero_pages pgd 0 (Some fa1) = Some fa0"
    "kmap_inv U kernel_paths pgd fa0 (add_mset (pgd, 0) oth) [[] \<mapsto> pgd]" "\<And>va. translate fa0 pgd va = None"
    by (rule kmap_inv_start[OF assms(1-3)]) (rule that; assumption)
  have nb0: "\<forall>va e. translate fa0 pgd va = Some e \<longrightarrow> \<not> pte_is_block e" by (simp add: 0(4))
  obtain fa2 fa3 fa4 al4 tab4 where 4:
    "map_range_4k pgd (text_start s) (text_end s) (virt_to_phys (text_start s)) MAIR_NORMAL_WB_IDX (VM_READ OR VM_EXECUTE) (Some fa0) = Some (Some fa2)"
    "map_range_4k pgd (rodata_start s) (rodata_end s) (virt_to_phys (rodata_start s)) MAIR_NORMAL_WB_IDX VM_READ (Some fa2) = Some (Some fa3)"
    "map_range_4k pgd (data_start s) (data_end s) (virt_to_phys (data_start s)) MAIR_NORMAL_WB_IDX (VM_READ OR VM_WRITE) (Some fa3) = Some (Some fa4)"
    "kmap_inv U kernel_paths pgd fa4 al4 tab4" "add_mset (pgd, 0) oth \<subseteq># al4"
    "\<And>va. KERNEL_BASE \<le> va \<Longrightarrow> va < 2 ^ 64 \<Longrightarrow> translate fa4 pgd va =
       (if text_start s \<le> va \<and> va < text_end s then kernel_page va (VM_READ OR VM_EXECUTE)
        else if rodata_start s \<le> va \<and> va < rodata_end s then kernel_page va VM_READ
        else if data_start s \<le> va \<and> va < data_end s then kernel_page va (VM_READ OR VM_WRITE) else translate fa0 pgd va)"
    by (rule kernel_sections[OF assms(4) 0(3) nb0]) (rule that; assumption)
  obtain fa5 fa6 al6 tab6 where 6:
    "map_range_2m pgd (DIRECT_MAP_BASE + ram_start) (DIRECT_MAP_BASE + ram_start + ram_size) ram_start MAIR_NORMAL_WB_IDX (VM_READ OR VM_WRITE) (Some fa4) = Some (Some fa5)"
    "map_range_2m pgd MMIO_BASE (MMIO_BASE + 0x40000000) 0 MAIR_DEVICE_IDX (VM_READ OR VM_WRITE) (Some fa5) = Some (Some fa6)"
    "kmap_inv U kernel_paths pgd fa6 al6 tab6" "al4 \<subseteq># al6"
    "\<And>va. KERNEL_BASE \<le> va \<Longrightarrow> va < 2 ^ 64 \<Longrightarrow> translate fa6 pgd va =
       (if DIRECT_MAP_BASE + ram_start \<le> va \<and> va < DIRECT_MAP_BASE + (ram_start + ram_size + BLOCK_2M - 1) div BLOCK_2M * BLOCK_2M
        then new_block_2m ((va - DIRECT_MAP_BASE) div BLOCK_2M * BLOCK_2M) MAIR_NORMAL_WB_IDX (VM_READ OR VM_WRITE)
        else if MMIO_BASE \<le> va \<and> va < MMIO_BASE + 0x40000000
        then new_block_2m ((va - MMIO_BASE) div BLOCK_2M * BLOCK_2M) MAIR_DEVICE_IDX (VM_READ OR VM_WRITE)
        else translate fa4 pgd va)"
    by (rule kernel_regions[OF 4(4) assms(5,6)]) (rule that; assumption)
  have init: "init_kernel_address_space s ram_start ram_size (Some fa) = Some (pgd, Some fa6)"
    using 0(1,2) 4(1-3) 6(1,2) by (simp add: init_kernel_address_space_def)
  have "oth \<subseteq># al6" using 4(5) 6(4) by (meson mset_subset_eq_insertD subset_mset.less_imp_le subset_mset.order_trans)
  then obtain T where "al6 = oth + T" by (auto simp: subset_mset.le_iff_add)
  then have fi: "frames_inv U fa6 (oth + T)" using 6(3) by (simp add: kmap_inv_def)
  have sec: "va < DIRECT_MAP_BASE" if "va < text_end s \<or> va < rodata_end s \<or> va < data_end s" for va
  proof -
    have "va < KERNEL_BASE + 0x800000" using that assms(4)[unfolded sections_ok_def] by linarith
    then show ?thesis by (simp add: DIRECT_MAP_BASE_def KERNEL_BASE_def)
  qed
  have mb: "DIRECT_MAP_BASE \<le> MMIO_BASE" by (simp add: DIRECT_MAP_BASE_def MMIO_BASE_def)
  have "translate fa6 pgd va = kernel_leaf s ram_start ram_size va" if v: "KERNEL_BASE \<le> va" "va < 2 ^ 64" for va
  proof (cases "va < DIRECT_MAP_BASE")
    case True
    then have "\<not> DIRECT_MAP_BASE + ram_start \<le> va" "\<not> MMIO_BASE \<le> va" using mb by linarith+
    then show ?thesis unfolding 6(5)[OF v] 4(6)[OF v] 0(4) kernel_leaf_def by simp
  next
    case False
    then show ?thesis using sec[of va] unfolding 6(5)[OF v] 4(6)[OF v] 0(4) kernel_leaf_def by auto
  qed
  then show ?thesis using init fi by blast
qed

text \<open>
  C6. The kernel address space is the map it is meant to be, and it is built whenever 71 pages of the
  kernel pool are free: for every linker layout and every RAM of up to 60 GiB that starts at a 2 MiB
  boundary, \<open>init_kernel_address_space\<close> returns, and the hardware walk of every kernel address ends
  exactly in the descriptor \<open>kernel_leaf\<close> names, or nowhere.
\<close>

theorem kernel_map_exact:
  assumes "ram48 U" "frames_inv U fa oth" "71 \<le> pool_free_pages fa PoolKernel" "sections_ok s"
    and "BLOCK_2M dvd ram_start" "ram_start + ram_size \<le> MMIO_BASE - DIRECT_MAP_BASE"
  shows "\<exists>pgd fa' T. init_kernel_address_space s ram_start ram_size (Some fa) = Some (pgd, Some fa') \<and> frames_inv U fa' (oth + T) \<and>
    (\<forall>va. KERNEL_BASE \<le> va \<and> va < 2 ^ 64 \<longrightarrow> translate fa' pgd va = kernel_leaf s ram_start ram_size va)"
  using assms by (rule kernel_map_built)

lemma kernel_page_spec:
  assumes "kernel_page va flags = Some e" "KERNEL_BASE \<le> va" "va < DIRECT_MAP_BASE"
  shows "pte_is_writable e \<longleftrightarrow> vm_contains flags VM_WRITE" "pte_is_executable e \<longleftrightarrow> vm_contains flags VM_EXECUTE"
    "pte_is_user e \<longleftrightarrow> vm_contains flags VM_USER" "pte_phys_addr e = (va - KERNEL_BASE) div PAGE_SIZE * PAGE_SIZE + 0x40000000"
proof -
  let ?p = "(va - KERNEL_BASE) div PAGE_SIZE * PAGE_SIZE + 0x40000000"
  have "(va - KERNEL_BASE) div PAGE_SIZE * PAGE_SIZE \<le> va - KERNEL_BASE" by (rule div_times_less_eq_dividend)
  moreover have "va - KERNEL_BASE < 0x100000000" using assms(2,3) by (simp add: KERNEL_BASE_def DIRECT_MAP_BASE_def less_diff_conv2)
  ultimately have "?p < 0x140000000" by linarith
  then have p: "?p < 2 ^ 48" by simp
  have d: "PAGE_SIZE dvd ?p" by (rule dvd_add) (simp_all add: PAGE_SIZE_def)
  note n = new_page_spec[OF assms(1)[unfolded kernel_page_def] p d]
  show "pte_is_writable e \<longleftrightarrow> vm_contains flags VM_WRITE" "pte_is_executable e \<longleftrightarrow> vm_contains flags VM_EXECUTE"
    "pte_is_user e \<longleftrightarrow> vm_contains flags VM_USER" "pte_phys_addr e = ?p" using n by simp_all
qed

lemma kernel_block_spec:
  assumes "new_block_2m ((va - base) div BLOCK_2M * BLOCK_2M) mair (VM_READ OR VM_WRITE) = Some e" "base = KERNEL_BASE + k" "va < 2 ^ 64"
  shows "pte_is_writable e" "\<not> pte_is_executable e" "\<not> pte_is_user e" "pte_phys_addr e = (va - base) div BLOCK_2M * BLOCK_2M"
proof -
  have "(va - base) div BLOCK_2M * BLOCK_2M \<le> va - base" by (rule div_times_less_eq_dividend)
  moreover have "va - base < 2 ^ 48" using assms(2,3) by (simp add: KERNEL_BASE_def)
  ultimately have "(va - base) div BLOCK_2M * BLOCK_2M < 2 ^ 48" by (rule le_less_trans)
  from new_block_spec[OF assms(1) this] show "pte_is_writable e" "\<not> pte_is_executable e" "\<not> pte_is_user e"
    "pte_phys_addr e = (va - base) div BLOCK_2M * BLOCK_2M" using kernel_flags by simp_all
qed

lemma kernel_bases: "DIRECT_MAP_BASE = KERNEL_BASE + 0x100000000" "MMIO_BASE = KERNEL_BASE + 0x1000000000"
  by (simp_all add: DIRECT_MAP_BASE_def MMIO_BASE_def KERNEL_BASE_def)



text \<open>
  The physical page of every \<open>.text\<close> address that lies in RAM has a second, writable mapping in the
  direct map.
\<close>

lemma kernel_text_alias:
  assumes "ram48 U" "frames_inv U fa oth" "71 \<le> pool_free_pages fa PoolKernel" "sections_ok s"
    and "BLOCK_2M dvd ram_start" "ram_start + ram_size \<le> MMIO_BASE - DIRECT_MAP_BASE"
    and "init_kernel_address_space s ram_start ram_size (Some fa) = Some (pgd, Some fa')"
    and "text_start s \<le> va" "va < text_end s" "ram_start \<le> virt_to_phys va" "virt_to_phys va < ram_start + ram_size"
  shows "\<exists>e e'. translate fa' pgd va = Some e \<and> pte_is_executable e \<and>
    translate fa' pgd (DIRECT_MAP_BASE + virt_to_phys va) = Some e' \<and> pte_is_writable e' \<and>
    pte_phys_addr e \<le> virt_to_phys va \<and> virt_to_phys va < pte_phys_addr e + PAGE_SIZE \<and>
    pte_phys_addr e' \<le> virt_to_phys va \<and> virt_to_phys va < pte_phys_addr e' + BLOCK_2M"
proof -
  have v: "KERNEL_BASE \<le> va" "va < 2 ^ 64" "va < DIRECT_MAP_BASE"
    using assms(4,8,9) by (simp_all add: sections_ok_def KERNEL_BASE_def DIRECT_MAP_BASE_def)
  let ?p = "virt_to_phys va" and ?a = "DIRECT_MAP_BASE + virt_to_phys va"
  have p: "?p = va - KERNEL_BASE + 0x40000000" by (rule virt_to_phys_eq[OF v(1,2)])
  have a: "KERNEL_BASE \<le> ?a" "?a < 2 ^ 64" "?a - DIRECT_MAP_BASE = ?p"
    using v(1,3) unfolding p by (simp_all add: KERNEL_BASE_def DIRECT_MAP_BASE_def)
  have tr: "translate fa' pgd x = kernel_leaf s ram_start ram_size x" if "KERNEL_BASE \<le> x" "x < 2 ^ 64" for x
    using kernel_map_built[OF assms(1-6)] assms(7) that by auto
  have page: "n div k * k \<le> n \<and> n < n div k * k + k" if "0 < k" for n k :: nat
    using div_times_less_eq_dividend[of n k] dividend_less_div_times[OF that, of n] by simp
  obtain e where e: "kernel_page va (VM_READ OR VM_EXECUTE) = Some e" using kernel_flags(1) new_page_None unfolding kernel_page_def by (metis not_None_eq)
  have e1: "translate fa' pgd va = Some e" using tr[OF v(1,2)] e assms(8,9) by (simp add: kernel_leaf_def)
  have "?p < (ram_start + ram_size + BLOCK_2M - 1) div BLOCK_2M * BLOCK_2M"
    using page[of BLOCK_2M "ram_start + ram_size + BLOCK_2M - 1"] assms(11) by (simp add: BLOCK_2M_def)
  moreover have "?a \<ge> KERNEL_BASE + 0x800000" by (simp add: KERNEL_BASE_def DIRECT_MAP_BASE_def)
  then have "\<not> ?a < text_end s" "\<not> ?a < rodata_end s" "\<not> ?a < data_end s" using assms(4)[unfolded sections_ok_def] by linarith+
  ultimately have l: "kernel_leaf s ram_start ram_size ?a = new_block_2m (?p div BLOCK_2M * BLOCK_2M) MAIR_NORMAL_WB_IDX (VM_READ OR VM_WRITE)"
    using assms(10) a(3) by (simp add: kernel_leaf_def)
  have "(?p div BLOCK_2M * BLOCK_2M) AND 0x1FFFFF = ?p div BLOCK_2M * BLOCK_2M mod BLOCK_2M"
    using take_bit_eq_mask[of 21 "?p div BLOCK_2M * BLOCK_2M"] by (simp add: take_bit_eq_mod mask_eq_exp_minus_1 BLOCK_2M_def)
  then obtain e' where e': "new_block_2m (?p div BLOCK_2M * BLOCK_2M) MAIR_NORMAL_WB_IDX (VM_READ OR VM_WRITE) = Some e'"
    using kernel_flags(3) by (simp add: new_block_2m_def wx_ok_iff)
  have "new_block_2m ((?a - DIRECT_MAP_BASE) div BLOCK_2M * BLOCK_2M) MAIR_NORMAL_WB_IDX (VM_READ OR VM_WRITE) = Some e'" unfolding a(3) by (rule e')
  note b = kernel_block_spec[OF this kernel_bases(1) a(2), unfolded a(3)]
  note t = kernel_page_spec[OF e v(1,3)]
  have "translate fa' pgd ?a = Some e'" using tr[OF a(1,2)] l e' by simp
  moreover have "pte_phys_addr e \<le> ?p \<and> ?p < pte_phys_addr e + PAGE_SIZE" using t(4) page[of PAGE_SIZE "va - KERNEL_BASE"] p by (simp add: PAGE_SIZE_def)
  moreover have "pte_phys_addr e' \<le> ?p \<and> ?p < pte_phys_addr e' + BLOCK_2M" using b(4) page[of BLOCK_2M ?p] by (simp add: BLOCK_2M_def)
  ultimately show ?thesis using e1 t(2) b(1) kernel_flags(4) by blast
qed

section \<open>An example\<close>

definition demo128_config :: PoolConfig where
  "demo128_config = \<lparr>cfg_kernel = 0x80000, cfg_model = 0, cfg_user = 0, cfg_dma = 0, cfg_reserved = 0\<rparr>"

definition demo128 :: FrameAllocator where
  "demo128 = boot_frames (\<lambda>_. 0) (\<lambda>_. 0) 0x100000 0x180000 demo128_config (0, 0) (0, 0) 128"

abbreviation demo128_pages :: "Pool \<Rightarrow> nat set" where
  "demo128_pages \<equiv> boot_pages 0x100000 0x180000 demo128_config (0, 0) (0, 0)"

lemma demo128_bounds: "pool_bounds 0x100000 0x180000 demo128_config = (0x100000, 0x180000, 0x180000, 0x180000)"
  by (simp add: pool_bounds_def demo128_config_def)

lemma demo128_inv: "frames_inv demo128_pages demo128 {#}"
  unfolding demo128_def by (rule frames_inv_boot) (simp add: layout_ok_def demo128_config_def PAGE_SIZE_def excl_ok_def)

lemma demo128_bitmap: "bitmap_page_count 0x100000 0x180000 = 1"
  by (simp add: bitmap_page_count_def MAX_ORDER_def PAGE_SIZE_def div_ceil_def Let_def upt_rec)

lemma demo128_pages_eq: "demo128_pages PoolKernel = pool_pages 0x100000 0x180000 (0, 0) (0, 0)" "p \<noteq> PoolKernel \<Longrightarrow> demo128_pages p = {}"
  by (simp_all add: boot_pages_def demo128_bounds new_pool_pages_def split: Pool.split)

lemma demo128_page_set: "x \<in> pool_pages 0x100000 0x180000 (0, 0) (0, 0) \<longleftrightarrow> 0x101000 \<le> x \<and> x + PAGE_SIZE \<le> 0x180000 \<and> PAGE_SIZE dvd x"
  by (auto simp: pool_pages_def usable_def demo128_bitmap PAGE_SIZE_def)

lemma demo128_ram: "ram48 demo128_pages"
proof -
  have "x < 2 ^ 48" if "x \<in> demo128_pages p" for x p
    using that demo128_pages_eq demo128_page_set[of x] by (cases p) auto
  then show ?thesis by (simp add: ram48_def)
qed

lemma demo128_free: "71 \<le> pool_free_pages demo128 PoolKernel"
proof -
  have u: "(\<Union>p. demo128_pages p) = pool_pages 0x100000 0x180000 (0, 0) (0, 0)"
    using demo128_pages_eq by (auto split: if_splits) (metis empty_iff)
  let ?f = "\<lambda>i. 0x101000 + i * PAGE_SIZE"
  have "?f ` {..<71} \<subseteq> pool_pages 0x100000 0x180000 (0, 0) (0, 0)"
    by (auto simp: demo128_page_set PAGE_SIZE_def)
  moreover have "finite (pool_pages 0x100000 0x180000 (0, 0) (0, 0))"
    by (rule finite_subset[of _ "{..0x180000}"]) (auto simp: demo128_page_set)
  ultimately have "card (?f ` {..<71}) \<le> card (pool_pages 0x100000 0x180000 (0, 0) (0, 0))"
    by (intro card_mono)
  moreover have "card (?f ` {..<71}) = 71" by (subst card_image) (auto simp: inj_on_def PAGE_SIZE_def)
  moreover have "pools_total_free (pools demo128) = card (pool_pages 0x100000 0x180000 (0, 0) (0, 0))"
    using frames_inv_accounting[OF demo128_inv] u by simp
  moreover have "pools_total_free (pools demo128) = pool_free_pages demo128 PoolKernel"
    by (simp add: pools_total_free_def pool_free_pages_def get_pool_def demo128_def boot_frames_def pools_init_def demo128_bounds
        new_pool_def buddy_new_def)
  ultimately show ?thesis by simp
qed

definition demo_sections :: Sections where
  "demo_sections = \<lparr>text_start = KERNEL_BASE + 0x80000, text_end = KERNEL_BASE + 0x90000, rodata_start = KERNEL_BASE + 0x90000,
     rodata_end = KERNEL_BASE + 0x98000, data_start = KERNEL_BASE + 0x98000, data_end = KERNEL_BASE + 0xC0000\<rparr>"

lemma demo_sections_ok: "sections_ok demo_sections"
  by (simp add: sections_ok_def demo_sections_def KERNEL_BASE_def PAGE_SIZE_def)

lemma demo_ram: "BLOCK_2M dvd 0x40000000" "0x40000000 + 0x80000000 \<le> MMIO_BASE - DIRECT_MAP_BASE"
  by (simp_all add: BLOCK_2M_def MMIO_BASE_def DIRECT_MAP_BASE_def)

theorem kernel_map_exact_witness:
  "\<exists>pgd fa'. init_kernel_address_space demo_sections 0x40000000 0x80000000 (Some demo128) = Some (pgd, Some fa') \<and>
     translate fa' pgd (KERNEL_BASE + 0x91234) = kernel_page (KERNEL_BASE + 0x91234) VM_READ \<and>
     translate fa' pgd (KERNEL_BASE + 0x100000) = None"
proof -
  obtain pgd fa' where i: "init_kernel_address_space demo_sections 0x40000000 0x80000000 (Some demo128) = Some (pgd, Some fa')"
    "\<And>va. KERNEL_BASE \<le> va \<Longrightarrow> va < 2 ^ 64 \<Longrightarrow> translate fa' pgd va = kernel_leaf demo_sections 0x40000000 0x80000000 va"
    using kernel_map_exact[OF demo128_ram demo128_inv demo128_free demo_sections_ok demo_ram] by blast
  show ?thesis using i(1) i(2)[of "KERNEL_BASE + 0x91234"] i(2)[of "KERNEL_BASE + 0x100000"]
    by (auto simp: kernel_leaf_def demo_sections_def KERNEL_BASE_def DIRECT_MAP_BASE_def MMIO_BASE_def)
qed


end
