(* ===== verification/Shared_Memory.thy ===== *)
theory Shared_Memory
  imports Kernel_Map Cap_Enforce
begin

text \<open>
  Shared and private memory of processes (\<open>kernel/src/ipc/shmem.rs\<close>): regions that are created, mapped,
  shared and unmapped under capabilities and reference counts, the private blocks of \<open>memory_map\<close>, and
  the cleanup when a process exits. Blocks come from the user pool of the frame allocator and are zeroed
  through the direct map. The result \<open>None\<close> is a panic: the allocator's double-free check, which an owner
  can provoke by leaving the poison pattern in the first word of a block. \<open>shm_reach\<close> interleaves the
  calls of all processes with the other users of the pools and with writes to memory.
\<close>

section \<open>Constants\<close>

definition USER_HEAP_BASE :: nat where "USER_HEAP_BASE = 0x10000000"
definition USER_STACK_BASE :: nat where "USER_STACK_BASE = 0x00007FFFFFC00000"
definition SHM_VA_BASE :: nat where "SHM_VA_BASE = USER_HEAP_BASE"
definition MAX_SHARED_REGION_PAGES :: nat where "MAX_SHARED_REGION_PAGES = 2 ^ MAX_ORDER"
definition SHM_VA_STRIDE :: nat where "SHM_VA_STRIDE = MAX_SHARED_REGION_PAGES * PAGE_SIZE"
definition MAX_PRIVATE_PAGES :: nat where "MAX_PRIVATE_PAGES = 64"
definition PRIVATE_VA_BASE :: nat where "PRIVATE_VA_BASE = SHM_VA_BASE + MAX_SHARED_REGIONS * SHM_VA_STRIDE"
definition PRIVATE_VA_STRIDE :: nat where "PRIVATE_VA_STRIDE = MAX_PRIVATE_PAGES * PAGE_SIZE"

section \<open>Regions\<close>

text \<open>The first mapping of a process: \<open>find\<close> and \<open>any\<close> stop there.\<close>

fun mapping_slot :: "ProcessId \<Rightarrow> SharedMapping option list \<Rightarrow> nat option" where
  "mapping_slot pid [] = None"
| "mapping_slot pid (m # ms) =
     (case m of
        Some x \<Rightarrow> if sm_pid x = pid then Some 0 else map_option Suc (mapping_slot pid ms)
      | None \<Rightarrow> map_option Suc (mapping_slot pid ms))"

definition shared_memory_create ::
  "ProcessId \<Rightarrow> nat \<Rightarrow> VmFlags \<Rightarrow> Kernel \<Rightarrow> ((SharedMemoryId, int) result \<times> Kernel) option" where
  "shared_memory_create pid sz flags k =
     (if vm_contains flags (VM_WRITE OR VM_EXECUTE) then Some (Err (errno Einval), k)
      else let size_pages = max (div_ceil sz PAGE_SIZE) 1 in
      if size_pages > MAX_SHARED_REGION_PAGES then Some (Err (errno Einval), k)
      else case check_shared_memory_create k pid of
        Err e \<Rightarrow> Some (Err e, k)
      | Ok cap_token \<Rightarrow>
          let order = order_for_pages size_pages in
          (case alloc_user_pages order (frame_alloc k) of
             (None, g) \<Rightarrow> Some (Err (errno Enomem), k\<lparr>frame_alloc := g\<rparr>)
           | (Some base_phys, g) \<Rightarrow>
               let k1 = k\<lparr>frame_alloc := zero_pages base_phys order g\<rparr> in
               (case first_free (shared_regions k1) of
                  None \<Rightarrow>
                    (case free_user_pages base_phys order (frame_alloc k1) of
                       None \<Rightarrow> None
                     | Some g2 \<Rightarrow> Some (Err (errno Enospc), k1\<lparr>frame_alloc := g2\<rparr>))
                | Some idx \<Rightarrow>
                    let r = \<lparr>sr_id = word_of_nat idx, sr_base_phys = base_phys, sr_order = order,
                             size_bytes = size_pages * PAGE_SIZE, ref_count = 0, sr_creator = pid, max_flags = flags,
                             sr_creation_cap = Some cap_token, mappings = replicate MAX_SHARED_MAPPINGS None\<rparr>;
                        k2 = k1\<lparr>shared_regions := (shared_regions k1)[idx := Some r]\<rparr>
                    in Some (Ok (word_of_nat idx), snd (grant_to_process pid (SharedMemoryAccess (word_of_nat idx)) True k2)))))"

definition shared_memory_map ::
  "ProcessId \<Rightarrow> SharedMemoryId \<Rightarrow> VmFlags \<Rightarrow> Kernel \<Rightarrow> (nat, int) result \<times> Kernel" where
  "shared_memory_map pid region_id flags k =
     (if unat region_id \<ge> MAX_SHARED_REGIONS then (Err (errno Einval), k)
      else if vm_contains flags (VM_WRITE OR VM_EXECUTE) then (Err (errno Einval), k)
      else case check_shared_memory_access k pid region_id of
        Err e \<Rightarrow> (Err e, k)
      | Ok _ \<Rightarrow>
          (case shared_regions k ! unat region_id of
             None \<Rightarrow> (Err (errno Epipe), k)
           | Some region \<Rightarrow>
               if \<not> vm_contains (max_flags region) flags then (Err (errno Einval), k)
               else if mapping_slot pid (mappings region) \<noteq> None then (Err (errno Eexist), k)
               else (case first_free (mappings region) of
                 None \<Rightarrow> (Err (errno Enospc), k)
               | Some slot_idx \<Rightarrow>
                   let va = SHM_VA_BASE + unat region_id * SHM_VA_STRIDE;
                       region' = region\<lparr>mappings := (mappings region)[slot_idx := Some \<lparr>sm_pid = pid, sm_vaddr = va, sm_flags = flags\<rparr>],
                                        ref_count := ref_count region + 1\<rparr>
                   in (Ok va, k\<lparr>shared_regions := (shared_regions k)[unat region_id := Some region']\<rparr>))))"

definition shared_memory_unmap ::
  "ProcessId \<Rightarrow> SharedMemoryId \<Rightarrow> Kernel \<Rightarrow> ((unit, int) result \<times> Kernel) option" where
  "shared_memory_unmap pid region_id k =
     (if unat region_id \<ge> MAX_SHARED_REGIONS then Some (Err (errno Einval), k)
      else case shared_regions k ! unat region_id of
        None \<Rightarrow> Some (Err (errno Epipe), k)
      | Some region \<Rightarrow>
          (case mapping_slot pid (mappings region) of
             None \<Rightarrow> Some (Err (errno Eperm), k)
           | Some j \<Rightarrow>
               let region1 = region\<lparr>mappings := (mappings region)[j := None]\<rparr>;
                   k1 = k\<lparr>shared_regions := (shared_regions k)[unat region_id := Some region1]\<rparr>
               in if ref_count region1 = 0 then Some (Err (errno Einval), k1)
                  else let old_ref = ref_count region1 in
                  if old_ref = 1 then
                    (case free_user_pages (sr_base_phys region1) (sr_order region1) (frame_alloc k1) of
                       None \<Rightarrow> None
                     | Some g \<Rightarrow> Some (Ok (), k1\<lparr>shared_regions := (shared_regions k1)[unat region_id := None], frame_alloc := g\<rparr>))
                  else
                    Some (Ok (), k1\<lparr>shared_regions := (shared_regions k1)[unat region_id := Some (region1\<lparr>ref_count := old_ref - 1\<rparr>)]\<rparr>)))"

definition shared_memory_share ::
  "ProcessId \<Rightarrow> SharedMemoryId \<Rightarrow> ProcessId \<Rightarrow> Kernel \<Rightarrow> (unit, int) result \<times> Kernel" where
  "shared_memory_share pid region_id target_pid k =
     (if unat region_id \<ge> MAX_SHARED_REGIONS then (Err (errno Einval), k)
      else if process_index target_pid = None then (Err (errno Einval), k)
      else case shared_regions k ! unat region_id of
        None \<Rightarrow> (Err (errno Epipe), k)
      | Some region \<Rightarrow>
          if sr_creator region \<noteq> pid then (Err (errno Eperm), k)
          else (case grant_to_process target_pid (SharedMemoryAccess region_id) False k of
                  (Err e, k') \<Rightarrow> (Err e, k')
                | (Ok _, k') \<Rightarrow> (Ok (), k')))"

text \<open>Process exit: the loop over the table, then the blocks collected.\<close>

fun cleanup_slots ::
  "ProcessId \<Rightarrow> SharedMemoryRegion option list \<Rightarrow> SharedMemoryRegion option list \<times> (nat \<times> nat) list" where
  "cleanup_slots pid [] = ([], [])"
| "cleanup_slots pid (slot # rest) =
     (case cleanup_slots pid rest of (rest', to_free) \<Rightarrow>
        case slot of
          None \<Rightarrow> (None # rest', to_free)
        | Some region \<Rightarrow>
            (case mapping_slot pid (mappings region) of
               None \<Rightarrow> (Some region # rest', to_free)
             | Some j \<Rightarrow>
                 let region1 = region\<lparr>mappings := (mappings region)[j := None]\<rparr> in
                 if ref_count region1 = 0 then (Some region1 # rest', to_free)
                 else if ref_count region1 = 1 then (None # rest', (sr_base_phys region1, sr_order region1) # to_free)
                 else (Some (region1\<lparr>ref_count := ref_count region1 - 1\<rparr>) # rest', to_free)))"

fun free_regions :: "(nat \<times> nat) list \<Rightarrow> FrameAllocator option \<Rightarrow> FrameAllocator option option" where
  "free_regions [] g = Some g"
| "free_regions ((phys, order) # to_free) g =
     (case free_user_pages phys order g of None \<Rightarrow> None | Some g' \<Rightarrow> free_regions to_free g')"

definition process_cleanup_shared_memory :: "ProcessId \<Rightarrow> Kernel \<Rightarrow> Kernel option" where
  "process_cleanup_shared_memory pid k =
     (case cleanup_slots pid (shared_regions k) of (table, to_free) \<Rightarrow>
        (case free_regions to_free (frame_alloc k) of
           None \<Rightarrow> None
         | Some g \<Rightarrow> Some (k\<lparr>shared_regions := table, frame_alloc := g\<rparr>)))"

section \<open>Private memory\<close>

definition memory_map :: "ProcessId \<Rightarrow> nat \<Rightarrow> VmFlags \<Rightarrow> Kernel \<Rightarrow> ((nat, int) result \<times> Kernel) option" where
  "memory_map pid sz flags k =
     (if vm_contains flags (VM_WRITE OR VM_EXECUTE) then Some (Err (errno Einval), k)
      else let pages = max (div_ceil sz PAGE_SIZE) 1 in
      if pages > MAX_PRIVATE_PAGES then Some (Err (errno Einval), k)
      else let order = order_for_pages pages in
      (case alloc_user_pages order (frame_alloc k) of
         (None, g) \<Rightarrow> Some (Err (errno Enomem), k\<lparr>frame_alloc := g\<rparr>)
       | (Some base_phys, g) \<Rightarrow>
           let k1 = k\<lparr>frame_alloc := zero_pages base_phys order g\<rparr> in
           (case first_free (private_allocs k1) of
              Some i \<Rightarrow>
                Some (Ok (PRIVATE_VA_BASE + i * PRIVATE_VA_STRIDE),
                      k1\<lparr>private_allocs := (private_allocs k1)
                            [i := Some \<lparr>pa_owner = pid, pa_base_phys = base_phys, pa_order = order, pa_pages = pages\<rparr>]\<rparr>)
            | None \<Rightarrow>
                (case free_user_pages base_phys order (frame_alloc k1) of
                   None \<Rightarrow> None
                 | Some g2 \<Rightarrow> Some (Err (errno Enospc), k1\<lparr>frame_alloc := g2\<rparr>)))))"

definition private_slot :: "nat \<Rightarrow> nat option" where
  "private_slot va =
     (if va < PRIVATE_VA_BASE then None
      else let off = va - PRIVATE_VA_BASE; idx = off div PRIVATE_VA_STRIDE
           in if off mod PRIVATE_VA_STRIDE = 0 \<and> idx < MAX_PRIVATE_ALLOCATIONS then Some idx else None)"

definition memory_unmap :: "ProcessId \<Rightarrow> nat \<Rightarrow> nat \<Rightarrow> Kernel \<Rightarrow> ((unit, int) result \<times> Kernel) option" where
  "memory_unmap pid va sz k =
     (if SHM_VA_BASE \<le> va \<and> va < SHM_VA_BASE + MAX_SHARED_REGIONS * SHM_VA_STRIDE \<and>
         (va - SHM_VA_BASE) div SHM_VA_STRIDE < MAX_SHARED_REGIONS
      then shared_memory_unmap pid (word_of_nat ((va - SHM_VA_BASE) div SHM_VA_STRIDE)) k
      else let pages = max (div_ceil sz PAGE_SIZE) 1 in
      (case private_slot va of
         None \<Rightarrow> Some (Err (errno Einval), k)
       | Some idx \<Rightarrow>
           (case private_allocs k ! idx of
              None \<Rightarrow> Some (Err (errno Einval), k)
            | Some a \<Rightarrow>
                if pa_owner a = pid \<and> pa_pages a = pages then
                  let k1 = k\<lparr>private_allocs := (private_allocs k)[idx := None]\<rparr> in
                  (case free_user_pages (pa_base_phys a) (pa_order a) (frame_alloc k1) of
                     None \<Rightarrow> None
                   | Some g \<Rightarrow> Some (Ok (), k1\<lparr>frame_alloc := g\<rparr>))
                else Some (Err (errno Einval), k))))"

section \<open>Access from kernel threads\<close>

definition region_dmap_addr :: "SharedMemoryId \<Rightarrow> Kernel \<Rightarrow> nat option" where
  "region_dmap_addr region_id k =
     (if unat region_id \<ge> MAX_SHARED_REGIONS then None
      else map_option (\<lambda>r. DIRECT_MAP_BASE + sr_base_phys r) (shared_regions k ! unat region_id))"

definition region_size :: "SharedMemoryId \<Rightarrow> Kernel \<Rightarrow> nat option" where
  "region_size region_id k =
     (if unat region_id \<ge> MAX_SHARED_REGIONS then None
      else map_option size_bytes (shared_regions k ! unat region_id))"

section \<open>Orders\<close>

lemma order_loop_exact:
  assumes "pages \<le> 2 ^ (order + fuel)" "order = 0 \<or> 2 ^ (order - 1) < pages"
  shows "pages \<le> 2 ^ order_loop fuel pages order \<and> (order_loop fuel pages order = 0 \<or> 2 ^ (order_loop fuel pages order - 1) < pages)"
  using assms by (induction fuel pages order rule: order_loop.induct) auto

lemma order_for_pages_exact:
  assumes "1 \<le> pages"
  shows "pages \<le> 2 ^ order_for_pages pages" "order_for_pages pages = 0 \<or> 2 ^ (order_for_pages pages - 1) < pages"
proof -
  have "pages \<le> 2 ^ (0 + pages)" using less_exp[of pages] by simp
  from order_loop_exact[OF this] show "pages \<le> 2 ^ order_for_pages pages" "order_for_pages pages = 0 \<or> 2 ^ (order_for_pages pages - 1) < pages"
    using assms by (auto simp: order_for_pages_def)
qed

lemma order_for_pages_le:
  assumes "1 \<le> pages" "pages \<le> 2 ^ n"
  shows "order_for_pages pages \<le> n"
proof (rule ccontr)
  assume a: "\<not> order_for_pages pages \<le> n"
  then have "(2 :: nat) ^ n \<le> 2 ^ (order_for_pages pages - 1)" by (intro power_increasing) auto
  then have "pages \<le> 2 ^ (order_for_pages pages - 1)" by (rule order_trans[OF assms(2)])
  then show False using order_for_pages_exact(2)[OF assms(1)] a by auto
qed

section \<open>Tables of blocks\<close>

lemma occupied_fill:
  assumes "i < length xs" "xs ! i = None"
  shows "mset (occupied (xs[i := Some x])) = add_mset x (mset (occupied xs))"
  using occupied_update_free[OF assms, of x] by auto

lemma occupied_clear:
  assumes "i < length xs" "xs ! i = Some x"
  shows "mset (occupied xs) = add_mset x (mset (occupied (xs[i := None])))"
  using occupied_fill[of i "xs[i := None]" x] assms list_update_id[of xs i] by simp

lemma length_occupied_fill: "i < length xs \<Longrightarrow> xs ! i = None \<Longrightarrow> length (occupied (xs[i := Some x])) = Suc (length (occupied xs))"
  using arg_cong[OF occupied_fill, of i xs size x] by simp

lemma length_occupied_clear: "i < length xs \<Longrightarrow> xs ! i = Some x \<Longrightarrow> length (occupied xs) = Suc (length (occupied (xs[i := None])))"
  using arg_cong[OF occupied_clear, of i xs x size] by simp

definition region_block :: "SharedMemoryRegion \<Rightarrow> nat \<times> nat" where
  "region_block r = (sr_base_phys r, sr_order r)"

definition private_block :: "PrivateAllocation \<Rightarrow> nat \<times> nat" where
  "private_block a = (pa_base_phys a, pa_order a)"

definition shm_blocks :: "Kernel \<Rightarrow> (nat \<times> nat) multiset" where
  "shm_blocks k = image_mset region_block (mset (occupied (shared_regions k))) + image_mset private_block (mset (occupied (private_allocs k)))"

lemma mapping_slot_SomeD:
  "mapping_slot pid ms = Some j \<Longrightarrow> j < length ms \<and> (\<exists>m. ms ! j = Some m \<and> sm_pid m = pid)"
proof (induction ms arbitrary: j)
  case (Cons m ms)
  show ?case
  proof (cases "\<exists>x. m = Some x \<and> sm_pid x = pid")
    case True
    then show ?thesis using Cons.prems by auto
  next
    case False
    then have "mapping_slot pid (m # ms) = map_option Suc (mapping_slot pid ms)" by (auto split: option.split)
    then obtain i where "mapping_slot pid ms = Some i" "j = Suc i" using Cons.prems by auto
    then show ?thesis using Cons.IH by simp
  qed
qed simp

lemma mapping_slot_None: "mapping_slot pid ms = None \<longleftrightarrow> (\<forall>m. Some m \<in> set ms \<longrightarrow> sm_pid m \<noteq> pid)"
proof (induction ms)
  case (Cons m ms)
  then show ?case by (cases m) auto
qed simp

section \<open>The invariant\<close>

text \<open>
  A region in slot \<open>i\<close>: its block is the smallest that holds its size and fits its address slot, the
  reference count is the number of mappings, each process has at most one mapping, at the region's
  address, with no more than the region's permissions, and these are not both writable and executable.
\<close>

definition region_ok :: "nat \<Rightarrow> SharedMemoryRegion \<Rightarrow> bool" where
  "region_ok i r \<longleftrightarrow>
     sr_id r = word_of_nat i \<and>
     (\<exists>n. 1 \<le> n \<and> n \<le> MAX_SHARED_REGION_PAGES \<and> size_bytes r = n * PAGE_SIZE \<and> sr_order r = order_for_pages n) \<and>
     length (mappings r) = MAX_SHARED_MAPPINGS \<and> unat (ref_count r) = length (occupied (mappings r)) \<and>
     (\<forall>a b m m'. a < length (mappings r) \<and> b < length (mappings r) \<and> mappings r ! a = Some m \<and> mappings r ! b = Some m' \<and>
        sm_pid m = sm_pid m' \<longrightarrow> a = b) \<and>
     (\<forall>m. Some m \<in> set (mappings r) \<longrightarrow> sm_vaddr m = SHM_VA_BASE + i * SHM_VA_STRIDE \<and> vm_contains (max_flags r) (sm_flags m)) \<and>
     wx_ok (max_flags r)"

definition private_ok :: "PrivateAllocation \<Rightarrow> bool" where
  "private_ok a \<longleftrightarrow> 1 \<le> pa_pages a \<and> pa_pages a \<le> MAX_PRIVATE_PAGES \<and> pa_order a = order_for_pages (pa_pages a)"

definition regions_ok :: "nat \<Rightarrow> SharedMemoryRegion option list \<Rightarrow> bool" where
  "regions_ok n rs \<longleftrightarrow> (\<forall>i < length rs. case rs ! i of None \<Rightarrow> True | Some r \<Rightarrow> region_ok (n + i) r)"

definition shm_tables_ok :: "Kernel \<Rightarrow> bool" where
  "shm_tables_ok k \<longleftrightarrow>
     length (shared_regions k) = MAX_SHARED_REGIONS \<and> length (private_allocs k) = MAX_PRIVATE_ALLOCATIONS \<and>
     regions_ok 0 (shared_regions k) \<and> (\<forall>a. Some a \<in> set (private_allocs k) \<longrightarrow> private_ok a)"

definition shm_inv :: "(Pool \<Rightarrow> nat set) \<Rightarrow> Kernel \<Rightarrow> (nat \<times> nat) multiset \<Rightarrow> bool" where
  "shm_inv U k oth \<longleftrightarrow> shm_tables_ok k \<and> (\<exists>fa. frame_alloc k = Some fa \<and> frames_inv U fa (oth + shm_blocks k))"

lemma vm_contains_trans: "vm_contains a b \<Longrightarrow> vm_contains b c \<Longrightarrow> vm_contains a c"
  unfolding vm_contains_def by (metis and.assoc)

lemma wx_sub: "wx_ok a \<Longrightarrow> vm_contains a b \<Longrightarrow> wx_ok b"
  unfolding wx_ok_def using vm_contains_trans by blast

lemma region_ok_new:
  assumes "wx_ok flags" "1 \<le> n" "n \<le> MAX_SHARED_REGION_PAGES" "order = order_for_pages n"
  shows "region_ok i \<lparr>sr_id = word_of_nat i, sr_base_phys = a, sr_order = order, size_bytes = n * PAGE_SIZE, ref_count = 0,
     sr_creator = pid, max_flags = flags, sr_creation_cap = c, mappings = replicate MAX_SHARED_MAPPINGS None\<rparr>"
  using assms by (auto simp: region_ok_def)

lemma region_ok_map:
  assumes ok: "region_ok i r" and free: "mapping_slot pid (mappings r) = None" "first_free (mappings r) = Some j"
    and fl: "vm_contains (max_flags r) flags"
  shows "region_ok i (r\<lparr>mappings := (mappings r)[j := Some \<lparr>sm_pid = pid, sm_vaddr = SHM_VA_BASE + i * SHM_VA_STRIDE, sm_flags = flags\<rparr>],
    ref_count := ref_count r + 1\<rparr>)"
proof -
  note j = first_free_length[OF free(2)] first_free_empty[OF free(2)]
  let ?m = "\<lparr>sm_pid = pid, sm_vaddr = SHM_VA_BASE + i * SHM_VA_STRIDE, sm_flags = flags\<rparr>"
  let ?ms = "(mappings r)[j := Some ?m]"
  have "length (occupied ?ms) = Suc (length (occupied (mappings r)))" by (rule length_occupied_fill[OF j])
  moreover have "length (occupied ?ms) \<le> 8" using length_occupied_le[of ?ms] ok by (simp add: region_ok_def MAX_SHARED_MAPPINGS_def)
  ultimately have rc: "unat (ref_count r + 1) = length (occupied ?ms)" using ok by (simp add: region_ok_def unat_word_ariths)
  have np: "sm_pid m \<noteq> pid" if "mappings r ! a = Some m" "a < length (mappings r)" for a m
    using free(1) that unfolding mapping_slot_None by (metis nth_mem)
  have inj: "a = b" if "a < length ?ms" "b < length ?ms" "?ms ! a = Some m" "?ms ! b = Some m'" "sm_pid m = sm_pid m'" for a b m m'
    using that np[of a] np[of b] ok unfolding region_ok_def by (cases "a = j"; cases "b = j") auto
  have mem: "Some m \<in> set ?ms \<longleftrightarrow> m = ?m \<or> Some m \<in> set (mappings r)" for m by (rule Some_in_update_free[OF j])
  show ?thesis using ok rc inj mem fl unfolding region_ok_def by auto
qed

lemma region_ok_unmap:
  assumes ok: "region_ok i r" and s: "mapping_slot pid (mappings r) = Some j"
  defines "r' \<equiv> r\<lparr>mappings := (mappings r)[j := None], ref_count := ref_count r - 1\<rparr>"
  shows "ref_count r \<noteq> 0" "region_ok i r'" "mapping_slot pid (mappings r') = None" "ref_count r = 1 \<longleftrightarrow> occupied (mappings r') = []"
proof -
  obtain m where j: "j < length (mappings r)" "mappings r ! j = Some m" "sm_pid m = pid" using mapping_slot_SomeD[OF s] by blast
  let ?ms = "(mappings r)[j := None]"
  have l: "length (occupied (mappings r)) = Suc (length (occupied ?ms))" by (rule length_occupied_clear[OF j(1,2)])
  have u: "unat (ref_count r) = Suc (length (occupied ?ms))" using ok l by (simp add: region_ok_def)
  then show nz: "ref_count r \<noteq> 0" by auto
  have rc: "unat (ref_count r - 1) = length (occupied ?ms)" using u nz by (simp add: unat_minus_one)
  have "ref_count r = 1 \<longleftrightarrow> unat (ref_count r) = 1" by (metis unat_1 word_unat_eq_iff)
  then show "ref_count r = 1 \<longleftrightarrow> occupied (mappings r') = []" using u by (simp add: r'_def)
  have inj: "a = b" if "a < length ?ms" "b < length ?ms" "?ms ! a = Some m1" "?ms ! b = Some m2" "sm_pid m1 = sm_pid m2" for a b m1 m2
    using that ok unfolding region_ok_def by (cases "a = j"; cases "b = j") auto
  have mem: "Some x \<in> set (mappings r)" if "Some x \<in> set ?ms" for x
    using that set_update_subset_insert[of "mappings r" j None] by auto
  show "region_ok i r'" using ok rc inj mem unfolding region_ok_def r'_def by auto
  have "sm_pid x \<noteq> pid" if mx: "Some x \<in> set ?ms" for x
  proof
    assume "sm_pid x = pid"
    obtain a where "a < length ?ms" "?ms ! a = Some x" using mx unfolding in_set_conv_nth by blast
    moreover from this have "a \<noteq> j" using j(1) by auto
    ultimately show False using ok j \<open>sm_pid x = pid\<close> unfolding region_ok_def by auto
  qed
  then show "mapping_slot pid (mappings r') = None" by (simp add: mapping_slot_None r'_def)
qed

lemma regions_ok_update:
  assumes "regions_ok n rs" "case v of None \<Rightarrow> True | Some r \<Rightarrow> region_ok (n + i) r"
  shows "regions_ok n (rs[i := v])"
  unfolding regions_ok_def
proof (intro allI impI)
  fix j assume "j < length (rs[i := v])"
  then show "case rs[i := v] ! j of None \<Rightarrow> True | Some r \<Rightarrow> region_ok (n + j) r"
    using assms unfolding regions_ok_def by (cases "j = i"; cases v) simp_all
qed

section \<open>Blocks from the user pool\<close>

lemma user_alloc_cases:
  assumes "frames_inv U fa al" "alloc_user_pages order (Some fa) = (r, g)"
  obtains (none) "r = None" "g = Some fa"
  | (block) a fa1 fa2 where "r = Some a" "g = Some fa1" "zero_pages a order g = Some fa2" "frames_inv U fa2 (add_mset (a, order) al)"
      "\<forall>i < 2 ^ order * PAGE_SIZE div 8. fa_read (a + i * 8) fa2 = Some 0" "\<forall>blk\<in>#al. \<forall>w\<in>bytes_of blk. fa_read w fa2 = fa_read w fa"
proof -
  obtain fa1 where a: "fa_alloc_pages PoolUser order fa = (r, fa1)" "g = Some fa1"
    using assms(2) by (auto simp: alloc_user_pages_def split: prod.splits)
  show thesis
  proof (cases r)
    case None
    then show thesis using frames_inv_alloc[OF assms(1) a(1)] a(2) none by simp
  next
    case (Some b)
    have i1: "frames_inv U fa1 (add_mset (b, order) al)" using frames_inv_alloc[OF assms(1) a(1)] Some by simp
    let ?n = "2 ^ order * PAGE_SIZE div 8"
    let ?fa = "fold (\<lambda>i. fa_write (b + i * 8) 0) [0..<?n] fa1"
    have n: "?n * 8 \<le> PAGE_SIZE * 2 ^ order" by (simp add: PAGE_SIZE_def)
    have i2: "frames_inv U ?fa (add_mset (b, order) al)" using zero_fold_inv[OF i1 _ n] by simp
    have z: "\<forall>i < ?n. fa_read (b + i * 8) ?fa = Some 0" using zero_fold_zero[OF i1 _ n] by simp
    have rd: "fa_read w ?fa = fa_read w fa" if w: "blk \<in># al" "w \<in> bytes_of blk" for blk w
    proof -
      obtain al2 where "al = add_mset blk al2" using w(1) by (auto dest: multi_member_split)
      then have dj: "bytes_of (b, order) \<inter> bytes_of blk = {}" using frames_inv_disjoint[of U fa1 "(b, order)" blk al2] i1 by simp
      have "w \<noteq> b + i * 8" if "i < ?n" for i
      proof -
        have "b + i * 8 \<in> bytes_of (b, order)" using that n by (simp add: bytes_of_def)
        then show ?thesis using dj w(2) by blast
      qed
      then have "fa_read w ?fa = fa_read w fa1" by (intro zero_fold_other) simp
      also have "\<dots> = fa_read w fa" by (rule frames_alloc_keeps[OF assms(1) a(1) w])
      finally show ?thesis .
    qed
    show thesis using block[of b fa1 ?fa] Some a(2) i2 z rd by (simp add: zero_pages_Some)
  qed
qed

lemma user_free_inv:
  assumes "frames_inv U fa (add_mset (a, order) al)" "free_user_pages a order (Some fa) = Some g"
  obtains fa' where "g = Some fa'" "frames_inv U fa' al"
  using assms frames_inv_free[OF assms(1)] by (auto simp: free_user_pages_def)


lemma user_free_returns:
  assumes "frames_inv U fa (add_mset (a, order) al)" "fa_read a fa = Some v" "v mod 2 ^ 32 \<noteq> POISON_PATTERN"
  shows "\<exists>fa'. free_user_pages a order (Some fa) = Some (Some fa')"
proof -
  obtain p b blks where f: "get_pool p (pools fa) = Some b" "(a, order) \<in># blks p" "pool_ok (U p) b (blks p)" "pool_for_addr (pools fa) a = Some p"
    by (rule frames_inv_owner[OF assms(1), of "(a, order)"]) auto
  obtain B where B: "blks p = add_mset (a, order) B" using f(2) by (auto dest: multi_member_split)
  have "buddy_inv (U p) b (add_mset (a, order) B)" using pool_ok_block(2)[OF f(3,2)] B by simp
  moreover have "mem b a = v" using assms(2) f(1,4) by (simp add: fa_read_def)
  ultimately obtain b' where "free_pages a order b = Some b'" using buddy_inv_free assms(3) by blast
  then show ?thesis using f(1,4) by (simp add: free_user_pages_def fa_free_pages_def)
qed

section \<open>Every operation keeps the invariant\<close>

lemma grant_frame [simp]:
  "frame_alloc (snd (grant_to_process pid cap d k)) = frame_alloc k" "shared_regions (snd (grant_to_process pid cap d k)) = shared_regions k"
  "private_allocs (snd (grant_to_process pid cap d k)) = private_allocs k"
  by (auto simp: grant_to_process_def process_mut_def new_token_id_def split: sum.split option.split prod.split)

lemma shm_inv_cong:
  assumes "shm_inv U k oth" "frame_alloc k' = frame_alloc k" "shared_regions k' = shared_regions k" "private_allocs k' = private_allocs k"
  shows "shm_inv U k' oth"
  using assms by (simp add: shm_inv_def shm_tables_ok_def shm_blocks_def)

lemma shm_blocks_region:
  assumes "i < length (shared_regions k)" "shared_regions k ! i = Some r"
  shows "shm_blocks k = add_mset (region_block r) (shm_blocks (k\<lparr>shared_regions := (shared_regions k)[i := None]\<rparr>))"
  using occupied_clear[OF assms] by (simp add: shm_blocks_def)

lemma shm_blocks_region_new:
  assumes "i < length (shared_regions k)" "shared_regions k ! i = None"
  shows "shm_blocks (k\<lparr>shared_regions := (shared_regions k)[i := Some r]\<rparr>) = add_mset (region_block r) (shm_blocks k)"
  using occupied_fill[OF assms] by (simp add: shm_blocks_def)

lemma shm_blocks_region_same:
  assumes "i < length (shared_regions k)" "shared_regions k ! i = Some r" "region_block r' = region_block r"
  shows "shm_blocks (k\<lparr>shared_regions := (shared_regions k)[i := Some r']\<rparr>) = shm_blocks k"
proof -
  let ?k = "k\<lparr>shared_regions := (shared_regions k)[i := Some r']\<rparr>"
  have "shm_blocks ?k = add_mset (region_block r') (shm_blocks (?k\<lparr>shared_regions := (shared_regions ?k)[i := None]\<rparr>))"
    by (rule shm_blocks_region) (use assms(1) in simp_all)
  then show ?thesis using shm_blocks_region[OF assms(1,2)] assms(3) by simp
qed

lemma shm_blocks_private:
  assumes "i < length (private_allocs k)" "private_allocs k ! i = Some a"
  shows "shm_blocks k = add_mset (private_block a) (shm_blocks (k\<lparr>private_allocs := (private_allocs k)[i := None]\<rparr>))"
  using occupied_clear[OF assms] by (simp add: shm_blocks_def)

lemma shm_blocks_private_new:
  assumes "i < length (private_allocs k)" "private_allocs k ! i = None"
  shows "shm_blocks (k\<lparr>private_allocs := (private_allocs k)[i := Some a]\<rparr>) = add_mset (private_block a) (shm_blocks k)"
  using occupied_fill[OF assms] by (simp add: shm_blocks_def)

lemma shm_blocks_frame [simp]: "shm_blocks (k\<lparr>frame_alloc := g\<rparr>) = shm_blocks k"
  by (simp add: shm_blocks_def)

lemma tables_frame [simp]: "shm_tables_ok (k\<lparr>frame_alloc := g\<rparr>) = shm_tables_ok k"
  by (simp add: shm_tables_ok_def)

lemma shm_inv_frames: "shm_inv U k oth \<Longrightarrow> frames_inv U fa (oth + shm_blocks k) \<Longrightarrow> shm_inv U (k\<lparr>frame_alloc := Some fa\<rparr>) oth"
  by (simp add: shm_inv_def)

lemma pages_pos: "1 \<le> max (div_ceil sz PAGE_SIZE) 1" by simp

text \<open>The allocation part that \<open>shared_memory_create\<close> and \<open>memory_map\<close> share.\<close>

lemma zeroed_block:
  assumes "shm_inv U k oth" "alloc_user_pages order (frame_alloc k) = (Some a, g)"
  obtains fa where "zero_pages a order g = Some fa" "frames_inv U fa (oth + add_mset (a, order) (shm_blocks k))"
    "\<forall>i < 2 ^ order * PAGE_SIZE div 8. fa_read (a + i * 8) fa = Some 0"
    "\<forall>blk\<in>#oth + shm_blocks k. \<forall>w\<in>bytes_of blk. fa_read w fa = fa_read w (the (frame_alloc k))"
proof -
  obtain f0 where f: "frame_alloc k = Some f0" "frames_inv U f0 (oth + shm_blocks k)" using assms(1) by (auto simp: shm_inv_def)
  have al: "alloc_user_pages order (Some f0) = (Some a, g)" using assms(2) f(1) by simp
  show thesis
  proof (rule user_alloc_cases[OF f(2) al])
    fix a' fa1 fa2
    assume h: "Some a = Some a'" "g = Some fa1" "zero_pages a' order g = Some fa2" "frames_inv U fa2 (add_mset (a', order) (oth + shm_blocks k))"
      "\<forall>i < 2 ^ order * PAGE_SIZE div 8. fa_read (a' + i * 8) fa2 = Some 0" "\<forall>blk\<in>#oth + shm_blocks k. \<forall>w\<in>bytes_of blk. fa_read w fa2 = fa_read w f0"
    show thesis using that[of fa2] h f(1) by simp
  qed simp
qed

lemma alloc_refused:
  assumes "shm_inv U k oth" "alloc_user_pages order (frame_alloc k) = (None, g)"
  shows "k\<lparr>frame_alloc := g\<rparr> = k"
proof -
  obtain f0 where f: "frame_alloc k = Some f0" "frames_inv U f0 (oth + shm_blocks k)" using assms(1) by (auto simp: shm_inv_def)
  have al: "alloc_user_pages order (Some f0) = (None, g)" using assms(2) f(1) by simp
  have "g = Some f0" by (rule user_alloc_cases[OF f(2) al]) simp_all
  then show ?thesis using f(1) by simp
qed

lemma free_block_inv:
  assumes inv: "frames_inv U fa (oth + add_mset (a, order) B)" and "free_user_pages a order (Some fa) = Some g"
  obtains fa' where "g = Some fa'" "frames_inv U fa' (oth + B)"
proof -
  have "frames_inv U fa (add_mset (a, order) (oth + B))" using inv by simp
  from user_free_inv[OF this assms(2)] show thesis using that by blast
qed

lemma create_inv:
  assumes inv: "shm_inv U k oth" and c: "shared_memory_create pid sz flags k = Some (r, k')"
  shows "shm_inv U k' oth"
proof -
  let ?n = "max (div_ceil sz PAGE_SIZE) 1" let ?o = "order_for_pages ?n"
  have len: "length (shared_regions k) = MAX_SHARED_REGIONS" using inv by (simp add: shm_inv_def shm_tables_ok_def)
  show ?thesis
  proof (cases "vm_contains flags (VM_WRITE OR VM_EXECUTE) \<or> ?n > MAX_SHARED_REGION_PAGES \<or> (\<exists>e. check_shared_memory_create k pid = Err e)")
    case True
    then have "k' = k" using c by (auto simp: shared_memory_create_def Let_def split: if_splits sum.splits)
    then show ?thesis using inv by simp
  next
    case False
    then obtain tok where tok: "check_shared_memory_create k pid = Ok tok" "wx_ok flags" "?n \<le> MAX_SHARED_REGION_PAGES"
      by (cases "check_shared_memory_create k pid") (simp_all add: wx_ok_iff not_less)
    note nf = False
    obtain x g where al: "alloc_user_pages ?o (frame_alloc k) = (x, g)" by fastforce
    show ?thesis
    proof (cases x)
      case None
      then have "k' = k\<lparr>frame_alloc := g\<rparr>" using c nf tok(1) al by (simp add: shared_memory_create_def Let_def)
      also have "\<dots> = k" by (rule alloc_refused[OF inv al[unfolded None]])
      finally show ?thesis using inv by simp
    next
      case (Some a)
      then have al': "alloc_user_pages ?o (frame_alloc k) = (Some a, g)" using al by simp
      obtain fa where z: "zero_pages a ?o g = Some fa" "frames_inv U fa (oth + add_mset (a, ?o) (shm_blocks k))"
        by (rule zeroed_block[OF inv al'])
      let ?k1 = "k\<lparr>frame_alloc := Some fa\<rparr>"
      show ?thesis
      proof (cases "first_free (shared_regions k)")
        case None
        then obtain g2 where g2: "free_user_pages a ?o (Some fa) = Some g2" "k' = ?k1\<lparr>frame_alloc := g2\<rparr>"
          using c nf tok(1) al' z(1) by (auto simp: shared_memory_create_def Let_def split: option.splits)
        obtain fa' where "g2 = Some fa'" "frames_inv U fa' (oth + shm_blocks k)" by (rule free_block_inv[OF z(2) g2(1)])
        then show ?thesis using shm_inv_frames[OF inv] g2(2) by simp
      next
        case (Some i)
        note i = first_free_length[OF Some] first_free_empty[OF Some]
        let ?r = "\<lparr>sr_id = word_of_nat i, sr_base_phys = a, sr_order = ?o, size_bytes = ?n * PAGE_SIZE, ref_count = 0, sr_creator = pid,
          max_flags = flags, sr_creation_cap = Some tok, mappings = replicate MAX_SHARED_MAPPINGS None\<rparr>"
        let ?k2 = "?k1\<lparr>shared_regions := (shared_regions k)[i := Some ?r]\<rparr>"
        have k': "k' = snd (grant_to_process pid (SharedMemoryAccess (word_of_nat i)) True ?k2)"
          using c nf tok(1) al' z(1) Some by (simp add: shared_memory_create_def Let_def)
        have "region_ok i ?r" by (rule region_ok_new[OF tok(2) pages_pos tok(3) refl])
        then have "shm_tables_ok ?k2"
          using inv regions_ok_update[where n = 0 and rs = "shared_regions k" and v = "Some ?r" and i = i] by (simp add: shm_inv_def shm_tables_ok_def)
        moreover have "shm_blocks ?k2 = add_mset (a, ?o) (shm_blocks k)"
          using shm_blocks_region_new[of i ?k1 ?r] i by (simp add: region_block_def)
        ultimately have "shm_inv U ?k2 oth" using z(2) by (simp add: shm_inv_def)
        then show ?thesis unfolding k' by (rule shm_inv_cong) simp_all
      qed
    qed
  qed
qed

lemma map_inv:
  assumes inv: "shm_inv U k oth" and m: "shared_memory_map pid rid flags k = (r, k')"
  shows "shm_inv U k' oth"
proof (cases r)
  case (Inl e)
  then have "k' = k" using m by (auto simp: shared_memory_map_def Let_def split: if_splits sum.splits option.splits)
  then show ?thesis using inv by simp
next
  case (Inr va)
  have len: "length (shared_regions k) = MAX_SHARED_REGIONS" and ro: "regions_ok 0 (shared_regions k)" using inv by (auto simp: shm_inv_def shm_tables_ok_def)
  obtain reg j where s: "unat rid < MAX_SHARED_REGIONS" "shared_regions k ! unat rid = Some reg" "vm_contains (max_flags reg) flags"
    "mapping_slot pid (mappings reg) = None" "first_free (mappings reg) = Some j"
    "k' = k\<lparr>shared_regions := (shared_regions k)[unat rid := Some (reg\<lparr>mappings := (mappings reg)[j := Some \<lparr>sm_pid = pid, sm_vaddr = SHM_VA_BASE + unat rid * SHM_VA_STRIDE, sm_flags = flags\<rparr>],
                                        ref_count := ref_count reg + 1\<rparr>)]\<rparr>"
    using m Inr by (auto simp: shared_memory_map_def Let_def split: if_splits sum.splits option.splits)
  have "region_ok (unat rid) reg" using ro s(1,2) len by (auto simp: regions_ok_def dest!: spec[of _ "unat rid"])
  from region_ok_map[OF this s(4,5,3)] have "shm_tables_ok k'"
    using inv regions_ok_update[OF ro, where i = "unat rid"] by (simp add: s(6) shm_inv_def shm_tables_ok_def)
  moreover have "shm_blocks k' = shm_blocks k" unfolding s(6)
    by (rule shm_blocks_region_same[where r = reg]) (use s(1,2) len in \<open>simp_all add: region_block_def\<close>)
  ultimately show ?thesis using inv by (simp add: shm_inv_def s(6))
qed

lemma region_at:
  assumes "shm_inv U k oth" "i < MAX_SHARED_REGIONS" "shared_regions k ! i = Some r"
  shows "region_ok i r" "i < length (shared_regions k)"
  using assms by (auto simp: shm_inv_def shm_tables_ok_def regions_ok_def dest!: spec[of _ i])

text \<open>What \<open>shared_memory_unmap\<close> does on every branch.\<close>

lemma unmap_cases:
  assumes inv: "shm_inv U k oth" and u: "shared_memory_unmap pid rid k = Some (r, k')"
  obtains (invalid) "unat rid \<ge> MAX_SHARED_REGIONS" "r = Err (errno Einval)" "k' = k"
  | (gone) "unat rid < MAX_SHARED_REGIONS" "shared_regions k ! unat rid = None" "r = Err (errno Epipe)" "k' = k"
  | (unmapped) reg where "unat rid < MAX_SHARED_REGIONS" "shared_regions k ! unat rid = Some reg"
      "mapping_slot pid (mappings reg) = None" "r = Err (errno Eperm)" "k' = k"
  | (kept) reg j where "unat rid < MAX_SHARED_REGIONS" "shared_regions k ! unat rid = Some reg" "mapping_slot pid (mappings reg) = Some j"
      "ref_count reg \<noteq> 1" "r = Ok ()"
      "k' = k\<lparr>shared_regions := (shared_regions k)[unat rid := Some (reg\<lparr>mappings := (mappings reg)[j := None], ref_count := ref_count reg - 1\<rparr>)]\<rparr>"
  | (freed) reg j g where "unat rid < MAX_SHARED_REGIONS" "shared_regions k ! unat rid = Some reg" "mapping_slot pid (mappings reg) = Some j"
      "ref_count reg = 1" "free_user_pages (sr_base_phys reg) (sr_order reg) (frame_alloc k) = Some g" "r = Ok ()"
      "k' = k\<lparr>shared_regions := (shared_regions k)[unat rid := None], frame_alloc := g\<rparr>"
proof (cases "unat rid \<ge> MAX_SHARED_REGIONS")
  case True
  then have "r = Err (errno Einval)" "k' = k" using u by (simp_all add: shared_memory_unmap_def)
  then show thesis by (rule invalid[OF True])
next
  case False
  then have i: "unat rid < MAX_SHARED_REGIONS" by simp
  show thesis
  proof (cases "shared_regions k ! unat rid")
    case None
    then have "r = Err (errno Epipe)" "k' = k" using u i by (simp_all add: shared_memory_unmap_def)
    then show thesis by (rule gone[OF i None])
  next
    case (Some reg)
    note ok = region_at(1)[OF inv i Some]
    show thesis
    proof (cases "mapping_slot pid (mappings reg)")
      case None
      then have "r = Err (errno Eperm)" "k' = k" using u i Some by (simp_all add: shared_memory_unmap_def)
      then show thesis by (rule unmapped[OF i Some None])
    next
      case j: (Some j)
      note nz = region_ok_unmap(1)[OF ok j]
      show thesis
      proof (cases "ref_count reg = 1")
        case True
        then obtain g where "free_user_pages (sr_base_phys reg) (sr_order reg) (frame_alloc k) = Some g" "r = Ok ()"
          "k' = k\<lparr>shared_regions := (shared_regions k)[unat rid := None], frame_alloc := g\<rparr>"
          using u i Some j by (auto simp: shared_memory_unmap_def Let_def split: option.splits)
        then show thesis using freed[OF i Some j True] by blast
      next
        case rc: False
        then have "r = Ok ()" "k' = k\<lparr>shared_regions := (shared_regions k)[unat rid := Some (reg\<lparr>mappings := (mappings reg)[j := None], ref_count := ref_count reg - 1\<rparr>)]\<rparr>"
          using u i Some j nz by (auto simp: shared_memory_unmap_def Let_def)
        then show thesis by (rule kept[OF i Some j rc])
      qed
    qed
  qed
qed

lemma unmap_inv:
  assumes inv: "shm_inv U k oth" and u: "shared_memory_unmap pid rid k = Some (r, k')"
  shows "shm_inv U k' oth"
  using inv u
proof (cases rule: unmap_cases)
  case (kept reg j)
  let ?reg = "reg\<lparr>mappings := (mappings reg)[j := None], ref_count := ref_count reg - 1\<rparr>"
  note at = region_at[OF inv kept(1,2)]
  have ro: "regions_ok 0 (shared_regions k)" using inv by (simp add: shm_inv_def shm_tables_ok_def)
  have "shm_tables_ok k'" using inv regions_ok_update[OF ro, where i = "unat rid" and v = "Some ?reg"] region_ok_unmap(2)[OF at(1) kept(3)]
    by (simp add: kept(6) shm_inv_def shm_tables_ok_def)
  moreover have "shm_blocks k' = shm_blocks k" unfolding kept(6)
    by (rule shm_blocks_region_same[where r = reg]) (use at(2) kept(2) in \<open>simp_all add: region_block_def\<close>)
  ultimately show ?thesis using inv by (simp add: shm_inv_def kept(6))
next
  case (freed reg j g)
  note at = region_at[OF inv freed(1,2)]
  let ?k = "k\<lparr>shared_regions := (shared_regions k)[unat rid := None]\<rparr>"
  obtain fa where fa: "frame_alloc k = Some fa" "frames_inv U fa (oth + shm_blocks k)" using inv by (auto simp: shm_inv_def)
  have "frames_inv U fa (oth + add_mset (sr_base_phys reg, sr_order reg) (shm_blocks ?k))"
    using fa(2) shm_blocks_region[OF at(2) freed(2)] by (simp add: region_block_def)
  then obtain fa' where f: "g = Some fa'" "frames_inv U fa' (oth + shm_blocks ?k)" by (rule free_block_inv[OF _ freed(5)[unfolded fa(1)]])
  have ro: "regions_ok 0 (shared_regions k)" using inv by (simp add: shm_inv_def shm_tables_ok_def)
  have "shm_tables_ok ?k" using inv regions_ok_update[OF ro, where i = "unat rid" and v = None] by (simp add: shm_inv_def shm_tables_ok_def)
  then have "shm_inv U (?k\<lparr>frame_alloc := Some fa'\<rparr>) oth" using f(2) by (simp add: shm_inv_def)
  then show ?thesis by (simp add: freed(7) f(1))
qed (simp_all add: inv)

lemma share_inv:
  assumes "shm_inv U k oth" "shared_memory_share pid rid tgt k = (r, k')"
  shows "shm_inv U k' oth"
proof -
  have "k' = k \<or> k' = snd (grant_to_process tgt (SharedMemoryAccess rid) False k)"
    using assms(2) by (auto simp: shared_memory_share_def split: if_splits option.splits prod.splits sum.splits)
  then show ?thesis using assms(1) shm_inv_cong[OF assms(1), of k'] by auto
qed

text \<open>Process exit.\<close>

lemma regions_ok_Cons [simp]:
  "regions_ok n (x # xs) \<longleftrightarrow> (case x of None \<Rightarrow> True | Some r \<Rightarrow> region_ok n r) \<and> regions_ok (Suc n) xs"
  unfolding regions_ok_def by (simp add: All_less_Suc2 cong: option.case_cong)

lemma cleanup_slots_ok:
  assumes "regions_ok n rs" "cleanup_slots pid rs = (rs', fs)"
  shows "length rs' = length rs \<and> regions_ok n rs' \<and>
    image_mset region_block (mset (occupied rs)) = image_mset region_block (mset (occupied rs')) + mset fs \<and>
    (\<forall>r. Some r \<in> set rs' \<longrightarrow> mapping_slot pid (mappings r) = None)"
  using assms
proof (induction rs arbitrary: n rs' fs)
  case (Cons s rs)
  obtain ys gs where t: "cleanup_slots pid rs = (ys, gs)" by fastforce
  have ok: "regions_ok (Suc n) rs" using Cons.prems(1) by simp
  note IH = Cons.IH[OF ok t]
  show ?case
  proof (cases s)
    case None
    then show ?thesis using Cons.prems(2) t IH by auto
  next
    case (Some reg)
    then have reg: "region_ok n reg" using Cons.prems(1) by simp
    show ?thesis
    proof (cases "mapping_slot pid (mappings reg)")
      case None
      then show ?thesis using Cons.prems(2) t IH Some reg by auto
    next
      case j: (Some j)
      note um = region_ok_unmap[OF reg j]
      have rc: "ref_count reg \<noteq> 0" by (rule um(1))
      let ?reg = "reg\<lparr>mappings := (mappings reg)[j := None], ref_count := ref_count reg - 1\<rparr>"
      have e: "(rs', fs) = (if ref_count reg = 1 then (None # ys, region_block reg # gs) else (Some ?reg # ys, gs))"
        using Cons.prems(2) t Some j rc by (cases "ref_count reg = 1") (simp_all add: Let_def region_block_def)
      have "region_block ?reg = region_block reg" by (simp add: region_block_def)
      then show ?thesis using e IH Some um(2,3) by (cases "ref_count reg = 1") auto
    qed
  qed
qed simp

lemma free_regions_inv:
  assumes "frames_inv U fa (al + mset fs)" "free_regions fs (Some fa) = Some g"
  shows "\<exists>fa'. g = Some fa' \<and> frames_inv U fa' al"
  using assms
proof (induction fs arbitrary: fa)
  case (Cons x fs)
  obtain a ord where x: "x = (a, ord)" by fastforce
  obtain g1 where g1: "free_user_pages a ord (Some fa) = Some g1" "free_regions fs g1 = Some g"
    using Cons.prems(2) x by (auto split: option.splits)
  have "frames_inv U fa (add_mset (a, ord) (al + mset fs))" using Cons.prems(1) x by simp
  then obtain fa1 where f1: "g1 = Some fa1" "frames_inv U fa1 (al + mset fs)" by (rule user_free_inv[OF _ g1(1)])
  show ?case using Cons.IH[OF f1(2)] g1(2) f1(1) by blast
qed auto

lemma cleanup_inv:
  assumes inv: "shm_inv U k oth" and c: "process_cleanup_shared_memory pid k = Some k'"
  shows "shm_inv U k' oth"
proof -
  obtain rs fs where s: "cleanup_slots pid (shared_regions k) = (rs, fs)" by fastforce
  obtain g where g: "free_regions fs (frame_alloc k) = Some g" "k' = k\<lparr>shared_regions := rs, frame_alloc := g\<rparr>"
    using c s by (auto simp: process_cleanup_shared_memory_def split: option.splits)
  obtain fa where fa: "frame_alloc k = Some fa" "frames_inv U fa (oth + shm_blocks k)" using inv by (auto simp: shm_inv_def)
  have ro: "regions_ok 0 (shared_regions k)" using inv by (simp add: shm_inv_def shm_tables_ok_def)
  note cs = cleanup_slots_ok[OF ro s]
  let ?k = "k\<lparr>shared_regions := rs\<rparr>"
  have "shm_blocks k = shm_blocks ?k + mset fs" using cs by (simp add: shm_blocks_def ac_simps)
  then have "frames_inv U fa ((oth + shm_blocks ?k) + mset fs)" using fa(2) by (simp add: ac_simps)
  then obtain fa' where f: "g = Some fa'" "frames_inv U fa' (oth + shm_blocks ?k)" using free_regions_inv[OF _ g(1)[unfolded fa(1)]] by blast
  have "shm_tables_ok ?k" using inv cs by (simp add: shm_inv_def shm_tables_ok_def)
  then have "shm_inv U (?k\<lparr>frame_alloc := Some fa'\<rparr>) oth" using f(2) by (simp add: shm_inv_def)
  then show ?thesis by (simp add: g(2) f(1))
qed

text \<open>Private memory.\<close>

lemma memory_map_cases:
  assumes inv: "shm_inv U k oth" and m: "memory_map pid sz flags k = Some (r, k')"
  obtains (refused) e where "r = Err e" "k' = k" "e = errno Einval \<and> (\<not> wx_ok flags \<or> max (div_ceil sz PAGE_SIZE) 1 > MAX_PRIVATE_PAGES) \<or> e = errno Enomem"
  | (full) fa where "r = Err (errno Enospc)" "first_free (private_allocs k) = None" "k' = k\<lparr>frame_alloc := Some fa\<rparr>"
      "frames_inv U fa (oth + shm_blocks k)"
  | (mapped) i a fa where "r = Ok (PRIVATE_VA_BASE + i * PRIVATE_VA_STRIDE)" "first_free (private_allocs k) = Some i"
      "k' = k\<lparr>frame_alloc := Some fa, private_allocs := (private_allocs k)[i := Some a]\<rparr>" "pa_owner a = pid"
      "pa_pages a = max (div_ceil sz PAGE_SIZE) 1" "private_ok a" "wx_ok flags" "frames_inv U fa (oth + add_mset (private_block a) (shm_blocks k))"
      "\<forall>n < 2 ^ pa_order a * PAGE_SIZE div 8. fa_read (pa_base_phys a + n * 8) fa = Some 0"
      "\<forall>blk\<in>#oth + shm_blocks k. \<forall>w\<in>bytes_of blk. fa_read w fa = fa_read w (the (frame_alloc k))"
proof -
  let ?n = "max (div_ceil sz PAGE_SIZE) 1" let ?o = "order_for_pages ?n"
  show thesis
  proof (cases "vm_contains flags (VM_WRITE OR VM_EXECUTE) \<or> ?n > MAX_PRIVATE_PAGES")
    case True
    then have "r = Err (errno Einval)" "k' = k" using m by (auto simp: memory_map_def Let_def split: if_splits)
    then show thesis using refused True by (simp add: wx_ok_iff)
  next
    case nf: False
    obtain x g where al: "alloc_user_pages ?o (frame_alloc k) = (x, g)" by fastforce
    show thesis
    proof (cases x)
      case None
      then have "r = Err (errno Enomem)" "k' = k\<lparr>frame_alloc := g\<rparr>" using m nf al by (simp_all add: memory_map_def Let_def)
      moreover have "k\<lparr>frame_alloc := g\<rparr> = k" by (rule alloc_refused[OF inv al[unfolded None]])
      ultimately have "r = Err (errno Enomem)" "k' = k" by (simp_all only:)
      then show thesis by (rule refused) simp
    next
      case (Some b)
      then have al': "alloc_user_pages ?o (frame_alloc k) = (Some b, g)" using al by simp
      obtain fa where z: "zero_pages b ?o g = Some fa" "frames_inv U fa (oth + add_mset (b, ?o) (shm_blocks k))"
        "\<forall>i < 2 ^ ?o * PAGE_SIZE div 8. fa_read (b + i * 8) fa = Some 0"
        "\<forall>blk\<in>#oth + shm_blocks k. \<forall>w\<in>bytes_of blk. fa_read w fa = fa_read w (the (frame_alloc k))"
        by (rule zeroed_block[OF inv al'])
      show thesis
      proof (cases "first_free (private_allocs k)")
        case None
        then obtain g2 where g2: "free_user_pages b ?o (Some fa) = Some g2" "r = Err (errno Enospc)" "k' = k\<lparr>frame_alloc := g2\<rparr>"
          using m nf al' z(1) by (auto simp: memory_map_def Let_def split: option.splits)
        obtain fa' where "g2 = Some fa'" "frames_inv U fa' (oth + shm_blocks k)" by (rule free_block_inv[OF z(2) g2(1)])
        then show thesis using full[OF g2(2) None] g2(3) by simp
      next
        case (Some i)
        let ?a = "\<lparr>pa_owner = pid, pa_base_phys = b, pa_order = ?o, pa_pages = ?n\<rparr>"
        have "r = Ok (PRIVATE_VA_BASE + i * PRIVATE_VA_STRIDE)" "k' = k\<lparr>frame_alloc := Some fa, private_allocs := (private_allocs k)[i := Some ?a]\<rparr>"
          using m nf al' z(1) Some by (auto simp: memory_map_def Let_def)
        moreover have "private_ok ?a" using nf by (simp add: private_ok_def not_less)
        ultimately show thesis using mapped[where i = i and a = ?a and fa = fa, OF _ Some] nf z(2-4) by (simp add: wx_ok_iff private_block_def)
      qed
    qed
  qed
qed

lemma memory_map_inv:
  assumes inv: "shm_inv U k oth" and m: "memory_map pid sz flags k = Some (r, k')"
  shows "shm_inv U k' oth"
  using inv m
proof (cases rule: memory_map_cases)
  case (full fa)
  then show ?thesis using shm_inv_frames[OF inv] by simp
next
  case (mapped i a fa)
  note i = first_free_length[OF mapped(2)] first_free_empty[OF mapped(2)]
  have "shm_blocks k' = add_mset (private_block a) (shm_blocks k)"
    using shm_blocks_private_new[of i "k\<lparr>frame_alloc := Some fa\<rparr>" a] i by (simp add: mapped(3))
  moreover have "shm_tables_ok k'" using inv Some_in_update_free[OF i, of _ a] mapped(6) by (auto simp: mapped(3) shm_inv_def shm_tables_ok_def)
  ultimately show ?thesis using mapped(8) by (simp add: shm_inv_def mapped(3))
qed (simp_all add: inv)

lemma memory_unmap_private:
  assumes "private_slot va = Some i"
  shows "\<not> (SHM_VA_BASE \<le> va \<and> va < SHM_VA_BASE + MAX_SHARED_REGIONS * SHM_VA_STRIDE \<and>
         (va - SHM_VA_BASE) div SHM_VA_STRIDE < MAX_SHARED_REGIONS)"
    "i < MAX_PRIVATE_ALLOCATIONS" "va = PRIVATE_VA_BASE + i * PRIVATE_VA_STRIDE"
proof -
  have s: "PRIVATE_VA_BASE \<le> va" "(va - PRIVATE_VA_BASE) mod PRIVATE_VA_STRIDE = 0" "i = (va - PRIVATE_VA_BASE) div PRIVATE_VA_STRIDE" "i < MAX_PRIVATE_ALLOCATIONS"
    using assms by (auto simp: private_slot_def Let_def split: if_splits)
  show "\<not> (SHM_VA_BASE \<le> va \<and> va < SHM_VA_BASE + MAX_SHARED_REGIONS * SHM_VA_STRIDE \<and>
         (va - SHM_VA_BASE) div SHM_VA_STRIDE < MAX_SHARED_REGIONS)" using s(1) by (simp add: PRIVATE_VA_BASE_def)
  show "i < MAX_PRIVATE_ALLOCATIONS" by (rule s(4))
  have "va - PRIVATE_VA_BASE = i * PRIVATE_VA_STRIDE" using s(2) unfolding s(3) by auto
  then show "va = PRIVATE_VA_BASE + i * PRIVATE_VA_STRIDE" using s(1) by simp
qed

lemma private_slot_exact: "i < MAX_PRIVATE_ALLOCATIONS \<Longrightarrow> private_slot (PRIVATE_VA_BASE + i * PRIVATE_VA_STRIDE) = Some i"
  by (simp add: private_slot_def PRIVATE_VA_STRIDE_def MAX_PRIVATE_PAGES_def PAGE_SIZE_def)

lemma memory_unmap_cases:
  assumes "memory_unmap pid va sz k = Some (r, k')"
  obtains (shared_window) rid where "shared_memory_unmap pid rid k = Some (r, k')"
  | (invalid) "r = Err (errno Einval)" "k' = k"
  | (priv) i a g where "private_slot va = Some i" "private_allocs k ! i = Some a" "pa_owner a = pid"
      "pa_pages a = max (div_ceil sz PAGE_SIZE) 1" "free_user_pages (pa_base_phys a) (pa_order a) (frame_alloc k) = Some g" "r = Ok ()"
      "k' = k\<lparr>private_allocs := (private_allocs k)[i := None], frame_alloc := g\<rparr>"
proof -
  let ?sh = "SHM_VA_BASE \<le> va \<and> va < SHM_VA_BASE + MAX_SHARED_REGIONS * SHM_VA_STRIDE \<and>
         (va - SHM_VA_BASE) div SHM_VA_STRIDE < MAX_SHARED_REGIONS"
  show thesis
  proof (cases ?sh)
    case True
    then show thesis using assms shared_window by (simp add: memory_unmap_def)
  next
    case sh: False
    show thesis
    proof (cases "\<exists>i a. private_slot va = Some i \<and> private_allocs k ! i = Some a \<and> pa_owner a = pid \<and> pa_pages a = max (div_ceil sz PAGE_SIZE) 1")
      case True
      then obtain i a where a: "private_slot va = Some i" "private_allocs k ! i = Some a" "pa_owner a = pid" "pa_pages a = max (div_ceil sz PAGE_SIZE) 1" by blast
      obtain g where "free_user_pages (pa_base_phys a) (pa_order a) (frame_alloc k) = Some g" "r = Ok ()"
        "k' = k\<lparr>private_allocs := (private_allocs k)[i := None], frame_alloc := g\<rparr>"
        using assms a unfolding memory_unmap_def if_not_P[OF sh] by (auto simp: Let_def split: option.splits)
      then show thesis using priv[OF a] by blast
    next
      case False
      then have "r = Err (errno Einval)" "k' = k"
        using assms unfolding memory_unmap_def if_not_P[OF sh] by (auto simp: Let_def split: option.splits if_splits)
      then show thesis by (rule invalid)
    qed
  qed
qed

lemma memory_unmap_inv:
  assumes inv: "shm_inv U k oth" and m: "memory_unmap pid va sz k = Some (r, k')"
  shows "shm_inv U k' oth"
  using m
proof (cases rule: memory_unmap_cases)
  case (shared_window rid)
  then show ?thesis by (rule unmap_inv[OF inv])
next
  case (priv i a g)
  have i: "i < length (private_allocs k)" using memory_unmap_private(2)[OF priv(1)] inv by (simp add: shm_inv_def shm_tables_ok_def)
  let ?k = "k\<lparr>private_allocs := (private_allocs k)[i := None]\<rparr>"
  obtain fa where fa: "frame_alloc k = Some fa" "frames_inv U fa (oth + shm_blocks k)" using inv by (auto simp: shm_inv_def)
  have "frames_inv U fa (oth + add_mset (pa_base_phys a, pa_order a) (shm_blocks ?k))"
    using fa(2) shm_blocks_private[OF i priv(2)] by (simp add: private_block_def)
  then obtain fa' where f: "g = Some fa'" "frames_inv U fa' (oth + shm_blocks ?k)" by (rule free_block_inv[OF _ priv(5)[unfolded fa(1)]])
  have "Some x \<in> set (private_allocs k)" if "Some x \<in> set ((private_allocs k)[i := None])" for x
    using that set_update_subset_insert[of "private_allocs k" i None] by auto
  then have "shm_tables_ok ?k" using inv by (auto simp: shm_inv_def shm_tables_ok_def)
  then have "shm_inv U (?k\<lparr>frame_alloc := Some fa'\<rparr>) oth" using f(2) by (simp add: shm_inv_def)
  then show ?thesis by (simp add: priv(7) f(1))
qed (simp add: inv)

section \<open>Reachable states\<close>

text \<open>
  The memory calls of processes interleaved with everything else: other users of the pools hold the
  blocks \<open>oth\<close>, every owner writes its own memory, and the rest of the kernel changes any other field.
\<close>

inductive shm_reach :: "(Pool \<Rightarrow> nat set) \<Rightarrow> Kernel \<Rightarrow> (nat \<times> nat) multiset \<Rightarrow> bool" for U where
  shm_start: "frame_alloc k = Some fa \<Longrightarrow> frames_inv U fa oth \<Longrightarrow> shared_regions k = replicate MAX_SHARED_REGIONS None \<Longrightarrow>
    private_allocs k = replicate MAX_PRIVATE_ALLOCATIONS None \<Longrightarrow> shm_reach U k oth"
| shm_create: "shm_reach U k oth \<Longrightarrow> shared_memory_create pid sz flags k = Some (r, k') \<Longrightarrow> shm_reach U k' oth"
| shm_map: "shm_reach U k oth \<Longrightarrow> shared_memory_map pid rid flags k = (r', k') \<Longrightarrow> shm_reach U k' oth"
| shm_unmap: "shm_reach U k oth \<Longrightarrow> shared_memory_unmap pid rid k = Some (u, k') \<Longrightarrow> shm_reach U k' oth"
| shm_share: "shm_reach U k oth \<Longrightarrow> shared_memory_share pid rid tgt k = (u, k') \<Longrightarrow> shm_reach U k' oth"
| shm_exit: "shm_reach U k oth \<Longrightarrow> process_cleanup_shared_memory pid k = Some k' \<Longrightarrow> shm_reach U k' oth"
| shm_memory_map: "shm_reach U k oth \<Longrightarrow> memory_map pid sz flags k = Some (r', k') \<Longrightarrow> shm_reach U k' oth"
| shm_memory_unmap: "shm_reach U k oth \<Longrightarrow> memory_unmap pid va sz k = Some (u, k') \<Longrightarrow> shm_reach U k' oth"
| shm_alloc: "shm_reach U k oth \<Longrightarrow> frame_alloc k = Some fa \<Longrightarrow> fa_alloc_pages p order fa = (Some a, fa') \<Longrightarrow>
    shm_reach U (k\<lparr>frame_alloc := Some fa'\<rparr>) (add_mset (a, order) oth)"
| shm_free: "shm_reach U k (add_mset (a, order) oth) \<Longrightarrow> frame_alloc k = Some fa \<Longrightarrow> fa_free_pages a order fa = Some fa' \<Longrightarrow>
    shm_reach U (k\<lparr>frame_alloc := Some fa'\<rparr>) oth"
| shm_write: "shm_reach U k oth \<Longrightarrow> frame_alloc k = Some fa \<Longrightarrow> blk \<in># oth + shm_blocks k \<Longrightarrow> w \<in> bytes_of blk \<Longrightarrow>
    shm_reach U (k\<lparr>frame_alloc := Some (fa_write w v fa)\<rparr>) oth"
| shm_other: "shm_reach U k oth \<Longrightarrow> frame_alloc k' = frame_alloc k \<Longrightarrow> shared_regions k' = shared_regions k \<Longrightarrow>
    private_allocs k' = private_allocs k \<Longrightarrow> shm_reach U k' oth"

lemma shm_reach_inv: "shm_reach U k oth \<Longrightarrow> shm_inv U k oth"
proof (induction rule: shm_reach.induct)
  case (shm_start k fa oth)
  then show ?case by (auto simp: shm_inv_def shm_tables_ok_def shm_blocks_def regions_ok_def)
next
  case (shm_alloc k oth fa p order a fa')
  then show ?case using frames_inv_alloc[OF _ shm_alloc.hyps(3)] by (auto simp: shm_inv_def)
next
  case (shm_free k a order oth fa fa')
  then show ?case using frames_inv_free[of U fa a order "oth + shm_blocks k" fa'] by (auto simp: shm_inv_def)
next
  case (shm_write k oth fa blk w v)
  then show ?case using frames_inv_write[OF _ shm_write.hyps(3,4)] by (auto simp: shm_inv_def)
next
  case (shm_other k oth k')
  then show ?case using shm_inv_cong by blast
qed (blast intro: create_inv map_inv unmap_inv share_inv cleanup_inv memory_map_inv memory_unmap_inv)+

section \<open>Properties\<close>

lemma region_fits:
  assumes "region_ok i r"
  shows "0 < size_bytes r" "size_bytes r \<le> SHM_VA_STRIDE" "size_bytes r \<le> PAGE_SIZE * 2 ^ sr_order r" "sr_order r \<le> MAX_ORDER"
proof -
  obtain n where n: "1 \<le> n" "n \<le> MAX_SHARED_REGION_PAGES" "size_bytes r = n * PAGE_SIZE" "sr_order r = order_for_pages n"
    using assms by (auto simp: region_ok_def)
  show "0 < size_bytes r" using n by (simp add: PAGE_SIZE_def)
  show "size_bytes r \<le> SHM_VA_STRIDE" using n unfolding SHM_VA_STRIDE_def by simp
  show "size_bytes r \<le> PAGE_SIZE * 2 ^ sr_order r" using order_for_pages_exact(1)[OF n(1)] n(3,4) by (simp add: mult.commute)
  show "sr_order r \<le> MAX_ORDER" using order_for_pages_le[OF n(1), of MAX_ORDER] n(2,4) by (simp add: MAX_SHARED_REGION_PAGES_def)
qed

text \<open>
  C9. The tables of shared and private memory are well formed in every reachable state: each region sits
  in its slot with a block of the smallest order that holds its size, its reference count is the number
  of its mappings, at most one for each process, all at the region's own address, within its
  permissions and never writable and executable; regions and private allocations fit the address slots
  they stand for, and the private window ends below the user stack.
\<close>

theorem memory_tables_typed:
  assumes "shm_reach U k oth"
  shows "shm_tables_ok k \<and>
    (\<forall>i r m. i < MAX_SHARED_REGIONS \<and> shared_regions k ! i = Some r \<longrightarrow> size_bytes r \<le> SHM_VA_STRIDE \<and>
       (Some m \<in> set (mappings r) \<longrightarrow> wx_ok (sm_flags m) \<and> sm_vaddr m + size_bytes r \<le> PRIVATE_VA_BASE)) \<and>
    (\<forall>i a. i < MAX_PRIVATE_ALLOCATIONS \<and> private_allocs k ! i = Some a \<longrightarrow>
       PRIVATE_VA_BASE + i * PRIVATE_VA_STRIDE + pa_pages a * PAGE_SIZE \<le> USER_STACK_BASE)"
proof (intro conjI allI impI)
  note inv = shm_reach_inv[OF assms]
  show t: "shm_tables_ok k" using inv by (simp add: shm_inv_def)
  fix i r m assume r: "i < MAX_SHARED_REGIONS \<and> shared_regions k ! i = Some r"
  have ok: "region_ok i r" using region_at(1)[OF inv] r by simp
  show s: "size_bytes r \<le> SHM_VA_STRIDE" by (rule region_fits(2)[OF ok])
  assume m: "Some m \<in> set (mappings r)"
  show "wx_ok (sm_flags m)" using ok m wx_sub[of "max_flags r"] by (auto simp: region_ok_def)
  have "sm_vaddr m = SHM_VA_BASE + i * SHM_VA_STRIDE" using ok m by (auto simp: region_ok_def)
  moreover have "Suc i * SHM_VA_STRIDE \<le> MAX_SHARED_REGIONS * SHM_VA_STRIDE" using r by (intro mult_le_mono1) simp
  ultimately show "sm_vaddr m + size_bytes r \<le> PRIVATE_VA_BASE" using s by (simp add: PRIVATE_VA_BASE_def)
next
  fix i a assume a: "i < MAX_PRIVATE_ALLOCATIONS \<and> private_allocs k ! i = Some a"
  have "shm_tables_ok k" using shm_reach_inv[OF assms] by (simp add: shm_inv_def)
  then have "private_ok a" using a unfolding shm_tables_ok_def by (metis nth_mem)
  then have "pa_pages a * PAGE_SIZE \<le> PRIVATE_VA_STRIDE" by (simp add: private_ok_def PRIVATE_VA_STRIDE_def)
  moreover have "Suc i * PRIVATE_VA_STRIDE \<le> MAX_PRIVATE_ALLOCATIONS * PRIVATE_VA_STRIDE" using a by (intro mult_le_mono1) simp
  ultimately have "PRIVATE_VA_BASE + i * PRIVATE_VA_STRIDE + pa_pages a * PAGE_SIZE \<le> PRIVATE_VA_BASE + MAX_PRIVATE_ALLOCATIONS * PRIVATE_VA_STRIDE" by simp
  also have "\<dots> \<le> USER_STACK_BASE"
    by (simp add: PRIVATE_VA_BASE_def SHM_VA_BASE_def USER_HEAP_BASE_def SHM_VA_STRIDE_def MAX_SHARED_REGION_PAGES_def MAX_ORDER_def PAGE_SIZE_def
        MAX_SHARED_REGIONS_def MAX_PRIVATE_ALLOCATIONS_def PRIVATE_VA_STRIDE_def MAX_PRIVATE_PAGES_def USER_STACK_BASE_def)
  finally show "PRIVATE_VA_BASE + i * PRIVATE_VA_STRIDE + pa_pages a * PAGE_SIZE \<le> USER_STACK_BASE" .
qed

text \<open>
  C8. Memory is isolated: in every reachable state the physical blocks of any two shared regions, of any
  two private allocations, of a region and an allocation, and of either and any block that another part
  of the kernel holds, do not overlap, and all lie in RAM that the pools manage.
\<close>

theorem memory_isolated:
  assumes "shm_reach U k oth"
  shows "(\<forall>x y. {#x, y#} \<subseteq># oth + shm_blocks k \<longrightarrow> bytes_of x \<inter> bytes_of y = {}) \<and>
    (\<forall>x\<in>#oth + shm_blocks k. bytes_of x \<subseteq> (\<Union>p\<in>\<Union>q. U q. {p..<p + PAGE_SIZE}))"
proof -
  obtain fa where fa: "frames_inv U fa (oth + shm_blocks k)" using shm_reach_inv[OF assms] by (auto simp: shm_inv_def)
  have "bytes_of x \<inter> bytes_of y = {}" if s: "{#x, y#} \<subseteq># oth + shm_blocks k" for x y
  proof -
    obtain al where "oth + shm_blocks k = {#x, y#} + al" using s unfolding subset_mset.le_iff_add by blast
    then have "oth + shm_blocks k = add_mset x (add_mset y al)" by simp
    then show ?thesis using frames_inv_disjoint[of U fa x y al] fa by simp
  qed
  moreover have "bytes_of x \<subseteq> (\<Union>p\<in>\<Union>q. U q. {p..<p + PAGE_SIZE})" if "x \<in># oth + shm_blocks k" for x
    using frames_inv_in_range[OF fa that] .
  ultimately show ?thesis by blast
qed

text \<open>
  C10. Private memory: an allocation that \<open>memory_map\<close> returns is zeroed, lies in the caller's slot, and
  disturbs no memory in use. At once afterwards \<open>memory_unmap\<close> refuses every other process and every
  other size with EINVAL and changes nothing, and for the caller it returns, empties the slot and gives
  the pages back: the tables and the number of free pages are what they were.
\<close>

theorem memory_map_roundtrip:
  assumes "shm_reach U k oth" "memory_map pid sz flags k = Some (Ok va, k')" "frame_alloc k = Some fa"
  shows "\<exists>i a fa'. i < MAX_PRIVATE_ALLOCATIONS \<and> va = PRIVATE_VA_BASE + i * PRIVATE_VA_STRIDE \<and> frame_alloc k' = Some fa' \<and>
    private_allocs k ! i = None \<and> private_allocs k' = (private_allocs k)[i := Some a] \<and> pa_owner a = pid \<and>
    sz \<le> pa_pages a * PAGE_SIZE \<and> pa_pages a \<le> 2 ^ pa_order a \<and>
    (\<forall>n < 2 ^ pa_order a * PAGE_SIZE div 8. fa_read (pa_base_phys a + n * 8) fa' = Some 0) \<and>
    (\<forall>blk\<in>#oth + shm_blocks k. \<forall>w\<in>bytes_of blk. fa_read w fa' = fa_read w fa) \<and>
    (\<forall>p s. p \<noteq> pid \<or> max (div_ceil s PAGE_SIZE) 1 \<noteq> pa_pages a \<longrightarrow> memory_unmap p va s k' = Some (Err (errno Einval), k')) \<and>
    (\<exists>fa''. memory_unmap pid va sz k' = Some (Ok (), k\<lparr>frame_alloc := Some fa''\<rparr>) \<and>
       pools_total_free (pools fa'') = pools_total_free (pools fa))"
proof -
  note inv = shm_reach_inv[OF assms(1)]
  have fi: "frames_inv U fa (oth + shm_blocks k)" using inv assms(3) by (simp add: shm_inv_def)
  show ?thesis using inv assms(2)
  proof (cases rule: memory_map_cases)
    case (mapped i a fa1)
    have va: "va = PRIVATE_VA_BASE + i * PRIVATE_VA_STRIDE" using mapped(1) by simp
    have il: "i < length (private_allocs k)" "private_allocs k ! i = None" using first_free_SomeD[OF mapped(2)] by simp_all
    have i: "i < MAX_PRIVATE_ALLOCATIONS" using il(1) inv by (simp add: shm_inv_def shm_tables_ok_def)
    have ps: "private_slot va = Some i" unfolding va by (rule private_slot_exact[OF i])
    note nsh = memory_unmap_private(1)[OF ps]
    have ak: "private_allocs k' ! i = Some a" "frame_alloc k' = Some fa1" using il(1) by (simp_all add: mapped(3))
    have szp: "sz \<le> pa_pages a * PAGE_SIZE"
    proof -
      have "sz \<le> div_ceil sz PAGE_SIZE * PAGE_SIZE" unfolding div_ceil_def PAGE_SIZE_def by linarith
      also have "\<dots> \<le> pa_pages a * PAGE_SIZE" unfolding mapped(5) by (intro mult_le_mono1) simp
      finally show ?thesis .
    qed
    have ord: "pa_pages a \<le> 2 ^ pa_order a" using order_for_pages_exact(1) mapped(6) by (simp add: private_ok_def)
    have bad: "memory_unmap p va s k' = Some (Err (errno Einval), k')" if "p \<noteq> pid \<or> max (div_ceil s PAGE_SIZE) 1 \<noteq> pa_pages a" for p s
      using that ps ak(1) mapped(4) unfolding memory_unmap_def if_not_P[OF nsh] by (auto simp: Let_def)
    have fi1: "frames_inv U fa1 (add_mset (pa_base_phys a, pa_order a) (oth + shm_blocks k))" using mapped(8) by (simp add: private_block_def)
    have "(0 :: nat) < 2 ^ pa_order a * PAGE_SIZE div 8" by (simp add: PAGE_SIZE_def)
    then have "fa_read (pa_base_phys a) fa1 = Some 0" using mapped(9)[rule_format, of 0] by simp
    then obtain fa2 where f2: "free_user_pages (pa_base_phys a) (pa_order a) (Some fa1) = Some (Some fa2)"
      using user_free_returns[OF fi1] by (auto simp: POISON_PATTERN_def)
    have fi2: "frames_inv U fa2 (oth + shm_blocks k)" using user_free_inv[OF fi1 f2] by blast
    have "memory_unmap pid va sz k' = Some (Ok (), k'\<lparr>private_allocs := (private_allocs k')[i := None], frame_alloc := Some fa2\<rparr>)"
      using ps ak mapped(4,5) f2 unfolding memory_unmap_def if_not_P[OF nsh] by (simp add: Let_def)
    also have "k'\<lparr>private_allocs := (private_allocs k')[i := None], frame_alloc := Some fa2\<rparr> = k\<lparr>frame_alloc := Some fa2\<rparr>"
      using il list_update_id[of "private_allocs k" i] by (simp add: mapped(3))
    finally have good: "memory_unmap pid va sz k' = Some (Ok (), k\<lparr>frame_alloc := Some fa2\<rparr>)" .
    have cnt: "pools_total_free (pools fa2) = pools_total_free (pools fa)"
      using frames_inv_accounting[OF fi] frames_inv_accounting[OF fi2] by simp
    have keep: "\<forall>blk\<in>#oth + shm_blocks k. \<forall>w\<in>bytes_of blk. fa_read w fa1 = fa_read w fa" using mapped(10) assms(3) by simp
    have tab: "private_allocs k' = (private_allocs k)[i := Some a]" by (simp add: mapped(3))
    have "\<exists>fa''. memory_unmap pid va sz k' = Some (Ok (), k\<lparr>frame_alloc := Some fa''\<rparr>) \<and>
       pools_total_free (pools fa'') = pools_total_free (pools fa)" using good cnt by blast
    with i va ak(2) il(2) tab mapped(4) szp ord mapped(9) keep bad show ?thesis
      by - (rule exI[of _ i], rule exI[of _ a], rule exI[of _ fa1], intro conjI, (assumption | blast)+)
  qed simp_all
qed

text \<open>
  C11. Unmapping: while another process still maps the region, \<open>shared_memory_unmap\<close> only removes the
  caller's mapping; when the caller's is the last one the region is gone and its pages are free again.
  It returns in both cases, unless the last mapper has left the allocator's poison pattern in the first
  word.
\<close>

theorem unmap_releases:
  assumes "shm_reach U k oth" "frame_alloc k = Some fa" "unat rid < MAX_SHARED_REGIONS" "shared_regions k ! unat rid = Some r"
    and "Some m \<in> set (mappings r)" "sm_pid m = pid"
  shows "\<exists>j < length (mappings r). mappings r ! j = Some m \<and>
    (length (occupied (mappings r)) > 1 \<longrightarrow> shared_memory_unmap pid rid k =
       Some (Ok (), k\<lparr>shared_regions := (shared_regions k)[unat rid := Some (r\<lparr>mappings := (mappings r)[j := None], ref_count := ref_count r - 1\<rparr>)]\<rparr>)) \<and>
    (length (occupied (mappings r)) = 1 \<and> (\<forall>v. fa_read (sr_base_phys r) fa = Some v \<longrightarrow> v mod 2 ^ 32 \<noteq> POISON_PATTERN) \<longrightarrow>
       (\<exists>fa'. shared_memory_unmap pid rid k = Some (Ok (), k\<lparr>shared_regions := (shared_regions k)[unat rid := None], frame_alloc := Some fa'\<rparr>) \<and>
          pools_total_free (pools fa') = pools_total_free (pools fa) + 2 ^ sr_order r))"
proof -
  note inv = shm_reach_inv[OF assms(1)]
  note at = region_at[OF inv assms(3,4)]
  have fi: "frames_inv U fa (oth + shm_blocks k)" using inv assms(2) by (simp add: shm_inv_def)
  obtain j where j: "mapping_slot pid (mappings r) = Some j" using assms(5,6) mapping_slot_None[of pid "mappings r"] by (cases "mapping_slot pid (mappings r)") auto
  obtain m' where m': "j < length (mappings r)" "mappings r ! j = Some m'" "sm_pid m' = pid" using mapping_slot_SomeD[OF j] by blast
  obtain j2 where "j2 < length (mappings r)" "mappings r ! j2 = Some m" using assms(5) by (auto simp: in_set_conv_nth)
  then have mj: "mappings r ! j = Some m" using at(1) m' assms(6) unfolding region_ok_def by metis
  note um = region_ok_unmap[OF at(1) j]
  have rc: "unat (ref_count r) = length (occupied (mappings r))" using at(1) by (simp add: region_ok_def)
  have one: "ref_count r = 1 \<longleftrightarrow> unat (ref_count r) = 1" by (metis unat_1 word_unat_eq_iff)
  have many: "shared_memory_unmap pid rid k =
       Some (Ok (), k\<lparr>shared_regions := (shared_regions k)[unat rid := Some (r\<lparr>mappings := (mappings r)[j := None], ref_count := ref_count r - 1\<rparr>)]\<rparr>)"
    if "length (occupied (mappings r)) > 1"
    using that assms(3,4) j um(1) one rc by (simp add: shared_memory_unmap_def Let_def)
  have last: "\<exists>fa'. shared_memory_unmap pid rid k = Some (Ok (), k\<lparr>shared_regions := (shared_regions k)[unat rid := None], frame_alloc := Some fa'\<rparr>) \<and>
          pools_total_free (pools fa') = pools_total_free (pools fa) + 2 ^ sr_order r"
    if l: "length (occupied (mappings r)) = 1" "\<forall>v. fa_read (sr_base_phys r) fa = Some v \<longrightarrow> v mod 2 ^ 32 \<noteq> POISON_PATTERN"
  proof -
    let ?k = "k\<lparr>shared_regions := (shared_regions k)[unat rid := None]\<rparr>"
    have fi1: "frames_inv U fa (add_mset (sr_base_phys r, sr_order r) (oth + shm_blocks ?k))"
      using fi shm_blocks_region[OF at(2) assms(4)] by (simp add: region_block_def)
    have "sr_base_phys r \<in> bytes_of (sr_base_phys r, sr_order r)" by (simp add: bytes_of_def PAGE_SIZE_def)
    then obtain v where v: "fa_read (sr_base_phys r) fa = Some v"
      using owned_read[OF fi1, of "(sr_base_phys r, sr_order r)" "sr_base_phys r"] by auto
    then have "v mod 2 ^ 32 \<noteq> POISON_PATTERN" using l(2) by blast
    then obtain fa' where f: "free_user_pages (sr_base_phys r) (sr_order r) (Some fa) = Some (Some fa')"
      using user_free_returns[OF fi1 v] by blast
    have fi2: "frames_inv U fa' (oth + shm_blocks ?k)" using user_free_inv[OF fi1 f] by blast
    have "shared_memory_unmap pid rid k = Some (Ok (), k\<lparr>shared_regions := (shared_regions k)[unat rid := None], frame_alloc := Some fa'\<rparr>)"
      using l(1) assms(2,3,4) j one rc f by (simp add: shared_memory_unmap_def Let_def)
    moreover have "pools_total_free (pools fa') = pools_total_free (pools fa) + 2 ^ sr_order r"
      using frames_inv_accounting[OF fi1] frames_inv_accounting[OF fi2] by simp
    ultimately show ?thesis by blast
  qed
  show ?thesis using m'(1) mj many last by blast
qed

text \<open>
  C12. Nothing in shared memory is reached without the right to it: creating needs a live
  SharedMemoryCreate capability, mapping a live SharedMemoryAccess capability for that region, sharing
  needs to be its creator and unmapping needs a mapping. Otherwise the call fails and changes nothing.
\<close>

theorem shared_memory_authority:
  "(\<not> holds k pid SharedMemoryCreate \<longrightarrow> (\<exists>e. shared_memory_create pid sz flags k = Some (Err e, k))) \<and>
   (\<not> holds k pid (SharedMemoryAccess rid) \<longrightarrow> (\<exists>e. shared_memory_map pid rid flags k = (Err e, k))) \<and>
   ((\<forall>r. unat rid < MAX_SHARED_REGIONS \<and> shared_regions k ! unat rid = Some r \<longrightarrow> sr_creator r \<noteq> pid) \<longrightarrow>
       (\<exists>e. shared_memory_share pid rid tgt k = (Err e, k))) \<and>
   ((\<forall>r. unat rid < MAX_SHARED_REGIONS \<and> shared_regions k ! unat rid = Some r \<longrightarrow> (\<forall>m. Some m \<in> set (mappings r) \<longrightarrow> sm_pid m \<noteq> pid)) \<longrightarrow>
       (\<exists>e. shared_memory_unmap pid rid k = Some (Err e, k)))"
proof (intro conjI)
  have "\<exists>e. check_shared_memory_create k pid = Err e" if "\<not> holds k pid SharedMemoryCreate"
  proof (cases "check_shared_memory_create k pid")
    case (Inr t)
    then show ?thesis using check_token_OkD[of k pid SharedMemoryCreate t] that
      by (auto simp: check_shared_memory_create_def holds_def process_ref_Ok)
  qed simp
  then show "\<not> holds k pid SharedMemoryCreate \<longrightarrow> (\<exists>e. shared_memory_create pid sz flags k = Some (Err e, k))"
    by (auto simp: shared_memory_create_def Let_def)
  have "check_access k pid (SharedMemoryAccess rid) = Err (errno Eperm)" if "\<not> holds k pid (SharedMemoryAccess rid)"
    using that check_access_Err by blast
  then show "\<not> holds k pid (SharedMemoryAccess rid) \<longrightarrow> (\<exists>e. shared_memory_map pid rid flags k = (Err e, k))"
    by (auto simp: shared_memory_map_def check_shared_memory_access_def)
  show "(\<forall>r. unat rid < MAX_SHARED_REGIONS \<and> shared_regions k ! unat rid = Some r \<longrightarrow> (\<forall>m. Some m \<in> set (mappings r) \<longrightarrow> sm_pid m \<noteq> pid)) \<longrightarrow>
       (\<exists>e. shared_memory_unmap pid rid k = Some (Err e, k))"
    unfolding mapping_slot_None[symmetric] by (auto simp: shared_memory_unmap_def split: option.split)
qed (auto simp: shared_memory_share_def split: option.split)




text \<open>
  Slots are reused: a capability for a region that is gone is a capability for whatever region takes
  its slot next.
\<close>

lemma holds_grant_other:
  assumes "holds k a cap" "a \<noteq> b"
  shows "holds (snd (grant_to_process b c d k)) a cap"
proof -
  obtain idx proc tok where h: "process_index a = Some idx" "processes k ! idx = Some proc" "Some tok \<in> set (tokens (cap_table proc))"
    "\<not> revoked tok" "\<not> expired (tick_count k) tok" "capability tok = cap" using assms(1) by (auto simp: holds_def)
  let ?k = "snd (grant_to_process b c d k)"
  have "processes ?k ! idx = processes k ! idx"
  proof (cases "process_index b")
    case (Some j)
    then have "j \<noteq> idx" using process_index_SomeD[OF h(1)] process_index_SomeD[OF Some] assms(2) by (metis word_unat_eq_iff)
    then show ?thesis using Some by (auto simp: grant_to_process_def process_mut_def new_token_id_def process_ref_def split: option.splits prod.splits)
  qed (simp add: grant_to_process_def process_ref_def)
  moreover have "tick_count ?k = tick_count k"
    by (auto simp: grant_to_process_def process_mut_def new_token_id_def split: sum.split option.split prod.split)
  ultimately show ?thesis using h by (auto simp: holds_def)
qed

lemma stale_region_access:
  assumes "holds k a (SharedMemoryAccess rid)" "shared_memory_unmap p rid k = Some (Ok (), k1)" "shared_regions k1 ! unat rid = None"
    and "shared_memory_create b sz flags k1 = Some (Ok rid, k2)" "a \<noteq> b" "vm_contains flags fl" "shm_inv U k oth"
  shows "\<exists>k3. shared_memory_map a rid fl k2 = (Ok (SHM_VA_BASE + unat rid * SHM_VA_STRIDE), k3)"
proof -
  have inv1: "shm_inv U k1 oth" by (rule unmap_inv[OF assms(7,2)])
  have p1: "processes k1 = processes k" "tick_count k1 = tick_count k" and r: "unat rid < MAX_SHARED_REGIONS"
    using assms(2) by (auto simp: shared_memory_unmap_def Let_def split: if_splits option.splits)
  have h1: "holds k1 a (SharedMemoryAccess rid)" using assms(1) p1 by (simp add: holds_def)
  obtain kk reg where c: "k2 = snd (grant_to_process b (SharedMemoryAccess rid) True kk)" "processes kk = processes k1" "tick_count kk = tick_count k1"
    "shared_regions kk ! unat rid = Some reg" "max_flags reg = flags" "mappings reg = replicate MAX_SHARED_MAPPINGS None" "wx_ok flags"
  proof -
    obtain i where i: "first_free (shared_regions k1) = Some i" "rid = word_of_nat i"
      using assms(4) by (auto simp: shared_memory_create_def Let_def split: if_splits sum.splits option.splits prod.splits)
    have il: "i < length (shared_regions k1)" using first_free_length[OF i(1)] .
    then have "i < MAX_SHARED_REGIONS" using inv1 by (simp add: shm_inv_def shm_tables_ok_def)
    then have u: "unat rid = i" using i(2) by (simp add: unat_of_nat take_bit_eq_mod MAX_SHARED_REGIONS_def)
    show thesis using assms(4) that i u il
      by (auto simp: shared_memory_create_def Let_def wx_ok_iff split: if_splits sum.splits option.splits prod.splits)
  qed
  have "holds kk a (SharedMemoryAccess rid)" using h1 c(2,3) by (simp add: holds_def)
  then have "holds k2 a (SharedMemoryAccess rid)" unfolding c(1) by (rule holds_grant_other[OF _ assms(5)])
  then have "check_shared_memory_access k2 a rid = Ok ()" by (simp add: check_shared_memory_access_def check_access_Ok)
  moreover have "shared_regions k2 ! unat rid = Some reg" using c(1,4) by simp
  moreover have "wx_ok fl" by (rule wx_sub[OF c(7) assms(6)])
  moreover have "mapping_slot a (mappings reg) = None" "first_free (mappings reg) = Some 0"
    by (simp add: c(6) mapping_slot_None) (simp add: c(6) MAX_SHARED_MAPPINGS_def numeral_eq_Suc)
  ultimately show ?thesis using r c(5) assms(6) by (simp add: shared_memory_map_def wx_ok_iff Let_def)
qed

section \<open>An example\<close>

lemma user_page_free:
  assumes "frames_inv U fa al" "0 < pool_free_pages fa PoolUser"
  shows "\<exists>t fa'. alloc_user_pages 0 (Some fa) = (Some t, Some fa')"
proof -
  obtain blks where f: "\<forall>q. case get_pool q (pools fa) of None \<Rightarrow> U q = {} \<and> blks q = {#} | Some c \<Rightarrow> pool_ok (U q) c (blks q)"
    by (rule frames_inv_blocks[OF assms(1)])
  obtain b where b: "get_pool PoolUser (pools fa) = Some b" by (simp add: get_pool_def)
  have "pool_ok (U PoolUser) b (blks PoolUser)" using f[rule_format, of PoolUser] b by simp
  moreover have "0 < total_free b" using assms(2) b by (simp add: pool_free_pages_def)
  ultimately obtain a b' where "alloc_pages 0 b = (Some a, b')" by (rule pool_alloc_page)
  then show ?thesis using b by (simp add: alloc_user_pages_def fa_alloc_pages_def)
qed

definition shm_config :: PoolConfig where
  "shm_config = \<lparr>cfg_kernel = 0, cfg_model = 0, cfg_user = 0x8000, cfg_dma = 0, cfg_reserved = 0\<rparr>"

definition shm_frames :: FrameAllocator where
  "shm_frames = boot_frames (\<lambda>_. 0) (\<lambda>_. 0) 0x100000 0x108000 shm_config (0, 0) (0, 0) 8"

abbreviation shm_pages :: "Pool \<Rightarrow> nat set" where
  "shm_pages \<equiv> boot_pages 0x100000 0x108000 shm_config (0, 0) (0, 0)"

definition shm_caps :: CapabilityTable where
  "shm_caps = snd (grant (fresh_token 7 SharedMemoryCreate 0 True 0) cap_table_new)"

definition shm_demo :: Kernel where
  "shm_demo = boot_kernel\<lparr>frame_alloc := Some shm_frames,
     processes := (replicate MAX_PROCESSES None)[0 := Some \<lparr>pc_pid = 0, resource_limits = limits_system, cap_table = shm_caps\<rparr>]\<rparr>"

lemma shm_bounds: "pool_bounds 0x100000 0x108000 shm_config = (0x100000, 0x100000, 0x100000, 0x100000)"
  by (simp add: pool_bounds_def shm_config_def)

lemma shm_frames_inv: "frames_inv shm_pages shm_frames {#}"
  unfolding shm_frames_def by (rule frames_inv_boot) (simp add: layout_ok_def shm_config_def PAGE_SIZE_def excl_ok_def)

lemma shm_pages_eq: "shm_pages PoolUser = pool_pages 0x100000 0x108000 (0, 0) (0, 0)" "p \<noteq> PoolUser \<Longrightarrow> shm_pages p = {}"
  by (simp_all add: boot_pages_def shm_bounds new_pool_pages_def split: Pool.split)

lemma shm_frames_free: "0 < pool_free_pages shm_frames PoolUser"
proof -
  have u: "(\<Union>p. shm_pages p) = pool_pages 0x100000 0x108000 (0, 0) (0, 0)"
    using shm_pages_eq by (auto split: if_splits) (metis empty_iff)
  have "0x101000 \<in> pool_pages 0x100000 0x108000 (0, 0) (0, 0)" by (simp add: demo8_page_set PAGE_SIZE_def)
  moreover have "finite (pool_pages 0x100000 0x108000 (0, 0) (0, 0))"
    by (rule finite_subset[of _ "{..0x108000}"]) (auto simp: demo8_page_set)
  ultimately have "0 < card (pool_pages 0x100000 0x108000 (0, 0) (0, 0))" by (auto simp: card_gt_0_iff)
  moreover have "pools_total_free (pools shm_frames) = card (pool_pages 0x100000 0x108000 (0, 0) (0, 0))"
    using frames_inv_accounting[OF shm_frames_inv] u by simp
  moreover have "pools_total_free (pools shm_frames) = pool_free_pages shm_frames PoolUser"
    by (simp add: pools_total_free_def pool_free_pages_def get_pool_def shm_frames_def boot_frames_def pools_init_def shm_bounds
        new_pool_def buddy_new_def)
  ultimately show ?thesis by simp
qed

lemma shm_demo_fields:
  "frame_alloc shm_demo = Some shm_frames" "shared_regions shm_demo = replicate MAX_SHARED_REGIONS None"
  "private_allocs shm_demo = replicate MAX_PRIVATE_ALLOCATIONS None" "tick_count shm_demo = 0" "next_token_id shm_demo = 1"
  "processes shm_demo ! 0 = Some \<lparr>pc_pid = 0, resource_limits = limits_system, cap_table = shm_caps\<rparr>" "length (processes shm_demo) = 32"
  "processes shm_demo ! 1 = None"
  by (simp_all add: shm_demo_def boot_kernel_def MAX_PROCESSES_def)

lemma shm_demo_reach: "shm_reach shm_pages shm_demo {#}"
  by (rule shm_start[OF shm_demo_fields(1) shm_frames_inv shm_demo_fields(2,3)])

lemma shm_small: "first_free (replicate MAX_SHARED_REGIONS None) = Some 0" "first_free (replicate MAX_PRIVATE_ALLOCATIONS None) = Some 0"
  "first_free (replicate MAX_SHARED_MAPPINGS None) = Some 0"
  by (simp_all add: MAX_SHARED_REGIONS_def MAX_PRIVATE_ALLOCATIONS_def MAX_SHARED_MAPPINGS_def numeral_eq_Suc)

lemma shm_one_page: "max (div_ceil 4096 PAGE_SIZE) 1 = 1" "order_for_pages 1 = 0"
  by (simp_all add: div_ceil_def PAGE_SIZE_def order_for_pages_def)

lemma shm_demo_alloc:
  obtains t fa fa' where "alloc_user_pages 0 (Some shm_frames) = (Some t, Some fa)" "zero_pages t 0 (Some fa) = Some fa'" "fa_read t fa' = Some 0"
proof -
  obtain t fa where a: "alloc_user_pages 0 (frame_alloc shm_demo) = (Some t, Some fa)"
    using user_page_free[OF shm_frames_inv shm_frames_free] shm_demo_fields(1) by auto
  obtain fa' where z: "zero_pages t 0 (Some fa) = Some fa'" "\<forall>i < 2 ^ 0 * PAGE_SIZE div 8. fa_read (t + i * 8) fa' = Some 0"
    by (rule zeroed_block[OF shm_reach_inv[OF shm_demo_reach] a])
  then have "fa_read t fa' = Some 0" by (auto simp: PAGE_SIZE_def dest: spec[of _ 0])
  then show thesis using that a z(1) shm_demo_fields(1) by simp
qed

lemma shm_demo_map:
  obtains k where "memory_map 1 4096 VM_READ shm_demo = Some (Ok PRIVATE_VA_BASE, k)"
proof -
  obtain t fa fa' where a: "alloc_user_pages 0 (Some shm_frames) = (Some t, Some fa)" "zero_pages t 0 (Some fa) = Some fa'"
    by (rule shm_demo_alloc)
  have "\<not> vm_contains VM_READ (VM_WRITE OR VM_EXECUTE)" "\<not> (1 :: nat) > MAX_PRIVATE_PAGES"
    using kernel_flags(2) by (simp_all add: wx_ok_iff MAX_PRIVATE_PAGES_def)
  then show thesis using that a by (simp add: memory_map_def Let_def shm_one_page shm_demo_fields shm_small del: One_nat_def)
qed

theorem memory_map_roundtrip_witness:
  "\<exists>k fa. memory_map 1 4096 VM_READ shm_demo = Some (Ok PRIVATE_VA_BASE, k) \<and>
     memory_unmap 2 PRIVATE_VA_BASE 4096 k = Some (Err (errno Einval), k) \<and>
     memory_unmap 1 PRIVATE_VA_BASE 4096 k = Some (Ok (), shm_demo\<lparr>frame_alloc := Some fa\<rparr>)"
proof -
  obtain k where k: "memory_map 1 4096 VM_READ shm_demo = Some (Ok PRIVATE_VA_BASE, k)" by (rule shm_demo_map)
  from memory_map_roundtrip[OF shm_demo_reach this shm_demo_fields(1)]
  obtain a :: PrivateAllocation and fa where "\<forall>p s. p \<noteq> 1 \<or> max (div_ceil s PAGE_SIZE) 1 \<noteq> pa_pages a \<longrightarrow>
      memory_unmap p PRIVATE_VA_BASE s k = Some (Err (errno Einval), k)"
    "memory_unmap 1 PRIVATE_VA_BASE 4096 k = Some (Ok (), shm_demo\<lparr>frame_alloc := Some fa\<rparr>)" by blast
  then show ?thesis using k by auto
qed

theorem memory_tables_typed_witness:
  "\<exists>k. memory_map 1 4096 VM_READ shm_demo = Some (Ok PRIVATE_VA_BASE, k) \<and> shm_reach shm_pages k {#} \<and> shm_tables_ok k"
proof -
  obtain k where k: "memory_map 1 4096 VM_READ shm_demo = Some (Ok PRIVATE_VA_BASE, k)" by (rule shm_demo_map)
  then have "shm_reach shm_pages k {#}" by (rule shm_memory_map[OF shm_demo_reach])
  then show ?thesis using memory_tables_typed[of shm_pages k "{#}"] k by blast
qed

theorem memory_isolated_witness:
  "\<exists>k x. memory_map 1 4096 VM_READ shm_demo = Some (Ok PRIVATE_VA_BASE, k) \<and> x \<in># shm_blocks k \<and>
     bytes_of x \<subseteq> (\<Union>p\<in>\<Union>q. shm_pages q. {p..<p + PAGE_SIZE})"
proof -
  obtain k where k: "memory_map 1 4096 VM_READ shm_demo = Some (Ok PRIVATE_VA_BASE, k)" by (rule shm_demo_map)
  have r: "shm_reach shm_pages k {#}" by (rule shm_memory_map[OF shm_demo_reach k])
  obtain i a where "i < length (private_allocs shm_demo)" "private_allocs k = (private_allocs shm_demo)[i := Some a]"
    by (rule memory_map_cases[OF shm_reach_inv[OF shm_demo_reach] k]) (auto dest: first_free_length)
  then have "Some a \<in> set (private_allocs k)" by (simp add: set_update_memI)
  then have "private_block a \<in># shm_blocks k" by (simp add: shm_blocks_def set_occupied)
  moreover from this have "bytes_of (private_block a) \<subseteq> (\<Union>p\<in>\<Union>q. shm_pages q. {p..<p + PAGE_SIZE})" using memory_isolated[OF r] by simp
  ultimately show ?thesis using k by blast
qed

lemma shm_caps_facts:
  "find_authorizing_token shm_caps SharedMemoryCreate 0 = Some 7"
  "has_capability (snd (grant (fresh_token 1 (SharedMemoryAccess 0) 0 True 0) shm_caps)) (SharedMemoryAccess 0) 0"
  by code_simp+

lemma shm_demo_create:
  obtains k1 r where "shared_memory_create 0 4096 VM_READ shm_demo = Some (Ok 0, k1)" "shm_reach shm_pages k1 {#}"
    "shared_regions k1 = (replicate MAX_SHARED_REGIONS None)[0 := Some r]" "mappings r = replicate MAX_SHARED_MAPPINGS None" "max_flags r = VM_READ"
    "check_shared_memory_access k1 0 0 = Ok ()" "frame_alloc k1 \<noteq> None" "fa_read (sr_base_phys r) (the (frame_alloc k1)) = Some 0"
proof -
  obtain t fa fa' where a: "alloc_user_pages 0 (Some shm_frames) = (Some t, Some fa)" "zero_pages t 0 (Some fa) = Some fa'" "fa_read t fa' = Some 0"
    by (rule shm_demo_alloc)
  have n: "\<not> vm_contains VM_READ (VM_WRITE OR VM_EXECUTE)" "\<not> (1 :: nat) > MAX_SHARED_REGION_PAGES"
    using kernel_flags(2) by (simp_all add: wx_ok_iff MAX_SHARED_REGION_PAGES_def)
  have pi: "process_index 0 = Some 0" by (simp add: process_index_def MAX_PROCESSES_def)
  have c: "check_shared_memory_create shm_demo 0 = Ok 7"
    by (simp add: check_shared_memory_create_def check_token_def process_ref_def pi shm_demo_fields shm_caps_facts)
  let ?r = "\<lparr>sr_id = 0, sr_base_phys = t, sr_order = 0, size_bytes = 1 * PAGE_SIZE, ref_count = 0, sr_creator = 0, max_flags = VM_READ,
    sr_creation_cap = Some 7, mappings = replicate MAX_SHARED_MAPPINGS None\<rparr>"
  let ?k = "shm_demo\<lparr>frame_alloc := Some fa', shared_regions := (replicate MAX_SHARED_REGIONS None)[0 := Some ?r]\<rparr>"
  let ?k1 = "snd (grant_to_process 0 (SharedMemoryAccess 0) True ?k)"
  have e: "shared_memory_create 0 4096 VM_READ shm_demo = Some (Ok 0, ?k1)"
    using a n c by (simp add: shared_memory_create_def Let_def shm_one_page shm_demo_fields shm_small del: One_nat_def)
  have "check_shared_memory_access ?k1 0 0 = Ok ()"
    using shm_caps_facts(2)
    by (simp add: check_shared_memory_access_def check_access_def grant_to_process_def process_ref_def process_mut_def new_token_id_def pi
        shm_demo_fields case_prod_beta)
  then show thesis using that[of ?k1 ?r] e shm_create[OF shm_demo_reach e] a(3) by simp
qed

lemma shm_demo_mapped:
  obtains k r m fa where "shm_reach shm_pages k {#}" "frame_alloc k = Some fa" "shared_regions k ! 0 = Some r" "Some m \<in> set (mappings r)"
    "sm_pid m = 0" "length (occupied (mappings r)) = 1" "fa_read (sr_base_phys r) fa = Some 0"
    "shared_regions k = (replicate MAX_SHARED_REGIONS None)[0 := Some r]"
proof -
  obtain k1 r where k1: "shm_reach shm_pages k1 {#}" "shared_regions k1 = (replicate MAX_SHARED_REGIONS None)[0 := Some r]"
    "mappings r = replicate MAX_SHARED_MAPPINGS None" "max_flags r = VM_READ" "check_shared_memory_access k1 0 0 = Ok ()" "frame_alloc k1 \<noteq> None" "fa_read (sr_base_phys r) (the (frame_alloc k1)) = Some 0"
    by (rule shm_demo_create)
  let ?m = "\<lparr>sm_pid = 0, sm_vaddr = SHM_VA_BASE, sm_flags = VM_READ\<rparr>"
  let ?r = "r\<lparr>mappings := (mappings r)[0 := Some ?m], ref_count := ref_count r + 1\<rparr>"
  let ?k = "k1\<lparr>shared_regions := (shared_regions k1)[0 := Some ?r]\<rparr>"
  have n: "\<not> vm_contains VM_READ (VM_WRITE OR VM_EXECUTE)" "vm_contains VM_READ VM_READ" by (simp_all add: wx_ok_iff kernel_flags(2)) (simp add: vm_contains_def)
  have "mapping_slot 0 (mappings r) = None" by (simp add: mapping_slot_None k1(3))
  then have e: "shared_memory_map 0 0 VM_READ k1 = (Ok SHM_VA_BASE, ?k)"
    using k1 n by (simp add: shared_memory_map_def Let_def shm_small MAX_SHARED_REGIONS_def)
  obtain fa where "frame_alloc k1 = Some fa" using k1(6) by auto
  moreover have "shared_regions ?k ! 0 = Some ?r" using k1(2) by (simp add: MAX_SHARED_REGIONS_def)
  moreover have "length (occupied ((mappings r)[0 := Some ?m])) = 1"
    by (subst length_occupied_fill) (simp_all add: k1(3) MAX_SHARED_MAPPINGS_def)
  moreover have "Some ?m \<in> set ((mappings r)[0 := Some ?m])" by (rule set_update_memI) (simp add: k1(3) MAX_SHARED_MAPPINGS_def)
  ultimately show thesis using that[of ?k fa ?r ?m] shm_map[OF k1(1) e] k1(2,7) by simp
qed

theorem unmap_releases_witness:
  "\<exists>k r fa fa'. shm_reach shm_pages k {#} \<and> shared_regions k ! 0 = Some r \<and> frame_alloc k = Some fa \<and>
     shared_memory_unmap 0 0 k = Some (Ok (), k\<lparr>shared_regions := (shared_regions k)[0 := None], frame_alloc := Some fa'\<rparr>) \<and>
     pools_total_free (pools fa') = pools_total_free (pools fa) + 2 ^ sr_order r"
proof -
  obtain k r m fa where k: "shm_reach shm_pages k {#}" "frame_alloc k = Some fa" "shared_regions k ! 0 = Some r" "Some m \<in> set (mappings r)"
    "sm_pid m = 0" "length (occupied (mappings r)) = 1" "fa_read (sr_base_phys r) fa = Some 0" by (rule shm_demo_mapped)
  have "unat (0 :: SharedMemoryId) < MAX_SHARED_REGIONS" "shared_regions k ! unat (0 :: SharedMemoryId) = Some r" using k(3) by (simp_all add: MAX_SHARED_REGIONS_def)
  from unmap_releases[OF k(1,2) this k(4,5)] k(6,7) obtain fa' where
    "shared_memory_unmap 0 0 k = Some (Ok (), k\<lparr>shared_regions := (shared_regions k)[0 := None], frame_alloc := Some fa'\<rparr>)"
    "pools_total_free (pools fa') = pools_total_free (pools fa) + 2 ^ sr_order r" by (auto simp: POISON_PATTERN_def)
  then show ?thesis using k(1-3) by blast
qed


theorem shared_memory_authority_witness:
  "(\<exists>e. shared_memory_create 1 4096 VM_READ shm_demo = Some (Err e, shm_demo)) \<and>
   (\<exists>e. shared_memory_map 1 0 VM_READ shm_demo = (Err e, shm_demo)) \<and>
   (\<exists>e. shared_memory_unmap 1 0 shm_demo = Some (Err e, shm_demo))"
proof -
  have "\<not> holds shm_demo 1 cap" for cap by (auto simp: holds_def process_index_def MAX_PROCESSES_def shm_demo_fields shm_demo_fields(8)[unfolded One_nat_def] Let_def split: if_splits)
  moreover have "shared_regions shm_demo ! unat (0 :: SharedMemoryId) = None" by (simp add: shm_demo_fields MAX_SHARED_REGIONS_def)
  ultimately show ?thesis using shared_memory_authority[of shm_demo 1 4096 VM_READ 0] by simp
qed

end
