(* ===== verification/Spec2Isabelle.thy ===== *)
theory Spec2Isabelle
  imports Ipc_Notify Mem_Init Shared_Memory
begin

text \<open>
  \<^bold>\<open>A verification development for the AIOS kernel.\<close> AIOS is a capability-based kernel for 64-bit
  ARM, written in Rust. The sources are under \<open>src/kernel/src\<close> (the kernel) and
  \<open>src/shared/src\<close> (the types and the pure algorithms the kernel shares with its host-side tests).
  The theories translate them one definition per function or type and prove what makes each part
  correct. Every definition computes, so every theorem with a hypothesis has a concrete instance.

  \<^bold>\<open>The parts and how they interact.\<close> The firmware memory map becomes four page pools, each with a
  buddy allocator (\<open>mm\<close>). Kernel and user page tables and shared regions take their pages from
  the pools. Every process has a capability table; a call on a channel, a notification or a shared
  region is first checked against it. Threads block in IPC, are woken by senders, by replies, by
  signals, by timeouts and by teardown, and are queued by class on the processors (\<open>sched\<close>).

  \<^bold>\<open>Conventions.\<close> Rust's \<open>Result\<close> is a sum with \<open>Ok\<close> = \<open>Inr\<close> and \<open>Err\<close> = \<open>Inl\<close>. The fixed-width integers
  whose width matters are words; indices, addresses and sizes are natural numbers, with the wrap or
  the overflow check written out where the code relies on it. A panic and a walk that does not
  end are \<open>None\<close>. Globals behind locks are fields of a state record which an operation takes and
  returns; an operation that blocks is split at the context switch into the part before it and the
  part that runs when the thread is dispatched again. Lock acquisition, logging, counters and barriers
  have no effect on that state and are left out.

  \<^bold>\<open>Theories.\<close>

  \<^item> \<open>Aios_Prelude\<close>: machine types, results, checked arithmetic, and the lemmas on slot tables and
    circular windows that every component uses.

  \<^item> \<open>Collections\<close> (\<open>shared/collections.rs\<close>): \<open>FixedQueue\<close> and \<open>RingBuffer\<close>. The locale
    \<open>bounded_fifo\<close> states the contract of a bounded queue; it is interpreted on \<open>FixedQueue\<close> and on
    the message ring of \<open>Kernel_State\<close>, which gives the refinement to a list for every client.

  \<^item> \<open>Abi\<close> (\<open>shared/syscall.rs\<close>, \<open>shared/ipc.rs\<close>, \<open>shared/sched.rs\<close>, \<open>shared/kits\<close>): error codes, argument
    decoding, user address checks, wire formats, deadlines, scheduling types.

  \<^item> \<open>Capability\<close> (\<open>shared/cap.rs\<close>): tables and tokens; the revocation loop against the set of derived
    tokens; reachable tables (\<open>cap_reach\<close>) and the confinement of authority.

  \<^item> \<open>Kernel_State\<close>: the state record: processes, threads, processors, channels, notifications,
    timeouts, regions, services (\<open>task\<close>, \<open>sched/mod.rs\<close>, \<open>ipc/mod.rs\<close>, \<open>service/mod.rs\<close>).

  \<^item> \<open>Sched\<close> (\<open>sched/scheduler.rs\<close>, \<open>sched/init.rs\<close>): run queues, dispatch, blocking, slices, load balancing;
    the invariant of the queues over \<open>sched_reach\<close>.

  \<^item> \<open>Cap_Enforce\<close> (\<open>cap/mod.rs\<close>): the checks at the kernel boundary, grants, revocation with teardown
    of channels, the Capability Kit.

  \<^item> \<open>Ipc_Wake\<close> (\<open>ipc/timeout.rs\<close>, \<open>ipc/direct.rs\<close>): wake-ups, timeouts, the direct switch with priority
    inheritance.

  \<^item> \<open>Ipc_Channel\<close> (\<open>ipc/channel.rs\<close>, \<open>ipc/mod.rs\<close>): call, receive, reply, send, cancel, create, destroy.
    The locale \<open>guarded_channel_op\<close> is the contract of an operation guarded by a channel capability.

  \<^item> \<open>Ipc_Notify\<close> (\<open>ipc/notify.rs\<close>, \<open>ipc/select.rs\<close>): notification words, select, the timeout scan.

  \<^item> \<open>Buddy\<close> (\<open>mm/buddy.rs\<close>): bitmap, free lists threaded through the free pages, initialisation,
    allocation, freeing. The locale \<open>page_allocator\<close> holds the laws of an allocator and the safety of
    every client that frees only what it holds (\<open>client_reach\<close>); it is interpreted on one buddy
    allocator and on the frame allocator. \<open>page_allocator_mem\<close> adds the contents of the memory.

  \<^item> \<open>Frame\<close>, \<open>Frame_Contents\<close>, \<open>Mem_Init\<close> (\<open>mm/pools.rs\<close>, \<open>mm/frame.rs\<close>, \<open>mm/init.rs\<close>): the four pools over one memory,
    the Memory Kit, and the whole of \<open>init_memory\<close> from the firmware map.

  \<^item> \<open>Page_Table\<close> (\<open>mm/pgtable.rs\<close>, \<open>mm/asid.rs\<close>, \<open>mm/uspace.rs\<close>): descriptors, the hardware walk, identifiers of
    address spaces, mapping of user pages (\<open>space_run\<close>).

  \<^item> \<open>Kernel_Map\<close> (\<open>mm/kmap.rs\<close>): the construction of the kernel page tables, refined to a map from
    addresses to descriptors.

  \<^item> \<open>Shared_Memory\<close> (\<open>ipc/shmem.rs\<close>): shared regions and private allocations over the frame allocator
    and the capability checks (\<open>shm_reach\<close>).

  \<^bold>\<open>Bounds and fuel.\<close> The free-list walks of the buddy allocator run on fuel equal to the number of pages
  of the pool plus one; a list without a cycle is shorter, and \<open>buddy_free_returns\<close> shows that the
  fuel is never used up. The revocation loop repeats until nothing changes; it is a terminating
  recursion on the number of live tokens. The kernel map needs at most 71 table pages for RAM of up
  to 60 GiB, and the theorem shows that 71 free pages are enough. All other loops are over arrays
  of fixed size.

  \<^bold>\<open>Hypotheses.\<close> The linker symbols and the firmware memory map are inputs with the layout rules of the
  linker script and of UEFI. Contents of freshly allocated pages are those left there before. The
  processor count, the tick counter and the current thread are arguments.

  \<^bold>\<open>Not modelled.\<close> Assembly and device access (exception vectors, context switch, TTBR writes, cache and
  TLB maintenance, GIC, UART, VirtIO transport, GPU), because their effect is on hardware state the
  sources do not describe; in the model a context switch is a change of the current thread and a
  page-table write is visible to the walk at once. Bringing up the secondary cores (firmware calls).
  The register context, stacks and names of threads. Logging, metrics and trip-wires, on which no
  modelled branch depends. The drawing code of the compositor. Host-side tools. Interleaving inside
  a locked section cannot occur in the code and is not modelled; operations interleave as sequences
  of steps.
\<close>

end
